(* ===== verification/Prelude.thy ===== *)
theory Prelude
  imports Main "HOL-Library.Word" "HOL-Library.Multiset"
begin

text \<open>
  What every component of the development shares: the names of the machine types, the
  outcome of a C function (a value, a panic, undefined behaviour, or going to sleep), reading
  and overwriting a run of bytes inside a byte list, and the little-endian layout of 32-bit and
  16-bit integers.
\<close>

unbundle bit_operations_syntax

named_theorems run_simps \<open>how runs of bytes are read back after writes\<close>
named_theorems outcome_simps \<open>how outcomes compose\<close>

type_synonym byte = "8 word"
type_synonym u16 = "16 word"
type_synonym u32 = "32 word"

section \<open>Outcomes of C functions\<close>

text \<open>
  \<open>Ok v\<close>: the function returns. \<open>Panic m\<close>: it stops the program (\<^verbatim>\<open>panic\<close>, \<^verbatim>\<open>exit(1)\<close>, a failed
  \<^verbatim>\<open>assert\<close>). \<open>Fault m\<close>: the C program has no defined behaviour here (an access outside an
  object). \<open>Sleep c\<close>: the caller is put to sleep on channel \<open>c\<close> and will run the same loop
  again when it is woken.
\<close>

datatype 'a outcome = Ok 'a | Panic string | Fault string | Sleep string

fun andThen :: "'a outcome \<Rightarrow> ('a \<Rightarrow> 'b outcome) \<Rightarrow> 'b outcome" where
  "andThen (Ok x) f = f x"
| "andThen (Panic m) f = Panic m"
| "andThen (Fault m) f = Fault m"
| "andThen (Sleep c) f = Sleep c"

lemma andThen_eq_Ok [outcome_simps]:
  "andThen m f = Ok y \<longleftrightarrow> (\<exists>x. m = Ok x \<and> f x = Ok y)"
  by (cases m) auto

lemma andThen_assoc: "andThen (andThen m f) g = andThen m (\<lambda>x. andThen (f x) g)"
  by (cases m) auto

lemma andThen_OkE:
  assumes "andThen m f = Ok y"
  obtains x where "m = Ok x" and "f x = Ok y"
  using assms by (auto simp: andThen_eq_Ok)

lemma andThen_cong [fundef_cong]:
  "m = m' \<Longrightarrow> (\<And>x. m' = Ok x \<Longrightarrow> f x = f' x) \<Longrightarrow> andThen m f = andThen m' f'"
  by (cases m') auto

section \<open>Runs inside a list\<close>

definition get_at :: "'a list \<Rightarrow> nat \<Rightarrow> nat \<Rightarrow> 'a list" where
  "get_at xs off n = take n (drop off xs)"

definition put_at :: "'a list \<Rightarrow> nat \<Rightarrow> 'a list \<Rightarrow> 'a list" where
  "put_at xs off ys = take off xs @ ys @ drop (off + length ys) xs"

lemma length_get_at [simp]: "length (get_at xs off n) = min n (length xs - off)"
  by (simp add: get_at_def min.commute)

lemma length_put_at [simp]:
  "off + length ys \<le> length xs \<Longrightarrow> length (put_at xs off ys) = length xs"
  by (simp add: put_at_def)

lemma nth_get_at: "i < n \<Longrightarrow> off + n \<le> length xs \<Longrightarrow> get_at xs off n ! i = xs ! (off + i)"
  by (simp add: get_at_def)

lemma nth_put_at:
  "off + length ys \<le> length xs \<Longrightarrow> i < length xs \<Longrightarrow>
   put_at xs off ys ! i = (if off \<le> i \<and> i < off + length ys then ys ! (i - off) else xs ! i)"
  by (auto simp: put_at_def nth_append)

lemma get_at_0 [simp]: "get_at xs off 0 = []"
  by (simp add: get_at_def)

lemma put_at_Nil [simp]: "off \<le> length xs \<Longrightarrow> put_at xs off [] = xs"
  by (simp add: put_at_def)

lemma get_put_same [run_simps]:
  "off + length ys \<le> length xs \<Longrightarrow> n = length ys \<Longrightarrow> get_at (put_at xs off ys) off n = ys"
  by (simp add: get_at_def put_at_def)

lemma get_put_inside [run_simps]:
  assumes "off + length ys \<le> length xs" and "off \<le> o'" and "o' + n \<le> off + length ys"
  shows "get_at (put_at xs off ys) o' n = get_at ys (o' - off) n"
proof (rule nth_equalityI)
  show "length (get_at (put_at xs off ys) o' n) = length (get_at ys (o' - off) n)"
    using assms by simp
next
  fix i assume "i < length (get_at (put_at xs off ys) o' n)"
  with assms show "get_at (put_at xs off ys) o' n ! i = get_at ys (o' - off) n ! i"
    by (simp add: nth_get_at nth_put_at)
qed

lemma get_put_disjoint [run_simps]:
  assumes "off + length ys \<le> length xs" and "o' + n \<le> off \<or> off + length ys \<le> o'"
  shows "get_at (put_at xs off ys) o' n = get_at xs o' n"
proof (rule nth_equalityI)
  show "length (get_at (put_at xs off ys) o' n) = length (get_at xs o' n)"
    using assms(1) by simp
next
  fix i assume "i < length (get_at (put_at xs off ys) o' n)"
  then have i: "i < n" "o' + i < length xs"
    using assms(1) by auto
  have "get_at zs o' n ! i = zs ! (o' + i)" if "length zs = length xs" for zs :: "'a list"
    using that i by (simp add: get_at_def)
  with i assms show "get_at (put_at xs off ys) o' n ! i = get_at xs o' n ! i"
    by (simp add: nth_put_at) linarith
qed

lemma put_get_id [simp]: "put_at xs off (get_at xs off n) = xs"
  by (intro nth_equalityI) (auto simp: get_at_def put_at_def nth_append min_def)

lemma get_at_get_at:
  "o' + m \<le> n \<Longrightarrow> get_at (get_at xs off n) o' m = get_at xs (off + o') m"
  by (simp add: get_at_def drop_take add.commute min_absorb1)

lemma get_at_append: "get_at xs off (m + n) = get_at xs off m @ get_at xs (off + m) n"
  by (simp add: get_at_def take_add add.commute)

lemma get_at_Cons: "off < length xs \<Longrightarrow> get_at xs off (Suc n) = xs ! off # get_at xs (Suc off) n"
  by (simp add: get_at_def Cons_nth_drop_Suc [symmetric])

lemma put_at_append:
  "off + length ys + length zs \<le> length xs \<Longrightarrow>
   put_at (put_at xs off ys) (off + length ys) zs = put_at xs off (ys @ zs)"
  by (simp add: put_at_def ac_simps)

lemma put_at_commute:
  assumes "off + length ys \<le> length xs" and "o' + length zs \<le> length xs"
    and "off + length ys \<le> o' \<or> o' + length zs \<le> off"
  shows "put_at (put_at xs off ys) o' zs = put_at (put_at xs o' zs) off ys"
  using assms by (intro nth_equalityI) (auto simp: nth_put_at)

lemma list_update_put_at: "i < length xs \<Longrightarrow> xs[i := x] = put_at xs i [x]"
  by (simp add: put_at_def upd_conv_take_nth_drop)

section \<open>Searching\<close>

lemma find_SomeD: "find P xs = Some x \<Longrightarrow> x \<in> set xs \<and> P x"
  by (induction xs) (auto split: if_splits)

lemma find_NoneD: "find P xs = None \<Longrightarrow> x \<in> set xs \<Longrightarrow> \<not> P x"
  by (simp add: find_None_iff)

lemma find_unique:
  assumes "x \<in> set xs" "P x" "\<And>y. y \<in> set xs \<Longrightarrow> P y \<Longrightarrow> y = x"
  shows "find P xs = Some x"
proof (cases "find P xs")
  case None
  then show ?thesis using find_NoneD [OF None assms(1)] assms(2) by simp
next
  case (Some y)
  then show ?thesis using find_SomeD [OF Some] assms(3) [of y] by simp
qed

lemma find_ex: "x \<in> set xs \<Longrightarrow> P x \<Longrightarrow> \<exists>y. find P xs = Some y \<and> y \<in> set xs \<and> P y"
  by (induction xs) auto

section \<open>Little-endian integers\<close>

definition le16 :: "u16 \<Rightarrow> byte list" where
  "le16 w = [ucast w, ucast (drop_bit 8 w)]"

fun un_le16 :: "byte list \<Rightarrow> u16" where
  "un_le16 (a # b # _) = ucast a OR push_bit 8 (ucast b)"
| "un_le16 _ = 0"

definition le32 :: "u32 \<Rightarrow> byte list" where
  "le32 w = [ucast w, ucast (drop_bit 8 w), ucast (drop_bit 16 w), ucast (drop_bit 24 w)]"

fun un_le32 :: "byte list \<Rightarrow> u32" where
  "un_le32 (a # b # c # d # _) =
     ucast a OR push_bit 8 (ucast b) OR push_bit 16 (ucast c) OR push_bit 24 (ucast d)"
| "un_le32 _ = 0"

lemma length_le16 [simp]: "length (le16 w) = 2"
  by (simp add: le16_def)

lemma length_le32 [simp]: "length (le32 w) = 4"
  by (simp add: le32_def)

lemma un_le16_le16 [simp]: "un_le16 (le16 w @ bs) = w"
  by (auto simp: le16_def bit_eq_iff bit_simps)

lemma un_le32_le32 [simp]: "un_le32 (le32 w @ bs) = w"
proof (rule bit_word_eqI)
  fix n assume "n < LENGTH(32)"
  then consider "n < 8" | "8 \<le> n" "n < 16" | "16 \<le> n" "n < 24" | "24 \<le> n" "n < 32"
    by force
  then show "bit (un_le32 (le32 w @ bs)) n \<longleftrightarrow> bit w n"
    by cases (auto simp: le32_def bit_simps)
qed

lemma un_le16_le16' [simp]: "un_le16 (le16 w) = w"
  using un_le16_le16 [of w "[]"] by simp

lemma un_le32_le32' [simp]: "un_le32 (le32 w) = w"
  using un_le32_le32 [of w "[]"] by simp

lemma le32_un_le32:
  assumes "length bs = 4"
  shows "le32 (un_le32 bs) = bs"
proof -
  from assms obtain a b c d where "bs = [a, b, c, d]"
    by (auto simp: eval_nat_numeral length_Suc_conv)
  then show ?thesis
    by (auto simp: le32_def bit_eq_iff bit_simps dest: bit_imp_le_length)
qed

lemma un_le32_take4: "4 \<le> n \<Longrightarrow> un_le32 (take n bs) = un_le32 bs"
proof (cases bs rule: un_le32.cases)
  case (1 a b c d xs)
  assume "4 \<le> n"
  then obtain m where "n = Suc (Suc (Suc (Suc m)))"
    by (auto simp: eval_nat_numeral dest!: le_Suc_ex)
  with 1 show ?thesis by simp
qed auto

text \<open>The integer at an offset.\<close>

definition word_at :: "byte list \<Rightarrow> nat \<Rightarrow> u32" where
  "word_at bs off = un_le32 (get_at bs off 4)"

lemma length_concat_le32 [simp]: "length (concat (map le32 ws)) = 4 * length ws"
  by (induction ws) auto

lemma word_at_concat_le32:
  "i < length ws \<Longrightarrow> word_at (concat (map le32 ws) @ bs) (4 * i) = ws ! i"
proof (induction ws arbitrary: i)
  case (Cons w ws)
  then show ?case
    by (cases i) (auto simp: word_at_def get_at_def un_le32_take4)
qed simp

lemma word_at_skip: "word_at (as @ bs) (length as + k) = word_at bs k"
  by (simp add: word_at_def get_at_def)

text \<open>An array of integers at an offset.\<close>

definition words_at :: "byte list \<Rightarrow> nat \<Rightarrow> nat \<Rightarrow> u32 list" where
  "words_at bs off n = map (\<lambda>i. word_at bs (off + 4 * i)) [0..<n]"

lemma length_words_at [simp]: "length (words_at bs off n) = n"
  by (simp add: words_at_def)

lemma words_at_put_at:
  assumes "off + 4 * length ws \<le> length d"
  shows "words_at (put_at d off (concat (map le32 ws))) off (length ws) = ws"
proof (rule nth_equalityI)
  fix i assume "i < length (words_at (put_at d off (concat (map le32 ws))) off (length ws))"
  then have i: "i < length ws" by simp
  have "get_at (put_at d off (concat (map le32 ws))) (off + 4 * i) 4 = get_at (concat (map le32 ws)) (4 * i) 4"
    using assms i by (subst get_put_inside) auto
  with i show "words_at (put_at d off (concat (map le32 ws))) off (length ws) ! i = ws ! i"
    using word_at_concat_le32 [OF i, of "[]"] by (simp add: words_at_def word_at_def)
qed simp

lemma word_at_put_same: "off + 4 \<le> length d \<Longrightarrow> word_at (put_at d off (le32 w)) off = w"
  by (simp add: word_at_def get_put_same)

lemma word_at_put_other:
  "o' + length bs \<le> length d \<Longrightarrow> off + 4 \<le> o' \<or> o' + length bs \<le> off \<Longrightarrow> word_at (put_at d o' bs) off = word_at d off"
  by (simp add: word_at_def get_put_disjoint)

section \<open>Signed division\<close>

text \<open>The C operators \<^verbatim>\<open>/\<close> and \<^verbatim>\<open>%\<close> on signed integers round towards zero.\<close>

definition cdiv :: "int \<Rightarrow> int \<Rightarrow> int" where
  "cdiv a b = sgn a * sgn b * (\<bar>a\<bar> div \<bar>b\<bar>)"

definition cmod :: "int \<Rightarrow> int \<Rightarrow> int" where
  "cmod a b = a - cdiv a b * b"

lemma cdiv_nonneg: "0 \<le> a \<Longrightarrow> 0 < b \<Longrightarrow> cdiv a b = a div b"
  by (cases "a = 0") (auto simp: cdiv_def)

lemma cmod_nonneg: "0 \<le> a \<Longrightarrow> 0 < b \<Longrightarrow> cmod a b = a mod b"
  by (simp add: cmod_def cdiv_nonneg minus_div_mult_eq_mod)

section \<open>Words as numbers\<close>

lemma unat_bound: "unat (w :: u32) < 2 ^ 32"
  using unsigned_less [of w] by simp

lemma sint_eq_unat: "unat (a :: u32) < 2 ^ 31 \<Longrightarrow> sint a = int (unat a)"
proof -
  assume "unat a < 2 ^ 31"
  then have "int (unat a) < int (2 ^ 31)" by (simp only: of_nat_less_iff)
  then have "uint a < 2 ^ 31" by (simp only: uint_nat of_nat_power of_nat_numeral)
  then have "sint a = uint a"
    unfolding sint_uint by (intro signed_take_bit_int_eq_self) (auto intro: order_trans [OF _ uint_ge_0])
  then show ?thesis by (simp only: uint_nat)
qed

lemma unat_of_sint: "0 \<le> sint (a :: u32) \<Longrightarrow> int (unat a) = sint a"
proof -
  assume "0 \<le> sint a"
  moreover have "sint a < 2 ^ 31" using sint_lt [of a] by simp
  then have "sint a < 2 ^ 32" by simp
  ultimately have "take_bit 32 (sint a) = sint a" by (rule take_bit_int_eq_self)
  then show ?thesis using uint_sint [of a] by simp
qed

lemma sint_nonneg_word: "unat (a :: u32) < 2 ^ 31 \<Longrightarrow> \<not> sint a < 0"
  by (simp only: sint_eq_unat)

lemma unat_succ: "unat (n :: u32) + 1 < 2 ^ 32 \<Longrightarrow> unat (n + 1) = Suc (unat n)"
  by (simp add: unat_word_ariths)

lemma small_not_minus_1: "unat (w :: u32) < 2 ^ 31 \<Longrightarrow> w \<noteq> -1"
  by (auto simp: unsigned_minus_1_eq_mask mask_eq_exp_minus_1)

end
