(* ===== verification/ParallelSort.thy ===== *)
theory ParallelSort
  imports Prelude
begin

text \<open>
  The sorting program of \<^verbatim>\<open>src/parallel-sort\<close>: \<^verbatim>\<open>mergesort.c\<close> (bubble sort, insertion sort, the
  serial merge sort, the threaded merge sort with its parallel merge and parallel copy) and
  \<^verbatim>\<open>main.c\<close>. An array of \<^verbatim>\<open>Elem\<close> is a list; a C index is an \<open>int\<close> where the code lets it go
  below zero and a \<open>nat\<close> elsewhere. Arrays have fewer than \<open>2 ^ 31\<close> elements, so index arithmetic
  does not overflow; the comparison of two keys can, and is written at its width.

  A call of \<^verbatim>\<open>pthread_create\<close> followed by \<^verbatim>\<open>pthread_join\<close> runs two jobs that write disjoint parts of
  one array. Here a job runs as a whole, and which one runs first is a parameter (\<open>schedule\<close>). Theory
  \<open>ParallelSort_Interleavings\<close> has the single accesses of the threads and shows that every
  interleaving of them gives the same array.
\<close>

section \<open>Elements\<close>

definition ELEM_MAX_LEN :: nat where
  "ELEM_MAX_LEN = 100"

definition MIN_THREAD_ELEM :: int where
  "MIN_THREAD_ELEM = 16"

datatype elem = Elem (carr: "byte list")

definition elem_i :: "elem \<Rightarrow> u32" where
  "elem_i e = un_le32 (carr e)"

definition key :: "elem \<Rightarrow> int" where
  "key e = sint (elem_i e)"

text \<open>The subtraction of two \<^verbatim>\<open>int\<close> values, at 32 bits.\<close>

definition compare_elem :: "elem \<Rightarrow> elem \<Rightarrow> int" where
  "compare_elem a b = sint (elem_i a - elem_i b)"

text \<open>\<^verbatim>\<open>memcpy\<close> of \<^verbatim>\<open>ELEM_MAX_LEN\<close> bytes, which is the size of the union: the whole element.\<close>

definition copy_elem :: "elem list \<Rightarrow> nat \<Rightarrow> elem \<Rightarrow> elem list" where
  "copy_elem dst i src = dst[i := src]"

record copy_args =
  ca_dest :: nat
  ca_src :: nat
  ca_n :: nat

record schedule =
  n_proc :: nat
  copy_order :: "nat list"
  sort_spawned_first :: "int \<Rightarrow> int \<Rightarrow> bool"
  merge_spawned_first :: "int \<Rightarrow> int \<Rightarrow> int \<Rightarrow> int \<Rightarrow> bool"
  junk :: elem

section \<open>Copying\<close>

function copy_loop :: "elem list \<Rightarrow> elem list \<Rightarrow> copy_args \<Rightarrow> nat \<Rightarrow> elem list" where
  "copy_loop dst src args i =
     (if i < ca_n args
      then copy_loop (copy_elem dst (ca_dest args + i) (src ! (ca_src args + i))) src args (Suc i)
      else dst)"
  by pat_completeness auto
termination
  by (relation "measure (\<lambda>(dst, src, args, i). ca_n args - i)") auto

declare copy_loop.simps [simp del]

definition copy_arr_serial :: "elem list \<Rightarrow> elem list \<Rightarrow> copy_args \<Rightarrow> elem list" where
  "copy_arr_serial dst src args = copy_loop dst src args 0"

text \<open>Job \<open>i\<close> of the parallel copy: the last one is run by the calling thread itself.\<close>

definition copy_job :: "nat \<Rightarrow> nat \<Rightarrow> nat \<Rightarrow> nat \<Rightarrow> copy_args" where
  "copy_job np off n i =
     (let chunk_size = n div np in
      if i < np - 1
      then \<lparr>ca_dest = off + i * chunk_size, ca_src = i * chunk_size, ca_n = chunk_size\<rparr>
      else \<lparr>ca_dest = off + (np - 1) * chunk_size, ca_src = (np - 1) * chunk_size,
            ca_n = n - chunk_size * (np - 1)\<rparr>)"

definition copy_arr_parallel :: "schedule \<Rightarrow> elem list \<Rightarrow> nat \<Rightarrow> elem list \<Rightarrow> nat \<Rightarrow> elem list" where
  "copy_arr_parallel sc dst off src n =
     fold (\<lambda>i d. copy_arr_serial d src (copy_job (n_proc sc) off n i)) (copy_order sc) dst"

section \<open>The quadratic sorts\<close>

text \<open>The \<^verbatim>\<open>while\<close> loop of \<^verbatim>\<open>insertion_sort\<close>; the last argument is \<open>j + 1\<close>.\<close>

fun insertion_inner :: "elem list \<Rightarrow> nat \<Rightarrow> elem \<Rightarrow> nat \<Rightarrow> elem list" where
  "insertion_inner arr b temp 0 = copy_elem arr b temp"
| "insertion_inner arr b temp (Suc j) =
     (if compare_elem (arr ! (b + j)) temp > 0
      then insertion_inner (copy_elem arr (b + Suc j) (arr ! (b + j))) b temp j
      else copy_elem arr (b + Suc j) temp)"

function insertion_outer :: "elem list \<Rightarrow> nat \<Rightarrow> nat \<Rightarrow> nat \<Rightarrow> elem list" where
  "insertion_outer arr b i n =
     (if i < n then insertion_outer (insertion_inner arr b (arr ! (b + i)) i) b (Suc i) n else arr)"
  by pat_completeness auto
termination
  by (relation "measure (\<lambda>(arr, b, i, n). n - i)") auto

declare insertion_outer.simps [simp del]

definition insertion_sort :: "elem list \<Rightarrow> nat \<Rightarrow> int \<Rightarrow> elem list" where
  "insertion_sort arr b n = insertion_outer arr b 1 (nat n)"

function bubble_inner :: "elem list \<Rightarrow> nat \<Rightarrow> nat \<Rightarrow> elem list" where
  "bubble_inner arr i lim =
     (if i < lim
      then bubble_inner
             (if compare_elem (arr ! i) (arr ! Suc i) > 0
              then (let temp = arr ! i in copy_elem (copy_elem arr i (arr ! Suc i)) (Suc i) temp)
              else arr) (Suc i) lim
      else arr)"
  by pat_completeness auto
termination
  by (relation "measure (\<lambda>(arr, i, lim). lim - i)") auto

declare bubble_inner.simps [simp del]

function bubble_outer :: "elem list \<Rightarrow> nat \<Rightarrow> nat \<Rightarrow> elem list" where
  "bubble_outer arr j n =
     (if j < n - 1 then bubble_outer (bubble_inner arr 0 (n - j - 1)) (Suc j) n else arr)"
  by pat_completeness auto
termination
  by (relation "measure (\<lambda>(arr, j, n). n - j)") auto

declare bubble_outer.simps [simp del]

definition bubble_sort_elem :: "elem list \<Rightarrow> nat \<Rightarrow> elem list" where
  "bubble_sort_elem arr n = bubble_outer arr 0 n"

section \<open>Merging\<close>

text \<open>
  The three loops shared by \<^verbatim>\<open>merge_serial\<close> and \<^verbatim>\<open>merge_serial_2\<close>. They read the two runs through
  \<open>f1\<close> and \<open>f2\<close> (the copies \<^verbatim>\<open>L\<close> and \<^verbatim>\<open>R\<close> in the first, the array itself in the second).
\<close>

function merge_main ::
  "(nat \<Rightarrow> elem) \<Rightarrow> nat \<Rightarrow> (nat \<Rightarrow> elem) \<Rightarrow> nat \<Rightarrow> elem list \<Rightarrow> nat \<Rightarrow> nat \<Rightarrow> nat
     \<Rightarrow> elem list \<times> nat \<times> nat \<times> nat" where
  "merge_main f1 n1 f2 n2 dst i j k =
     (if i < n1 \<and> j < n2
      then (if compare_elem (f1 i) (f2 j) \<le> 0
            then merge_main f1 n1 f2 n2 (copy_elem dst k (f1 i)) (Suc i) j (Suc k)
            else merge_main f1 n1 f2 n2 (copy_elem dst k (f2 j)) i (Suc j) (Suc k))
      else (dst, i, j, k))"
  by pat_completeness auto
termination
  by (relation "measure (\<lambda>(f1, n1, f2, n2, dst, i, j, k). (n1 - i) + (n2 - j))") auto

declare merge_main.simps [simp del]

function copy_rest ::
  "(nat \<Rightarrow> elem) \<Rightarrow> nat \<Rightarrow> elem list \<Rightarrow> nat \<Rightarrow> nat \<Rightarrow> elem list \<times> nat" where
  "copy_rest f n dst i k =
     (if i < n then copy_rest f n (copy_elem dst k (f i)) (Suc i) (Suc k) else (dst, k))"
  by pat_completeness auto
termination
  by (relation "measure (\<lambda>(f, n, dst, i, k). n - i)") auto

declare copy_rest.simps [simp del]

definition merge_loops ::
  "(nat \<Rightarrow> elem) \<Rightarrow> nat \<Rightarrow> (nat \<Rightarrow> elem) \<Rightarrow> nat \<Rightarrow> elem list \<Rightarrow> nat \<Rightarrow> elem list" where
  "merge_loops f1 n1 f2 n2 dst k =
     (let (dst1, i, j, k1) = merge_main f1 n1 f2 n2 dst 0 0 k;
          (dst2, k2) = copy_rest f1 n1 dst1 i k1
      in fst (copy_rest f2 n2 dst2 j k2))"

definition merge_serial :: "elem list \<Rightarrow> int \<Rightarrow> int \<Rightarrow> int \<Rightarrow> elem list" where
  "merge_serial arr p q r =
     (let n1 = nat (q - p + 1); n2 = nat (r - q);
          L = map (\<lambda>i. arr ! nat (p + int i)) [0..<n1];
          R = map (\<lambda>j. arr ! nat (q + 1 + int j)) [0..<n2]
      in merge_loops (\<lambda>i. L ! i) n1 (\<lambda>j. R ! j) n2 arr (nat p))"

definition merge_serial_2 ::
  "elem list \<Rightarrow> int \<Rightarrow> int \<Rightarrow> int \<Rightarrow> int \<Rightarrow> elem list \<Rightarrow> int \<Rightarrow> elem list" where
  "merge_serial_2 arr l1 r1 l2 r2 B start =
     (let n1 = nat (r1 - l1 + 1); n2 = nat (r2 - l2 + 1)
      in merge_loops (\<lambda>i. arr ! nat (l1 + int i)) n1 (\<lambda>j. arr ! nat (l2 + int j)) n2 B (nat start))"

function split_loop :: "elem list \<Rightarrow> int \<Rightarrow> int \<Rightarrow> elem \<Rightarrow> int" where
  "split_loop arr low high p =
     (if low < high
      then (let mid = low + (high - low) div 2 in
            if compare_elem p (arr ! nat mid) \<le> 0 then split_loop arr low mid p
            else split_loop arr (mid + 1) high p)
      else low)"
  by pat_completeness auto
termination
  by (relation "measure (\<lambda>(arr, low, high, p). nat (high - low))") (auto simp: Let_def)

definition find_split_point :: "elem list \<Rightarrow> int \<Rightarrow> int \<Rightarrow> elem \<Rightarrow> int" where
  "find_split_point arr l r p = split_loop arr l r p"

declare split_loop.simps [simp del]

lemma split_loop_bounds: "low \<le> split_loop arr low high p \<and> split_loop arr low high p \<le> max low high"
proof (induction arr low high p rule: split_loop.induct)
  case (1 arr low high p)
  let ?mid = "low + (high - low) div 2"
  show ?case
  proof (cases "low < high")
    case True
    then have "low \<le> ?mid" "?mid < high" by auto
    with True 1 show ?thesis
      by (auto simp: split_loop.simps [of arr low high p] Let_def)
  next
    case False
    then show ?thesis by (simp add: split_loop.simps)
  qed
qed

lemmas find_split_point_bounds = split_loop_bounds [folded find_split_point_def]

lemma merge_parallel_sizes:
  fixes l1 r1 l2 r2 :: int
  assumes "\<not> r1 - l1 + 1 \<le> MIN_THREAD_ELEM"
    and "swap = (r2 - l2 < r1 - l1)"
    and "m1 = (if swap then l2 else l1)" "q1 = (if swap then r2 else r1)"
    and "m2 = (if swap then l1 else l2)" "q2 = (if swap then r1 else r2)"
    and "pi = m2 + (q2 - m2) div 2" and "s = find_split_point arr m1 q1 pivot"
  shows "nat (q1 - s + 1) + nat (q2 - (pi + 1) + 1) < nat (r1 - l1 + 1) + nat (r2 - l2 + 1)"
    and "nat (s - 1 - m1 + 1) + nat (pi - 1 - m2 + 1) < nat (r1 - l1 + 1) + nat (r2 - l2 + 1)"
proof -
  have "m1 \<le> s" "s \<le> max m1 q1"
    using find_split_point_bounds [of m1 arr q1 pivot] assms by auto
  moreover have "m2 \<le> pi" "pi \<le> q2"
    using assms by (auto simp: MIN_THREAD_ELEM_def)
  moreover have "nat (q1 - m1 + 1) + nat (q2 - m2 + 1) = nat (r1 - l1 + 1) + nat (r2 - l2 + 1)"
    using assms by auto
  ultimately show "nat (q1 - s + 1) + nat (q2 - (pi + 1) + 1) < nat (r1 - l1 + 1) + nat (r2 - l2 + 1)"
    and "nat (s - 1 - m1 + 1) + nat (pi - 1 - m2 + 1) < nat (r1 - l1 + 1) + nat (r2 - l2 + 1)"
    by linarith+
qed

function merge_parallel_aux ::
  "schedule \<Rightarrow> elem list \<Rightarrow> int \<Rightarrow> int \<Rightarrow> int \<Rightarrow> int \<Rightarrow> elem list \<Rightarrow> int \<Rightarrow> elem list" where
  "merge_parallel_aux sc arr l1 r1 l2 r2 B start =
     (if r1 - l1 + 1 \<le> MIN_THREAD_ELEM then merge_serial_2 arr l1 r1 l2 r2 B start
      else if l1 > r1 \<and> l2 > r2 then B
      else
        (let swap = (r2 - l2 < r1 - l1);
             m1 = (if swap then l2 else l1); q1 = (if swap then r2 else r1);
             m2 = (if swap then l1 else l2); q2 = (if swap then r1 else r2);
             pi = m2 + (q2 - m2) div 2;
             pivot = arr ! nat pi;
             s = find_split_point arr m1 q1 pivot;
             at = start + (s - m1) + (pi - m2);
             B' = copy_elem B (nat at) pivot
         in if merge_spawned_first sc m1 q1 m2 q2
            then merge_parallel_aux sc arr m1 (s - 1) m2 (pi - 1)
                   (merge_parallel_aux sc arr s q1 (pi + 1) q2 B' (at + 1)) start
            else merge_parallel_aux sc arr s q1 (pi + 1) q2
                   (merge_parallel_aux sc arr m1 (s - 1) m2 (pi - 1) B' start) (at + 1)))"
  by pat_completeness auto
termination
  by (relation "measure (\<lambda>(sc, arr, l1, r1, l2, r2, B, start). nat (r1 - l1 + 1) + nat (r2 - l2 + 1))")
    (auto simp only: in_measure prod.case intro: merge_parallel_sizes wf_measure)

declare merge_parallel_aux.simps [simp del]

definition merge_parallel :: "schedule \<Rightarrow> elem list \<Rightarrow> int \<Rightarrow> int \<Rightarrow> int \<Rightarrow> elem list" where
  "merge_parallel sc arr l m r =
     (let B = replicate (nat (r - l + 1)) (junk sc);
          B1 = merge_parallel_aux sc arr l m (m + 1) r B 0
      in copy_arr_parallel sc arr (nat l) B1 (nat (r - l + 1)))"

section \<open>The merge sorts\<close>

function merge_sort_threaded :: "schedule \<Rightarrow> elem list \<Rightarrow> int \<Rightarrow> int \<Rightarrow> elem list" where
  "merge_sort_threaded sc arr l r =
     (if r - l + 1 \<le> MIN_THREAD_ELEM then insertion_sort arr (nat l) (r - l + 1)
      else if l < r
      then (let m = l + (r - l) div 2 in
            if sort_spawned_first sc l r
            then merge_parallel sc (merge_sort_threaded sc (merge_sort_threaded sc arr (m + 1) r) l m) l m r
            else merge_parallel sc (merge_sort_threaded sc (merge_sort_threaded sc arr l m) (m + 1) r) l m r)
      else arr)"
  by pat_completeness auto
termination
  by (relation "measure (\<lambda>(sc, arr, l, r). nat (r - l))")
    (auto simp: MIN_THREAD_ELEM_def simp del: nat_diff_distrib)

declare merge_sort_threaded.simps [simp del]

definition merge_sort_parallel :: "schedule \<Rightarrow> elem list \<Rightarrow> int \<Rightarrow> int \<Rightarrow> elem list" where
  "merge_sort_parallel sc arr l r = merge_sort_threaded sc arr l r"

function merge_sort_serial :: "elem list \<Rightarrow> int \<Rightarrow> int \<Rightarrow> elem list" where
  "merge_sort_serial arr l r =
     (if l < r
      then (let m = l + (r - l) div 2 in
            merge_serial (merge_sort_serial (merge_sort_serial arr l m) (m + 1) r) l m r)
      else arr)"
  by pat_completeness auto
termination
  by (relation "measure (\<lambda>(arr, l, r). nat (r - l))") auto

declare merge_sort_serial.simps [simp del]

section \<open>The program\<close>

definition elems_of :: "byte list \<Rightarrow> nat \<Rightarrow> elem list" where
  "elems_of buf n = map (\<lambda>i. Elem (get_at buf (i * ELEM_MAX_LEN) ELEM_MAX_LEN)) [0..<n]"

definition bytes_of :: "elem list \<Rightarrow> byte list" where
  "bytes_of es = concat (map carr es)"

datatype SortAlgo = BUBBLE_SORT | MERGE_SORT_SERIAL | MERGE_SORT_PARALLEL

definition algo_of :: "int \<Rightarrow> SortAlgo option" where
  "algo_of c = (if c = 1 then Some BUBBLE_SORT else if c = 2 then Some MERGE_SORT_SERIAL
                else if c = 3 then Some MERGE_SORT_PARALLEL else None)"

text \<open>
  What the system calls of \<^verbatim>\<open>main\<close> return: whether the input can be accessed, whether the two files can be opened,
  whether the input can be mapped, and how many bytes one call of \<^verbatim>\<open>write\<close> stores of the bytes it is given.
\<close>

record sort_env =
  access_ok :: bool
  open_in_ok :: bool
  open_out_ok :: bool
  mmap_ok :: bool
  written :: "nat \<Rightarrow> nat"

text \<open>
  \<open>sort_main\<close> is \<^verbatim>\<open>main\<close>: the checks of the arguments and of the two files, the mapping of the input
  file, the chosen sort, and the bytes in the output file (\<open>None\<close> on the error exits). The number of elements is
  an \<^verbatim>\<open>unsigned int\<close>, which the sorts take as an \<^verbatim>\<open>int\<close>. The results of \<^verbatim>\<open>mmap\<close> and \<^verbatim>\<open>write\<close> are not looked at: without a
  mapping, a sort of two elements or more faults and \<^verbatim>\<open>write\<close> stores nothing.
\<close>

definition sort_main :: "schedule \<Rightarrow> sort_env \<Rightarrow> nat \<Rightarrow> int \<Rightarrow> byte list \<Rightarrow> byte list option outcome" where
  "sort_main sc env argc algo file =
     (if argc \<noteq> 4 \<or> \<not> access_ok env then Ok None
      else if \<not> open_in_ok env then Ok None
      else if \<not> open_out_ok env then Ok None
      else
        (let file_size = length file;
             len = file_size div ELEM_MAX_LEN;
             n = (of_nat len :: u32);
             buf = elems_of file len;
             sorted = (case algo_of algo of
                         Some BUBBLE_SORT \<Rightarrow> bubble_sort_elem buf (nat (sint n))
                       | Some MERGE_SORT_SERIAL \<Rightarrow> merge_sort_serial buf 0 (sint (n - 1))
                       | Some MERGE_SORT_PARALLEL \<Rightarrow> merge_sort_parallel sc buf 0 (sint (n - 1))
                       | None \<Rightarrow> buf)
         in if \<not> mmap_ok env
            then if algo_of algo \<noteq> None \<and> 1 < sint n then Fault ''MAP_FAILED'' else Ok (Some [])
            else Ok (Some (take (written env file_size) (bytes_of sorted @ drop (len * ELEM_MAX_LEN) file)))))"

section \<open>Keys and comparisons\<close>

text \<open>No two keys of the set are so far apart that their difference leaves the 32-bit range.\<close>

definition keys_ok :: "elem set \<Rightarrow> bool" where
  "keys_ok S \<longleftrightarrow> (\<forall>a\<in>S. \<forall>b\<in>S. key a - key b < 2 ^ 31)"

lemma keys_ok_subset: "keys_ok S \<Longrightarrow> T \<subseteq> S \<Longrightarrow> keys_ok T"
  by (auto simp: keys_ok_def)

lemma compare_elem_key:
  assumes "keys_ok S" "a \<in> S" "b \<in> S"
  shows "compare_elem a b = key a - key b"
proof -
  have "key a - key b < 2 ^ 31" "key b - key a < 2 ^ 31"
    using assms by (auto simp: keys_ok_def)
  then show ?thesis
    by (simp add: compare_elem_def key_def sint_word_ariths signed_take_bit_int_eq_self_iff)
qed

section \<open>The loops as list functions\<close>

fun merge_by :: "elem list \<Rightarrow> elem list \<Rightarrow> elem list" where
  "merge_by [] ys = ys"
| "merge_by xs [] = xs"
| "merge_by (x # xs) (y # ys) =
     (if compare_elem x y \<le> 0 then x # merge_by xs (y # ys) else y # merge_by (x # xs) ys)"

lemma merge_by_Nil2 [simp]: "merge_by xs [] = xs"
  by (cases xs) auto

lemma mset_merge_by: "mset (merge_by xs ys) = mset xs + mset ys"
  by (induction xs ys rule: merge_by.induct) auto

lemma length_merge_by [simp]: "length (merge_by xs ys) = length xs + length ys"
  by (induction xs ys rule: merge_by.induct) auto

lemma put_at_Cons:
  "k < length dst \<Longrightarrow> put_at (dst[k := x]) (Suc k) ys = put_at dst k (x # ys)"
  by (simp add: put_at_def take_Suc_conv_app_nth)

lemma copy_rest_put_at:
  "i \<le> n \<Longrightarrow> k + (n - i) \<le> length dst \<Longrightarrow>
   copy_rest f n dst i k = (put_at dst k (map f [i..<n]), k + (n - i))"
proof (induction f n dst i k rule: copy_rest.induct)
  case (1 f n dst i k)
  show ?case
  proof (cases "i < n")
    case True
    with 1 have "copy_rest f n (dst[k := f i]) (Suc i) (Suc k)
        = (put_at (dst[k := f i]) (Suc k) (map f [Suc i..<n]), Suc k + (n - Suc i))"
      by (simp add: copy_elem_def)
    with True 1(3) show ?thesis
      by (simp add: copy_rest.simps [of f n dst i k] copy_elem_def put_at_Cons upt_conv_Cons)
  next
    case False
    with 1 show ?thesis by (simp add: copy_rest.simps)
  qed
qed

lemma merge_main_put_at:
  "i \<le> n1 \<Longrightarrow> j \<le> n2 \<Longrightarrow> k + (n1 - i) + (n2 - j) \<le> length dst \<Longrightarrow>
   (let (dst1, i', j', k1) = merge_main f1 n1 f2 n2 dst i j k;
        (dst2, k2) = copy_rest f1 n1 dst1 i' k1
    in fst (copy_rest f2 n2 dst2 j' k2))
   = put_at dst k (merge_by (map f1 [i..<n1]) (map f2 [j..<n2]))"
proof (induction f1 n1 f2 n2 dst i j k rule: merge_main.induct)
  case (1 f1 n1 f2 n2 dst i j k)
  show ?case
  proof (cases "i < n1 \<and> j < n2")
    case True
    then have k: "k < length dst" and
      len: "Suc k + (n1 - Suc i) + (n2 - j) \<le> length dst" "Suc k + (n1 - i) + (n2 - Suc j) \<le> length dst"
      using 1(5) by linarith+
    have upt: "[i..<n1] = i # [Suc i..<n1]" "[j..<n2] = j # [Suc j..<n2]"
      using True by (auto simp: upt_conv_Cons)
    show ?thesis
    proof (cases "compare_elem (f1 i) (f2 j) \<le> 0")
      case le: True
      note IH = 1(1) [OF True le]
      from IH True 1(3-5) k len show ?thesis
        by (simp add: merge_main.simps [of f1 n1 f2 n2 dst i j k] le copy_elem_def put_at_Cons upt
            del: upt_Suc)
    next
      case gt: False
      note IH = 1(2) [OF True gt]
      from IH True 1(3-5) k len gt show ?thesis
        by (simp add: merge_main.simps [of f1 n1 f2 n2 dst i j k] copy_elem_def put_at_Cons upt
            del: upt_Suc)
    qed
  next
    case False
    then have stop: "merge_main f1 n1 f2 n2 dst i j k = (dst, i, j, k)"
      by (subst merge_main.simps) auto
    show ?thesis
    proof (cases "i < n1")
      case True
      with False 1(4) have "j = n2" by simp
      with True 1(5) stop show ?thesis by (simp add: copy_rest_put_at)
    next
      case ge: False
      with 1(3) have "i = n1" by simp
      with 1(4,5) stop show ?thesis by (simp add: copy_rest_put_at)
    qed
  qed
qed

lemma merge_loops_put_at:
  "k + n1 + n2 \<le> length dst \<Longrightarrow>
   merge_loops f1 n1 f2 n2 dst k = put_at dst k (merge_by (map f1 [0..<n1]) (map f2 [0..<n2]))"
  using merge_main_put_at [of 0 n1 0 n2 k dst f1 f2] by (simp add: merge_loops_def)

lemma map_nth_get_at:
  "off + n \<le> length arr \<Longrightarrow> map (\<lambda>i. arr ! (off + i)) [0..<n] = get_at arr off n"
  by (intro nth_equalityI) (auto simp: nth_get_at)

lemma nat_add_int: "0 \<le> p \<Longrightarrow> nat (p + int i) = nat p + i"
  by (simp add: nat_add_distrib)

lemma merge_serial_put_at:
  assumes "0 \<le> p" "p \<le> q + 1" "q \<le> r" "r < int (length arr)"
  shows "merge_serial arr p q r =
    put_at arr (nat p) (merge_by (get_at arr (nat p) (nat (q - p + 1)))
                                 (get_at arr (nat (q + 1)) (nat (r - q))))"
proof -
  have b: "nat p + nat (q - p + 1) \<le> length arr" "nat (q + 1) + nat (r - q) \<le> length arr"
    "nat p + nat (q - p + 1) + nat (r - q) \<le> length arr"
    using assms by linarith+
  have "map (\<lambda>i. arr ! nat (p + int i)) [0..<nat (q - p + 1)] = get_at arr (nat p) (nat (q - p + 1))"
    "map (\<lambda>j. arr ! nat (q + 1 + int j)) [0..<nat (r - q)] = get_at arr (nat (q + 1)) (nat (r - q))"
    using assms b by (simp_all add: nat_add_int map_nth_get_at)
  moreover have "map ((!) (get_at arr o' n)) [0..<n] = get_at arr o' n" if "o' + n \<le> length arr" for o' n
    using that map_nth [of "get_at arr o' n"] by simp
  ultimately show ?thesis
    using b by (simp only: merge_serial_def Let_def merge_loops_put_at)
qed

lemma merge_serial_2_put_at:
  assumes "0 \<le> l1" "0 \<le> l2" "r1 < int (length arr)" "r2 < int (length arr)"
    and "nat start + nat (r1 - l1 + 1) + nat (r2 - l2 + 1) \<le> length B"
  shows "merge_serial_2 arr l1 r1 l2 r2 B start =
    put_at B (nat start) (merge_by (get_at arr (nat l1) (nat (r1 - l1 + 1)))
                                   (get_at arr (nat l2) (nat (r2 - l2 + 1))))"
proof -
  have run: "map (\<lambda>i. arr ! nat (l + int i)) [0..<nat (r - l + 1)] = get_at arr (nat l) (nat (r - l + 1))"
    if "0 \<le> l" "r < int (length arr)" for l r
  proof (cases "l \<le> r")
    case True
    then have "nat l + nat (r - l + 1) \<le> length arr"
      using that by linarith
    with that show ?thesis by (simp add: nat_add_int map_nth_get_at)
  qed simp
  show ?thesis
    using assms by (simp only: merge_serial_2_def Let_def merge_loops_put_at run)
qed

text \<open>What \<open>insertion_inner\<close> does to the run before the hole.\<close>

definition insert_back :: "elem \<Rightarrow> elem list \<Rightarrow> elem list" where
  "insert_back t xs =
     rev (dropWhile (\<lambda>x. compare_elem x t > 0) (rev xs)) @ t #
     rev (takeWhile (\<lambda>x. compare_elem x t > 0) (rev xs))"

lemma length_insert_back [simp]: "length (insert_back t xs) = Suc (length xs)"
proof -
  have "length (takeWhile P ys) + length (dropWhile P ys) = length ys" for P and ys :: "elem list"
    by (metis length_append takeWhile_dropWhile_id)
  then show ?thesis by (simp add: insert_back_def add.commute)
qed

lemma mset_insert_back: "mset (insert_back t xs) = add_mset t (mset xs)"
proof -
  have "mset (takeWhile P ys) + mset (dropWhile P ys) = mset ys" for P and ys :: "elem list"
    by (metis mset_append takeWhile_dropWhile_id)
  then show ?thesis by (simp add: insert_back_def add.commute)
qed

lemma insert_back_snoc:
  "insert_back t (xs @ [x]) =
     (if compare_elem x t > 0 then insert_back t xs @ [x] else xs @ [x, t])"
  by (simp add: insert_back_def)

lemma insert_back_all:
  assumes "\<forall>z\<in>set ys. compare_elem z t > 0"
  shows "insert_back t ys = t # ys"
proof -
  have "takeWhile (\<lambda>x. compare_elem x t > 0) (rev ys) = rev ys"
    "dropWhile (\<lambda>x. compare_elem x t > 0) (rev ys) = []"
    using assms by simp_all
  then show ?thesis
    by (simp only: insert_back_def rev_rev_ident rev.simps append_Nil)
qed

lemma insert_back_Cons:
  assumes "compare_elem y t \<le> 0"
  shows "insert_back t (y # ys) = y # insert_back t ys"
proof (cases "\<forall>z\<in>set ys. compare_elem z t > 0")
  case True
  with assms show ?thesis
    using insert_back_all [OF True] by (simp add: insert_back_def takeWhile_append dropWhile_append)
next
  case False
  then show ?thesis
    by (auto simp: insert_back_def takeWhile_append dropWhile_append)
qed

lemma insertion_inner_put_at:
  "b + h < length arr \<Longrightarrow> insertion_inner arr b t h = put_at arr b (insert_back t (get_at arr b h))"
proof (induction h arbitrary: arr)
  case 0
  then show ?case
    by (simp add: copy_elem_def insert_back_def list_update_put_at)
next
  case (Suc h)
  let ?x = "arr ! (b + h)"
  have run: "get_at arr b (Suc h) = get_at arr b h @ [?x]"
    using Suc.prems by (simp add: get_at_def take_Suc_conv_app_nth)
  have hole: "arr[b + Suc h := y] = put_at arr (b + Suc h) [y]" for y
    using Suc.prems by (simp add: list_update_put_at)
  show ?case
  proof (cases "compare_elem ?x t > 0")
    case True
    have "get_at (arr[b + Suc h := ?x]) b h = get_at arr b h"
      using Suc.prems unfolding hole by (intro get_put_disjoint) auto
    with True Suc have "insertion_inner arr b t (Suc h)
        = put_at (put_at arr (b + Suc h) [?x]) b (insert_back t (get_at arr b h))"
      using hole [of ?x] by (simp add: copy_elem_def)
    also have "\<dots> = put_at (put_at arr b (insert_back t (get_at arr b h))) (b + Suc h) [?x]"
      using Suc.prems by (intro put_at_commute) auto
    also have "\<dots> = put_at arr b (insert_back t (get_at arr b h) @ [?x])"
      using put_at_append [of b "insert_back t (get_at arr b h)" "[?x]" arr] Suc.prems by simp
    finally show ?thesis
      using True by (simp add: run insert_back_snoc)
  next
    case False
    have "put_at arr b ((get_at arr b h @ [?x]) @ [t]) = put_at arr (b + Suc h) [t]"
      using put_at_append [of b "get_at arr b h @ [?x]" "[t]" arr] Suc.prems
      by (simp flip: run)
    with False show ?thesis
      using hole [of t] by (simp add: run insert_back_snoc copy_elem_def)
  qed
qed

section \<open>Stable sorting\<close>

text \<open>
  \<^const>\<open>sort_key\<close> is the stable sort of the library, so an equation with it says that the result is
  sorted, is a permutation, and keeps the order of elements with equal keys.
\<close>

lemma stable_sort_unique:
  assumes "mset ys = mset xs" and "sorted (map key ys)"
    and "\<And>k. filter (\<lambda>x. key x = k) ys = filter (\<lambda>x. key x = k) xs"
  shows "ys = sort_key key xs"
proof -
  have "filter (\<lambda>x. key k = key x) ys = filter (\<lambda>x. key k = key x) xs" for k
    using assms(3) [of "key k"] by (simp add: eq_commute)
  then show ?thesis
    using properties_for_sort_key [of ys xs key] assms by simp
qed

lemma filter_sort_key: "filter (\<lambda>x. key x = k) (sort_key key xs) = filter (\<lambda>x. key x = k) xs"
  using sort_key_stable [of key k xs] by (simp add: eq_commute)

lemma sorted_merge_by:
  "keys_ok (set xs \<union> set ys) \<Longrightarrow> sorted (map key xs) \<Longrightarrow> sorted (map key ys) \<Longrightarrow>
   sorted (map key (merge_by xs ys)) \<and>
   (\<forall>k. filter (\<lambda>x. key x = k) (merge_by xs ys) =
        filter (\<lambda>x. key x = k) xs @ filter (\<lambda>x. key x = k) ys)"
proof (induction xs ys rule: merge_by.induct)
  case (3 x xs y ys)
  have cmp: "compare_elem x y = key x - key y"
    using compare_elem_key [OF 3(3)] by simp
  have set_m: "set (merge_by as bs) = set as \<union> set bs" for as bs
    using mset_merge_by [of as bs] by (metis set_mset_mset set_mset_union)
  show ?case
  proof (cases "key x \<le> key y")
    case True
    moreover have "keys_ok (set xs \<union> set (y # ys))"
      using 3(3) by (rule keys_ok_subset) auto
    ultimately show ?thesis
      using 3 cmp by (auto simp: set_m)
  next
    case False
    moreover have "keys_ok (set (x # xs) \<union> set ys)"
      using 3(3) by (rule keys_ok_subset) auto
    moreover have "filter (\<lambda>z. key z = key y) (x # xs) = []"
      using 3(4) False by (auto simp: filter_empty_conv)
    ultimately show ?thesis
      using 3 cmp by (auto simp: set_m)
  qed
qed auto

lemma merge_by_sort_key:
  assumes "keys_ok (set xs \<union> set ys)"
  shows "merge_by (sort_key key xs) (sort_key key ys) = sort_key key (xs @ ys)"
  using sorted_merge_by [of "sort_key key xs" "sort_key key ys"] assms
  by (intro stable_sort_unique) (auto simp: mset_merge_by filter_sort_key)

lemma insert_back_sort_key:
  assumes "keys_ok (insert t (set xs))"
  shows "insert_back t (sort_key key xs) = sort_key key (xs @ [t])"
proof -
  have "insert_back t ys = merge_by ys [t]"
    if "sorted (map key ys)" "keys_ok (insert t (set ys))" for ys
    using that
  proof (induction ys)
    case Nil
    then show ?case by (simp add: insert_back_def)
  next
    case (Cons y ys)
    have cmp: "compare_elem z t = key z - key t" if "z \<in> set (y # ys)" for z
      using compare_elem_key [OF Cons.prems(2), of z t] that by simp
    have IH: "insert_back t ys = merge_by ys [t]"
      using Cons keys_ok_subset [OF Cons.prems(2), of "insert t (set ys)"] by auto
    show ?case
    proof (cases "key y \<le> key t")
      case True
      then have "insert_back t (y # ys) = y # insert_back t ys"
        using cmp by (intro insert_back_Cons) simp
      with True IH cmp show ?thesis by simp
    next
      case False
      then have "\<forall>z\<in>set (y # ys). compare_elem z t > 0"
        using Cons.prems(1) cmp by auto
      with False cmp show ?thesis
        using insert_back_all [of "y # ys" t] by simp
    qed
  qed
  then show ?thesis
    using assms merge_by_sort_key [of xs "[t]"] by simp
qed

section \<open>Insertion sort and the serial merge sort\<close>

lemma put_at_over:
  "off + length zs \<le> length xs \<Longrightarrow> length ys \<le> length zs \<Longrightarrow>
   put_at (put_at xs off ys) off zs = put_at xs off zs"
  by (intro nth_equalityI) (auto simp: nth_put_at)

lemma get_at_Suc: "off + n < length xs \<Longrightarrow> get_at xs off (Suc n) = get_at xs off n @ [xs ! (off + n)]"
  by (simp add: get_at_def take_Suc_conv_app_nth)

lemma set_get_at_mono: "m \<le> n \<Longrightarrow> set (get_at xs off m) \<subseteq> set (get_at xs off n)"
  by (simp add: get_at_def set_take_subset_set_take)

lemma set_get_at_subset: "set (get_at xs off n) \<subseteq> set xs"
  unfolding get_at_def by (meson set_drop_subset set_take_subset subset_trans)

fun isort_back :: "elem list \<Rightarrow> elem list \<Rightarrow> elem list" where
  "isort_back ss [] = ss"
| "isort_back ss (x # xs) = isort_back (insert_back x ss) xs"

lemma mset_isort_back: "mset (isort_back ss xs) = mset ss + mset xs"
  by (induction ss xs rule: isort_back.induct) (auto simp: mset_insert_back)

lemma isort_back_sort_key:
  "keys_ok (set ys \<union> set xs) \<Longrightarrow> isort_back (sort_key key ys) xs = sort_key key (ys @ xs)"
proof (induction xs arbitrary: ys)
  case Nil
  then show ?case by simp
next
  case (Cons x xs)
  have "keys_ok (insert x (set ys))" "keys_ok (set (ys @ [x]) \<union> set xs)"
    using Cons.prems by (auto elim!: keys_ok_subset)
  with Cons.IH [of "ys @ [x]"] show ?case
    by (simp add: insert_back_sort_key)
qed

lemma insertion_outer_put_at:
  "i \<le> n \<Longrightarrow> b + n \<le> length arr \<Longrightarrow>
   insertion_outer arr b i n =
     put_at arr b (isort_back (get_at arr b i) (get_at arr (b + i) (n - i)))"
proof (induction arr b i n rule: insertion_outer.induct)
  case (1 arr b i n)
  show ?case
  proof (cases "i < n")
    case True
    let ?t = "arr ! (b + i)" and ?xs = "get_at arr b i"
    let ?A = "put_at arr b (insert_back ?t ?xs)"
    have lens: "length ?xs = i" "b + Suc i \<le> length arr"
      using True 1(3) by simp_all
    have inner: "insertion_inner arr b ?t i = ?A"
      using lens by (intro insertion_inner_put_at) simp
    have "get_at ?A b (Suc i) = insert_back ?t ?xs"
      using lens by (intro get_put_same) simp_all
    moreover have "get_at ?A (b + Suc i) (n - Suc i) = get_at arr (b + Suc i) (n - Suc i)"
      using lens by (intro get_put_disjoint) simp_all
    moreover have "insertion_outer ?A b (Suc i) n =
        put_at ?A b (isort_back (get_at ?A b (Suc i)) (get_at ?A (b + Suc i) (n - Suc i)))"
      using 1(1) [OF True] 1(3) True lens unfolding inner by simp
    moreover have run: "get_at arr (b + i) (n - i) = ?t # get_at arr (b + Suc i) (n - Suc i)"
      using True lens Cons_nth_drop_Suc [of "b + i" arr] Suc_diff_Suc [of i n]
      by (metis (no_types) add_Suc_right get_at_def less_eq_Suc_le take_Suc_Cons)
    moreover have "length (isort_back ss ys) = length ss + length ys" for ss ys
      by (metis mset_isort_back size_mset size_union)
    ultimately have "insertion_outer ?A b (Suc i) n
        = put_at arr b (isort_back (insert_back ?t ?xs) (get_at arr (b + Suc i) (n - Suc i)))"
      using True 1(3) by (simp add: put_at_over)
    then show ?thesis
      using True inner run by (simp add: insertion_outer.simps [of arr b i n])
  next
    case False
    then have "insertion_outer arr b i n = arr"
      by (subst insertion_outer.simps) simp
    with False 1(2,3) show ?thesis by simp
  qed
qed

lemma insertion_sort_put_at:
  assumes "b + nat n \<le> length arr"
  shows "insertion_sort arr b n = put_at arr b (isort_back [] (get_at arr b (nat n)))"
proof (cases "nat n = 0")
  case True
  then show ?thesis
    using assms by (simp add: insertion_sort_def insertion_outer.simps [of arr b "Suc 0"])
next
  case False
  then have "get_at arr b (nat n) = arr ! b # get_at arr (b + 1) (nat n - 1)"
    using assms by (cases "nat n") (auto simp: get_at_def simp flip: Cons_nth_drop_Suc)
  moreover have "get_at arr b 1 = [arr ! b]"
    using assms False get_at_Suc [of b 0 arr] by simp
  moreover have "insertion_outer arr b 1 (nat n) =
      put_at arr b (isort_back (get_at arr b 1) (get_at arr (b + 1) (nat n - 1)))"
    using assms False by (intro insertion_outer_put_at) auto
  ultimately show ?thesis
    by (simp add: insertion_sort_def insert_back_def)
qed

lemma merge_sort_serial_put_at:
  "0 \<le> l \<Longrightarrow> r < int (length arr) \<Longrightarrow> keys_ok (set (get_at arr (nat l) (nat (r - l + 1)))) \<Longrightarrow>
   merge_sort_serial arr l r = put_at arr (nat l) (sort_key key (get_at arr (nat l) (nat (r - l + 1))))"
proof (induction arr l r rule: merge_sort_serial.induct)
  case (1 arr l r)
  show ?case
  proof (cases "l < r")
    case True
    define m where "m = l + (r - l) div 2"
    define a n1 n2 where "a = nat l" and "n1 = nat (m - l + 1)" and "n2 = nat (r - m)"
    let ?xs = "get_at arr a n1" and ?ys = "get_at arr (a + n1) n2"
    have m: "l \<le> m" "m < r" using True by (auto simp: m_def)
    have nats: "nat (r - l + 1) = n1 + n2" "nat (m + 1) = a + n1" "nat (r - (m + 1) + 1) = n2"
      "a + n1 + n2 \<le> length arr"
      using m 1(3,4) by (auto simp: a_def n1_def n2_def)
    have lens: "length ?xs = n1" "length ?ys = n2" using nats by simp_all
    have keys: "keys_ok (set ?xs \<union> set ?ys)"
      using 1(5) by (simp add: nats get_at_append flip: a_def)
    let ?A = "put_at arr a (sort_key key ?xs)"
    have A: "merge_sort_serial arr l m = ?A"
      using 1(1) [OF True m_def] 1(3,4) m keys
      by (simp add: keys_ok_subset flip: a_def n1_def)
    have A_ys: "get_at ?A (a + n1) n2 = ?ys"
      using nats lens by (intro get_put_disjoint) auto
    have "merge_sort_serial ?A (m + 1) r = put_at ?A (a + n1) (sort_key key ?ys)"
      using 1(2) [OF True m_def] 1(3,4) m nats keys A_ys lens
      by (simp add: A keys_ok_subset)
    also have "\<dots> = put_at arr a (sort_key key ?xs @ sort_key key ?ys)"
      using put_at_append [of a "sort_key key ?xs" "sort_key key ?ys" arr] nats lens by simp
    finally have both: "merge_sort_serial (merge_sort_serial arr l m) (m + 1) r
        = put_at arr a (sort_key key ?xs @ sort_key key ?ys)" (is "_ = ?C")
      by (simp add: A)
    have "length ?C = length arr" using nats lens by simp
    then have "merge_serial ?C l m r = put_at ?C a (merge_by (get_at ?C a n1) (get_at ?C (a + n1) n2))"
      using merge_serial_put_at [of l m r ?C] 1(3,4) m nats by (simp add: a_def n1_def n2_def)
    also have "get_at ?C a n1 = sort_key key ?xs"
      using nats lens by (simp add: get_put_inside) (simp add: get_at_def)
    also have "get_at ?C (a + n1) n2 = sort_key key ?ys"
      using nats lens by (simp add: get_put_inside) (simp add: get_at_def)
    also have "merge_by (sort_key key ?xs) (sort_key key ?ys) = sort_key key (?xs @ ?ys)"
      using keys by (rule merge_by_sort_key)
    also have "put_at ?C a (sort_key key (?xs @ ?ys)) = put_at arr a (sort_key key (?xs @ ?ys))"
      using nats lens by (intro put_at_over) simp_all
    finally show ?thesis
      using True both
      by (simp add: merge_sort_serial.simps [of arr l r] m_def [symmetric] nats get_at_append
          flip: a_def)
  next
    case False
    then have "nat (r - l + 1) \<le> 1" by simp
    then have "length (get_at arr (nat l) (nat (r - l + 1))) \<le> 1" by simp
    then have "sort_key key (get_at arr (nat l) (nat (r - l + 1))) = get_at arr (nat l) (nat (r - l + 1))"
      by (cases "get_at arr (nat l) (nat (r - l + 1))") auto
    moreover have "put_at arr (nat l) (get_at arr (nat l) (nat (r - l + 1))) = arr"
      by simp
    ultimately show ?thesis
      using False by (simp add: merge_sort_serial.simps [of arr l r])
  qed
qed

end
