(* ===== verification/ParallelSort_Quadratic.thy ===== *)
theory ParallelSort_Quadratic
  imports ParallelSort
begin

text \<open>
  The two sorts of \<^verbatim>\<open>src/parallel-sort/mergesort.c\<close> that sort a whole array in place by comparing
  keys (bubble sort and the serial merge sort) meet one contract, \<open>stable_sorter\<close>. What \<^verbatim>\<open>main\<close> writes
  is derived from the contract once, and both sorts are interpretations of it.
\<close>

section \<open>Bubble sort\<close>

lemma swap_adjacent:
  assumes "Suc i < length arr"
  shows "arr = take i arr @ arr ! i # arr ! Suc i # drop (Suc (Suc i)) arr"
    and "arr[i := arr ! Suc i, Suc i := arr ! i] = take i arr @ arr ! Suc i # arr ! i # drop (Suc (Suc i)) arr"
proof -
  show 1: "arr = take i arr @ arr ! i # arr ! Suc i # drop (Suc (Suc i)) arr"
    using assms by (simp add: Cons_nth_drop_Suc)
  show "arr[i := arr ! Suc i, Suc i := arr ! i] = take i arr @ arr ! Suc i # arr ! i # drop (Suc (Suc i)) arr"
    using assms by (simp add: upd_conv_take_nth_drop take_Suc_conv_app_nth Cons_nth_drop_Suc)
qed

definition bubble_step :: "elem list \<Rightarrow> nat \<Rightarrow> elem list" where
  "bubble_step arr i =
     (if compare_elem (arr ! i) (arr ! Suc i) > 0 then arr[i := arr ! Suc i, Suc i := arr ! i] else arr)"

lemma bubble_inner_step:
  "i < lim \<Longrightarrow> bubble_inner arr i lim = bubble_inner (bubble_step arr i) (Suc i) lim"
  by (simp add: bubble_inner.simps [of arr i lim] bubble_step_def copy_elem_def Let_def)

lemma bubble_inner_stop: "\<not> i < lim \<Longrightarrow> bubble_inner arr i lim = arr"
  by (simp add: bubble_inner.simps [of arr i lim])

lemma length_bubble_step [simp]: "length (bubble_step arr i) = length arr"
  by (simp add: bubble_step_def)

lemma bubble_step_perm:
  assumes "Suc i < length arr"
  shows "mset (bubble_step arr i) = mset arr"
proof -
  have "mset (arr[i := arr ! Suc i, Suc i := arr ! i]) = mset arr"
    by (subst (3) swap_adjacent(1) [OF assms], subst swap_adjacent(2) [OF assms])
      (simp add: add_mset_commute)
  then show ?thesis by (simp add: bubble_step_def)
qed

lemma bubble_step_stable:
  assumes "Suc i < length arr" "keys_ok (set arr)"
  shows "filter (\<lambda>x. key x = k) (bubble_step arr i) = filter (\<lambda>x. key x = k) arr"
proof (cases "compare_elem (arr ! i) (arr ! Suc i) > 0")
  case True
  with assms have "key (arr ! Suc i) < key (arr ! i)"
    by (simp add: compare_elem_key [OF assms(2)])
  then have "filter (\<lambda>x. key x = k) (arr[i := arr ! Suc i, Suc i := arr ! i]) = filter (\<lambda>x. key x = k) arr"
    by (subst (3) swap_adjacent(1) [OF assms(1)], subst swap_adjacent(2) [OF assms(1)]) auto
  with True show ?thesis by (simp add: bubble_step_def)
qed (simp add: bubble_step_def)

text \<open>Adjacent positions after one step, and everything else unchanged.\<close>

lemma bubble_step_keys:
  assumes "Suc i < length arr" "keys_ok (set arr)"
  shows "key (bubble_step arr i ! i) = min (key (arr ! i)) (key (arr ! Suc i))"
    and "key (bubble_step arr i ! Suc i) = max (key (arr ! i)) (key (arr ! Suc i))"
    and "p \<noteq> i \<Longrightarrow> p \<noteq> Suc i \<Longrightarrow> bubble_step arr i ! p = arr ! p"
  using assms by (auto simp: bubble_step_def compare_elem_key [OF assms(2)] min_def max_def)

text \<open>What one pass of the inner loop up to \<open>lim\<close> achieves.\<close>

definition bubbled :: "nat \<Rightarrow> elem list \<Rightarrow> elem list \<Rightarrow> bool" where
  "bubbled lim arr arr' \<longleftrightarrow>
     mset arr' = mset arr \<and>
     (\<forall>k. filter (\<lambda>x. key x = k) arr' = filter (\<lambda>x. key x = k) arr) \<and>
     (\<forall>q. lim < q \<longrightarrow> arr' ! q = arr ! q) \<and>
     (\<forall>c. (\<forall>p\<le>lim. key (arr ! p) \<le> c) \<longrightarrow> (\<forall>p\<le>lim. key (arr' ! p) \<le> c))"

lemma bubbled_refl: "bubbled lim arr arr"
  by (simp add: bubbled_def)

lemma bubbled_trans: "bubbled lim a b \<Longrightarrow> bubbled lim b c \<Longrightarrow> bubbled lim a c"
  by (simp add: bubbled_def)

lemma bubbled_step:
  assumes "i < lim" "lim < length arr" "keys_ok (set arr)"
  shows "bubbled lim arr (bubble_step arr i)"
proof -
  have i: "Suc i < length arr" using assms by simp
  note keys = bubble_step_keys [OF i assms(3)]
  have "key (bubble_step arr i ! p) \<le> c" if "\<forall>p\<le>lim. key (arr ! p) \<le> c" "p \<le> lim" for c p
    using that keys assms(1) by (cases "p = i"; cases "p = Suc i") (auto simp: min_le_iff_disj)
  then show ?thesis
    using bubble_step_perm [OF i] bubble_step_stable [OF i assms(3)] keys(3) assms(1)
    by (auto simp: bubbled_def)
qed

lemma bubble_inner_bubbled:
  "i \<le> lim \<Longrightarrow> lim < length arr \<Longrightarrow> keys_ok (set arr) \<Longrightarrow> \<forall>p<i. key (arr ! p) \<le> key (arr ! i) \<Longrightarrow>
   bubbled lim arr (bubble_inner arr i lim) \<and>
   (\<forall>p\<le>lim. key (bubble_inner arr i lim ! p) \<le> key (bubble_inner arr i lim ! lim))"
proof (induction "lim - i" arbitrary: i arr)
  case 0
  then show ?case
    by (auto simp: bubble_inner_stop bubbled_refl le_less)
next
  case (Suc d)
  let ?A = "bubble_step arr i"
  have i: "i < lim" "Suc i < length arr" using Suc by auto
  have "set ?A = set arr"
    using bubble_step_perm [OF i(2)] by (metis set_mset_mset)
  moreover have "\<forall>p<Suc i. key (?A ! p) \<le> key (?A ! Suc i)"
    using bubble_step_keys [OF i(2) Suc.prems(3)] Suc.prems(4)
    by (auto simp: less_Suc_eq le_max_iff_disj)
  ultimately show ?case
    using Suc.hyps(1) [of "Suc i" ?A] Suc.hyps(2) Suc.prems(2,3) i
      bubbled_step [OF i(1) Suc.prems(2,3)]
    by (auto simp: bubble_inner_step intro: bubbled_trans)
qed

text \<open>After \<open>j\<close> passes the last \<open>j\<close> positions hold their final keys.\<close>

lemma bubble_outer_sorts:
  "j \<le> length arr \<Longrightarrow> keys_ok (set arr) \<Longrightarrow>
   \<forall>p q. p \<le> q \<longrightarrow> length arr - j \<le> q \<longrightarrow> q < length arr \<longrightarrow> key (arr ! p) \<le> key (arr ! q) \<Longrightarrow>
   bubble_outer arr j (length arr) = sort_key key arr"
proof (induction "length arr - j" arbitrary: j arr rule: less_induct)
  case less
  let ?n = "length arr"
  show ?case
  proof (cases "j < ?n - 1")
    case True
    let ?lim = "?n - j - 1" and ?B = "bubble_inner arr 0 (?n - j - 1)"
    have B: "bubbled ?lim arr ?B" "\<forall>p\<le>?lim. key (?B ! p) \<le> key (?B ! ?lim)"
      using bubble_inner_bubbled [of 0 ?lim arr] less.prems(2) True by auto
    then have same: "length ?B = ?n" "set ?B = set arr"
      by (metis bubbled_def size_mset, metis bubbled_def set_mset_mset)
    have "key (?B ! p) \<le> key (?B ! q)" if "p \<le> q" "?n - Suc j \<le> q" "q < ?n" for p q
    proof (cases "q = ?lim")
      case True
      with that B(2) show ?thesis by simp
    next
      case False
      with that True have q: "?lim < q" by simp
      with B(1) have Bq: "?B ! q = arr ! q" by (simp add: bubbled_def)
      show ?thesis
      proof (cases "p \<le> ?lim")
        case True
        have "\<forall>p\<le>?lim. key (arr ! p) \<le> key (arr ! q)"
          using less.prems(3) q that(3) by auto
        with B(1) True Bq show ?thesis by (auto simp: bubbled_def)
      next
        case False
        then have "?B ! p = arr ! p" using B(1) by (simp add: bubbled_def)
        with Bq less.prems(3) q that show ?thesis by simp
      qed
    qed
    then have "bubble_outer ?B (Suc j) ?n = sort_key key ?B"
      using less.hyps [of ?B "Suc j"] True same less.prems(2) by simp
    moreover have "sort_key key ?B = sort_key key arr"
      using B(1) by (intro stable_sort_unique) (auto simp: bubbled_def filter_sort_key)
    ultimately show ?thesis
      using True by (simp add: bubble_outer.simps [of arr j])
  next
    case False
    then have "key (arr ! p) \<le> key (arr ! q)" if "p \<le> q" "q < ?n" for p q
      using less.prems(3) that by (cases "q = 0") auto
    then have "sorted (map key arr)"
      by (auto simp: sorted_iff_nth_mono)
    then have "sort_key key arr = arr"
      by (rule sort_key_id_if_sorted)
    with False show ?thesis
      by (simp add: bubble_outer.simps [of arr j])
  qed
qed

section \<open>The contract and its two providers\<close>

lemma bytes_of_elems_of:
  assumes "n * ELEM_MAX_LEN \<le> length file"
  shows "bytes_of (elems_of file n) = take (n * ELEM_MAX_LEN) file"
  using assms
proof (induction n)
  case 0
  then show ?case by (simp add: bytes_of_def elems_of_def)
next
  case (Suc n)
  then show ?case
    by (simp add: bytes_of_def elems_of_def get_at_def take_add add.commute [of ELEM_MAX_LEN])
qed

lemma elems_of_bytes_of:
  "\<forall>e\<in>set es. length (carr e) = ELEM_MAX_LEN \<Longrightarrow> elems_of (bytes_of es @ rest) (length es) = es"
proof (induction es)
  case Nil
  then show ?case by (simp add: elems_of_def)
next
  case (Cons e es)
  have "elems_of (bytes_of (e # es) @ rest) (Suc (length es))
      = e # elems_of (bytes_of es @ rest) (length es)"
    using Cons.prems
    by (simp add: elems_of_def bytes_of_def upt_conv_Cons get_at_def map_Suc_upt [symmetric]
        del: upt_Suc)
  with Cons show ?case by simp
qed

lemma length_bytes_of:
  "\<forall>e\<in>set es. length (carr e) = ELEM_MAX_LEN \<Longrightarrow> length (bytes_of es) = length es * ELEM_MAX_LEN"
  by (induction es) (auto simp: bytes_of_def)

lemma carr_elems_of:
  "n * ELEM_MAX_LEN \<le> length file \<Longrightarrow> e \<in> set (elems_of file n) \<Longrightarrow> length (carr e) = ELEM_MAX_LEN"
proof -
  assume n: "n * ELEM_MAX_LEN \<le> length file" and "e \<in> set (elems_of file n)"
  then obtain i where i: "i < n" "e = Elem (get_at file (i * ELEM_MAX_LEN) ELEM_MAX_LEN)"
    by (auto simp: elems_of_def)
  then have "Suc i * ELEM_MAX_LEN \<le> n * ELEM_MAX_LEN" by (intro mult_le_mono1) simp
  with n i show ?thesis by simp
qed

locale permuting_sorter =
  fixes srt :: "elem list \<Rightarrow> elem list"
  assumes srt_mset: "keys_ok (set xs) \<Longrightarrow> mset (srt xs) = mset xs"
begin

lemma output_elems:
  assumes "n * ELEM_MAX_LEN \<le> length file" and "keys_ok (set (elems_of file n))"
  shows "elems_of (bytes_of (srt (elems_of file n)) @ drop (n * ELEM_MAX_LEN) file) n = srt (elems_of file n)"
    and "length (bytes_of (srt (elems_of file n)) @ drop (n * ELEM_MAX_LEN) file) = length file"
proof -
  have m: "mset (srt (elems_of file n)) = mset (elems_of file n)"
    using assms(2) by (rule srt_mset)
  then have len: "length (srt (elems_of file n)) = n"
    using mset_eq_length [OF m] by (simp add: elems_of_def)
  have "\<forall>e\<in>set (srt (elems_of file n)). length (carr e) = ELEM_MAX_LEN"
    using mset_eq_setD [OF m] carr_elems_of [OF assms(1)] by auto
  then show "elems_of (bytes_of (srt (elems_of file n)) @ drop (n * ELEM_MAX_LEN) file) n = srt (elems_of file n)"
    and "length (bytes_of (srt (elems_of file n)) @ drop (n * ELEM_MAX_LEN) file) = length file"
    using elems_of_bytes_of [of "srt (elems_of file n)"] length_bytes_of [of "srt (elems_of file n)"]
      len assms(1) by auto
qed

end

locale stable_sorter =
  fixes srt :: "elem list \<Rightarrow> elem list"
  assumes srt_stable: "keys_ok (set xs) \<Longrightarrow> srt xs = sort_key key xs"

sublocale stable_sorter \<subseteq> permuting_sorter srt
  by unfold_locales (simp add: srt_stable)

definition bubble_whole :: "elem list \<Rightarrow> elem list" where
  "bubble_whole xs = bubble_sort_elem xs (length xs)"

definition merge_serial_whole :: "elem list \<Rightarrow> elem list" where
  "merge_serial_whole xs = merge_sort_serial xs 0 (int (length xs) - 1)"

interpretation bubble: stable_sorter bubble_whole
  by unfold_locales (simp add: bubble_whole_def bubble_sort_elem_def bubble_outer_sorts)

interpretation serial: stable_sorter merge_serial_whole
proof unfold_locales
  fix xs :: "elem list"
  assume "keys_ok (set xs)"
  then show "merge_serial_whole xs = sort_key key xs"
    using merge_sort_serial_put_at [of 0 "int (length xs) - 1" xs]
    by (simp add: merge_serial_whole_def get_at_def put_at_def)
qed

end
