(* ===== verification/ParallelSort_Threads.thy ===== *)
theory ParallelSort_Threads
  imports ParallelSort_Quadratic
begin

text \<open>
  The threaded half of \<^verbatim>\<open>src/parallel-sort/mergesort.c\<close>. Each threaded routine is shown equal to a
  list function that mentions no schedule (\<open>pmerge\<close>, \<open>tsort\<close>), so its result does not depend on the
  order in which the jobs run. From the list functions: every run is a permutation of its input,
  inputs of at most 32 elements come out sorted, and for 34 elements there is an input that
  does not.
\<close>

section \<open>The parallel copy\<close>

lemma copy_loop_put_at:
  "i \<le> ca_n args \<Longrightarrow> ca_dest args + ca_n args \<le> length dst \<Longrightarrow> ca_src args + ca_n args \<le> length src \<Longrightarrow>
   copy_loop dst src args i = put_at dst (ca_dest args + i) (get_at src (ca_src args + i) (ca_n args - i))"
proof (induction dst src args i rule: copy_loop.induct)
  case (1 dst src args i)
  show ?case
  proof (cases "i < ca_n args")
    case True
    let ?x = "src ! (ca_src args + i)"
    have "copy_loop (dst[ca_dest args + i := ?x]) src args (Suc i) =
        put_at (dst[ca_dest args + i := ?x]) (ca_dest args + Suc i)
          (get_at src (ca_src args + Suc i) (ca_n args - Suc i))"
      using 1 True by (simp add: copy_elem_def)
    also have "\<dots> = put_at dst (ca_dest args + i) (?x # get_at src (ca_src args + Suc i) (ca_n args - Suc i))"
      using 1(3) True put_at_Cons [of "ca_dest args + i" dst] by simp
    also have "?x # get_at src (ca_src args + Suc i) (ca_n args - Suc i)
        = get_at src (ca_src args + i) (ca_n args - i)"
      using True 1(4) Cons_nth_drop_Suc [of "ca_src args + i" src] Suc_diff_Suc [OF True]
      by (metis (no_types, lifting) add_Suc_right add_less_cancel_left get_at_def order_less_le_trans take_Suc_Cons)
    finally show ?thesis
      using True by (simp add: copy_loop.simps [of dst src args i] copy_elem_def)
  next
    case False
    then have "copy_loop dst src args i = dst"
      by (subst copy_loop.simps) simp
    with False 1(2,3) show ?thesis by simp
  qed
qed

lemma copy_arr_serial_put_at:
  "ca_dest args + ca_n args \<le> length dst \<Longrightarrow> ca_src args + ca_n args \<le> length src \<Longrightarrow>
   copy_arr_serial dst src args = put_at dst (ca_dest args) (get_at src (ca_src args) (ca_n args))"
  by (simp add: copy_arr_serial_def copy_loop_put_at)

text \<open>The indices of the source that job \<open>i\<close> copies.\<close>

definition job_covers :: "nat \<Rightarrow> nat \<Rightarrow> nat \<Rightarrow> nat \<Rightarrow> bool" where
  "job_covers np n i x \<longleftrightarrow> ca_src (copy_job np 0 n i) \<le> x \<and> x < ca_src (copy_job np 0 n i) + ca_n (copy_job np 0 n i)"

lemma copy_job_fields:
  assumes "i < np"
  shows "ca_dest (copy_job np off n i) = off + ca_src (copy_job np 0 n i)"
    and "ca_src (copy_job np off n i) = ca_src (copy_job np 0 n i)"
    and "ca_n (copy_job np off n i) = ca_n (copy_job np 0 n i)"
    and "ca_src (copy_job np 0 n i) + ca_n (copy_job np 0 n i) \<le> n"
proof -
  have "Suc i * (n div np) \<le> n" if "i < np - 1"
  proof -
    have "Suc i * (n div np) \<le> np * (n div np)" using that by (intro mult_le_mono1) simp
    then show ?thesis by (metis times_div_less_eq_dividend le_trans)
  qed
  moreover have "(np - 1) * (n div np) \<le> n"
    by (metis diff_le_self le_trans mult_le_mono1 times_div_less_eq_dividend)
  ultimately show "ca_src (copy_job np 0 n i) + ca_n (copy_job np 0 n i) \<le> n"
    using assms by (auto simp: copy_job_def Let_def mult.commute)
qed (auto simp: copy_job_def Let_def)

lemma jobs_cover:
  assumes "0 < np" "x < n"
  shows "\<exists>i<np. job_covers np n i x"
proof -
  let ?c = "n div np"
  show ?thesis
  proof (cases "x < (np - 1) * ?c")
    case True
    then have c: "0 < ?c" by (cases ?c) auto
    then have i: "x div ?c < np - 1" using True by (simp add: div_less_iff_less_mult)
    moreover have "x div ?c * ?c \<le> x" "x < x div ?c * ?c + ?c"
      using dividend_less_div_times [OF c, of x] by (simp_all add: add.commute)
    ultimately show ?thesis
      by (intro exI [of _ "x div ?c"]) (auto simp: job_covers_def copy_job_def Let_def)
  next
    case False
    with assms show ?thesis
      by (intro exI [of _ "np - 1"]) (auto simp: job_covers_def copy_job_def Let_def mult.commute)
  qed
qed

lemma copy_jobs_nth:
  assumes "\<forall>i\<in>set ord. i < np" "off + n \<le> length dst" "n \<le> length src"
  defines "res \<equiv> fold (\<lambda>i d. copy_arr_serial d src (copy_job np off n i)) ord dst"
  shows "length res = length dst \<and>
    (\<forall>x<length dst. res ! x = (if off \<le> x \<and> (\<exists>i\<in>set ord. job_covers np n i (x - off)) then src ! (x - off) else dst ! x))"
  unfolding res_def using assms(1,2)
proof (induction ord arbitrary: dst)
  case Nil
  then show ?case by simp
next
  case (Cons j ord)
  let ?a = "ca_src (copy_job np 0 n j)" and ?m = "ca_n (copy_job np 0 n j)"
  let ?d = "copy_arr_serial dst src (copy_job np off n j)"
  have j: "j < np" using Cons.prems by simp
  have f: "ca_dest (copy_job np off n j) = off + ?a" "ca_src (copy_job np off n j) = ?a"
    "ca_n (copy_job np off n j) = ?m" "?a + ?m \<le> n"
    by (rule copy_job_fields [OF j])+
  have d: "?d = put_at dst (off + ?a) (get_at src ?a ?m)"
    using copy_arr_serial_put_at [of "copy_job np off n j" dst src] f Cons.prems(2) assms(3) by simp
  have len: "off + ?a + ?m \<le> length dst" "length (get_at src ?a ?m) = ?m"
    using f(4) Cons.prems(2) assms(3) by simp_all
  have nth: "?d ! x = (if off \<le> x \<and> job_covers np n j (x - off) then src ! (x - off) else dst ! x)"
    if "x < length dst" for x
    using that len f(4) assms(3) by (auto simp: d nth_put_at nth_get_at job_covers_def)
  have "length ?d = length dst" using d len by simp
  with Cons.IH [of ?d] Cons.prems nth show ?case by auto
qed

lemma copy_arr_parallel_put_at:
  assumes "set (copy_order sc) = {..<n_proc sc}" "0 < n_proc sc" "off + n \<le> length dst" "n \<le> length src"
  shows "copy_arr_parallel sc dst off src n = put_at dst off (get_at src 0 n)"
proof (rule nth_equalityI)
  have "\<forall>i\<in>set (copy_order sc). i < n_proc sc" using assms(1) by simp
  note res = copy_jobs_nth [OF this assms(3,4), folded copy_arr_parallel_def]
  show "length (copy_arr_parallel sc dst off src n) = length (put_at dst off (get_at src 0 n))"
    using res assms(3,4) by simp
  fix x assume "x < length (copy_arr_parallel sc dst off src n)"
  then have x: "x < length dst" using res by simp
  have "(\<exists>i\<in>set (copy_order sc). job_covers (n_proc sc) n i (x - off)) \<longleftrightarrow> x - off < n"
    using jobs_cover [OF assms(2)] copy_job_fields(4) [of _ "n_proc sc" n] assms(1)
    by (fastforce simp: job_covers_def)
  then show "copy_arr_parallel sc dst off src n ! x = put_at dst off (get_at src 0 n) ! x"
    using res x assms(3,4) by (auto simp: nth_put_at nth_get_at)
qed

section \<open>The parallel merge as a list function\<close>

definition psplit :: "elem list \<Rightarrow> elem \<Rightarrow> nat" where
  "psplit xs p = nat (find_split_point xs 0 (int (length xs) - 1) p)"

lemma psplit_le: "psplit xs p \<le> length xs"
  using find_split_point_bounds [of 0 xs "int (length xs) - 1" p] by (auto simp: psplit_def)

lemma split_loop_shift:
  "0 \<le> l \<Longrightarrow> nat l + n \<le> length arr \<Longrightarrow> 0 \<le> low \<Longrightarrow> high < int n \<Longrightarrow>
   split_loop arr (l + low) (l + high) p = l + split_loop (get_at arr (nat l) n) low high p"
proof (induction "nat (high - low)" arbitrary: low high rule: less_induct)
  case less
  let ?mid = "low + (high - low) div 2" and ?xs = "get_at arr (nat l) n"
  show ?case
  proof (cases "low < high")
    case True
    then have mid: "low \<le> ?mid" "?mid < high" by auto
    have half: "l + low + (l + high - (l + low)) div 2 = l + ?mid" by simp
    have nth: "arr ! nat (l + ?mid) = ?xs ! nat ?mid"
      using less.prems mid by (simp add: nth_get_at nat_add_distrib)
    have "split_loop arr (l + low) (l + ?mid) p = l + split_loop ?xs low ?mid p"
      using less.hyps [of ?mid low] less.prems mid by simp
    moreover have "split_loop arr (l + (?mid + 1)) (l + high) p = l + split_loop ?xs (?mid + 1) high p"
      using less.hyps [of high "?mid + 1"] less.prems mid by simp
    ultimately show ?thesis
      using True nth
      by (simp add: split_loop.simps [of arr "l + low" "l + high"] split_loop.simps [of ?xs low high]
          Let_def half add.assoc)
  next
    case False
    then show ?thesis
      by (simp add: split_loop.simps [of arr "l + low" "l + high"] split_loop.simps [of ?xs low high])
  qed
qed

lemma find_split_point_psplit:
  assumes "0 \<le> l" "l \<le> r + 1" "r < int (length arr)"
  shows "find_split_point arr l r p = l + int (psplit (get_at arr (nat l) (nat (r - l + 1))) p)"
proof -
  let ?n = "nat (r - l + 1)" and ?xs = "get_at arr (nat l) (nat (r - l + 1))"
  have n: "nat l + ?n \<le> length arr" "length ?xs = ?n" "int ?n = r - l + 1"
    using assms by auto
  have "split_loop arr (l + 0) (l + (r - l)) p = l + split_loop ?xs 0 (r - l) p"
    using assms n by (intro split_loop_shift) simp_all
  moreover have "0 \<le> split_loop ?xs 0 (r - l) p"
    using split_loop_bounds by blast
  moreover have "int (length ?xs) - 1 = r - l"
    using n by simp
  ultimately show ?thesis
    by (simp add: find_split_point_def psplit_def)
qed

function pmerge :: "elem list \<Rightarrow> elem list \<Rightarrow> elem list" where
  "pmerge xs ys =
     (if length xs \<le> 16 then merge_by xs ys
      else
        (let a = (if length ys < length xs then ys else xs);
             b = (if length ys < length xs then xs else ys);
             pi = (length b - 1) div 2;
             s = psplit a (b ! pi)
         in pmerge (take s a) (take pi b) @ b ! pi # pmerge (drop s a) (drop (Suc pi) b)))"
  by pat_completeness auto
termination
  by (relation "measure (\<lambda>(xs, ys). length xs + length ys)") (auto simp: Let_def)

declare pmerge.simps [simp del]

lemma mset_pmerge: "mset (pmerge xs ys) = mset xs + mset ys"
proof (induction xs ys rule: pmerge.induct)
  case (1 xs ys)
  show ?case
  proof (cases "length xs \<le> 16")
    case True
    then show ?thesis by (simp add: pmerge.simps [of xs ys] mset_merge_by)
  next
    case False
    define a b where "a = (if length ys < length xs then ys else xs)"
      and "b = (if length ys < length xs then xs else ys)"
    define pi where "pi = (length b - 1) div 2"
    define s where "s = psplit a (b ! pi)"
    have "pi < length b"
      using False by (auto simp: pi_def b_def)
    then have "mset b = mset (take pi b) + {#b ! pi#} + mset (drop (Suc pi) b)"
      by (metis add_mset_add_single id_take_nth_drop mset.simps(2) mset_append union_mset_add_mset_right
          union_mset_add_mset_left)
    moreover have "mset a = mset (take s a) + mset (drop s a)"
      by (metis append_take_drop_id mset_append)
    moreover have "mset xs + mset ys = mset a + mset b"
      by (simp add: a_def b_def add.commute)
    moreover have "pmerge xs ys = pmerge (take s a) (take pi b) @ b ! pi # pmerge (drop s a) (drop (Suc pi) b)"
      using False unfolding s_def pi_def b_def a_def by (subst pmerge.simps) (simp add: Let_def)
    ultimately show ?thesis
      using 1 [OF False a_def b_def pi_def s_def] by (simp add: ac_simps)
  qed
qed

lemma length_pmerge [simp]: "length (pmerge xs ys) = length xs + length ys"
  using mset_pmerge [of xs ys] by (metis size_mset size_union)

lemma pmerge_unfold:
  assumes "\<not> length xs \<le> 16"
    and "a = (if length ys < length xs then ys else xs)" "b = (if length ys < length xs then xs else ys)"
    and "pi = (length b - 1) div 2" "s = psplit a (b ! pi)"
  shows "pmerge xs ys = pmerge (take s a) (take pi b) @ b ! pi # pmerge (drop s a) (drop (Suc pi) b)"
  using assms by (subst pmerge.simps) (simp add: Let_def)

text \<open>A run of the array between two C indices.\<close>

definition run_of :: "elem list \<Rightarrow> int \<Rightarrow> int \<Rightarrow> elem list" where
  "run_of arr l r = get_at arr (nat l) (nat (r - l + 1))"

definition run_ok :: "elem list \<Rightarrow> int \<Rightarrow> int \<Rightarrow> bool" where
  "run_ok arr l r \<longleftrightarrow> 0 \<le> l \<and> l \<le> r + 1 \<and> r < int (length arr)"

lemma length_run_of: "run_ok arr l r \<Longrightarrow> length (run_of arr l r) = nat (r - l + 1)"
  by (auto simp: run_of_def run_ok_def)

lemma run_of_split:
  assumes "run_ok arr l r" and "0 \<le> k" "k \<le> r - l + 1"
  shows "run_of arr l (l + k - 1) = take (nat k) (run_of arr l r)"
    and "run_of arr (l + k) r = drop (nat k) (run_of arr l r)"
    and "run_ok arr l (l + k - 1)" and "run_ok arr (l + k) r"
proof -
  have "nat (r - (l + k) + 1) = nat (r - l + 1) - nat k" "nat (l + k - 1 - l + 1) = nat k"
    "nat k \<le> nat (r - l + 1)" "nat (l + k) = nat k + nat l"
    using assms by (auto simp: run_ok_def)
  then show "run_of arr l (l + k - 1) = take (nat k) (run_of arr l r)"
    and "run_of arr (l + k) r = drop (nat k) (run_of arr l r)"
    by (simp_all add: run_of_def get_at_def drop_take min_absorb1)
qed (use assms in \<open>auto simp: run_ok_def\<close>)

lemma nth_run_of: "run_ok arr l r \<Longrightarrow> l \<le> i \<Longrightarrow> i \<le> r \<Longrightarrow> run_of arr l r ! nat (i - l) = arr ! nat i"
  by (auto simp: run_of_def run_ok_def nth_get_at nat_diff_distrib)

lemma put_at_three:
  assumes "a + length L + 1 + length R \<le> length B"
  shows "put_at (put_at (put_at B (a + length L) [x]) (a + length L + 1) R) a L = put_at B a (L @ x # R)"
    and "put_at (put_at (put_at B (a + length L) [x]) a L) (a + length L + 1) R = put_at B a (L @ x # R)"
proof -
  let ?c = "a + length L"
  have "put_at (put_at B ?c [x]) (?c + 1) R = put_at B ?c (x # R)"
    using put_at_append [of ?c "[x]" R B] assms by simp
  moreover have "put_at (put_at B ?c (x # R)) a L = put_at (put_at B a L) ?c (x # R)"
    using assms by (intro put_at_commute) auto
  moreover have "put_at (put_at B a L) ?c (x # R) = put_at B a (L @ x # R)"
    using put_at_append [of a L "x # R" B] assms by simp
  ultimately show "put_at (put_at (put_at B ?c [x]) (?c + 1) R) a L = put_at B a (L @ x # R)"
    by simp
  have "put_at (put_at B ?c [x]) a L = put_at (put_at B a L) ?c [x]"
    using assms by (intro put_at_commute) auto
  also have "\<dots> = put_at B a (L @ [x])"
    using put_at_append [of a L "[x]" B] assms by simp
  finally show "put_at (put_at (put_at B ?c [x]) a L) (?c + 1) R = put_at B a (L @ x # R)"
    using put_at_append [of a "L @ [x]" R B] assms by simp
qed

lemma merge_parallel_aux_small:
  assumes "r1 - l1 + 1 \<le> 16" "run_ok arr l1 r1" "run_ok arr l2 r2"
    and "nat start + length (run_of arr l1 r1) + length (run_of arr l2 r2) \<le> length B"
  shows "merge_parallel_aux sc arr l1 r1 l2 r2 B start =
     put_at B (nat start) (pmerge (run_of arr l1 r1) (run_of arr l2 r2))"
proof -
  note lens = length_run_of [OF assms(2)] length_run_of [OF assms(3)]
  have "length (run_of arr l1 r1) \<le> 16"
    using lens(1) assms(1) by simp
  then have "pmerge (run_of arr l1 r1) (run_of arr l2 r2) = merge_by (run_of arr l1 r1) (run_of arr l2 r2)"
    by (subst pmerge.simps) simp
  moreover have "merge_serial_2 arr l1 r1 l2 r2 B start
      = put_at B (nat start) (merge_by (run_of arr l1 r1) (run_of arr l2 r2))"
    using assms(2-4) lens unfolding run_of_def
    by (intro merge_serial_2_put_at) (auto simp: run_ok_def)
  ultimately show ?thesis
    using assms(1) by (subst merge_parallel_aux.simps) (simp add: MIN_THREAD_ELEM_def)
qed

text \<open>
  One level of the recursion: if both recursive calls behave as \<open>pmerge\<close>, so does the call,
  whichever of the two jobs runs first.
\<close>

lemma merge_parallel_aux_level:
  fixes arr B :: "elem list"
  assumes big: "\<not> r1 - l1 + 1 \<le> 16" and "run_ok arr l1 r1" "run_ok arr l2 r2" and start: "0 \<le> start"
    and room: "nat start + length (run_of arr l1 r1) + length (run_of arr l2 r2) \<le> length B"
    and IH: "\<And>l1' r1' l2' r2' B' start'.
      nat (r1' - l1' + 1) + nat (r2' - l2' + 1) < nat (r1 - l1 + 1) + nat (r2 - l2 + 1) \<Longrightarrow>
      run_ok arr l1' r1' \<Longrightarrow> run_ok arr l2' r2' \<Longrightarrow> 0 \<le> start' \<Longrightarrow>
      nat start' + length (run_of arr l1' r1') + length (run_of arr l2' r2') \<le> length B' \<Longrightarrow>
      merge_parallel_aux sc arr l1' r1' l2' r2' B' start' =
        put_at B' (nat start') (pmerge (run_of arr l1' r1') (run_of arr l2' r2'))"
  shows "merge_parallel_aux sc arr l1 r1 l2 r2 B start =
     put_at B (nat start) (pmerge (run_of arr l1 r1) (run_of arr l2 r2))"
proof -
  define swap where "swap = (r2 - l2 < r1 - l1)"
  define m1 q1 where "m1 = (if swap then l2 else l1)" and "q1 = (if swap then r2 else r1)"
  define m2 q2 where "m2 = (if swap then l1 else l2)" and "q2 = (if swap then r1 else r2)"
  define pi where "pi = m2 + (q2 - m2) div 2"
  define s where "s = find_split_point arr m1 q1 (arr ! nat pi)"
  let ?xs = "run_of arr l1 r1" and ?ys = "run_of arr l2 r2"
  let ?a = "run_of arr m1 q1" and ?b = "run_of arr m2 q2"
  define p k where "p = nat (pi - m2)" and "k = psplit ?a (?b ! p)"
  have ok: "run_ok arr m1 q1" "run_ok arr m2 q2"
    using assms(2,3) by (simp_all add: m1_def q1_def m2_def q2_def)
  note lens = length_run_of [OF assms(2)] length_run_of [OF assms(3)]
    length_run_of [OF ok(1)] length_run_of [OF ok(2)]
  have ab: "?a = (if length ?ys < length ?xs then ?ys else ?xs)"
    "?b = (if length ?ys < length ?xs then ?xs else ?ys)"
    using lens big assms(2,3) by (auto simp: swap_def m1_def q1_def m2_def q2_def run_ok_def)
  then have total: "length ?a + length ?b = length ?xs + length ?ys" by auto
  have sizes: "nat (q1 - s + 1) + nat (q2 - (pi + 1) + 1) < nat (r1 - l1 + 1) + nat (r2 - l2 + 1)"
    "nat (s - 1 - m1 + 1) + nat (pi - 1 - m2 + 1) < nat (r1 - l1 + 1) + nat (r2 - l2 + 1)"
    using merge_parallel_sizes [OF _ swap_def m1_def q1_def m2_def q2_def pi_def s_def] big
    by (simp_all add: MIN_THREAD_ELEM_def)
  have pi: "m2 \<le> pi" "pi \<le> q2"
    using big by (auto simp: pi_def m2_def q2_def swap_def)
  have p: "p = (length ?b - 1) div 2" "int p = pi - m2"
    using pi lens(4) by (auto simp: p_def pi_def nat_div_distrib)
  have pivot: "arr ! nat pi = ?b ! p"
    using nth_run_of [OF ok(2) pi] by (simp add: p_def)
  have s: "s = m1 + int k" "k \<le> length ?a"
    using find_split_point_psplit [of m1 q1 arr] ok(1)
    by (simp add: s_def k_def pivot run_of_def run_ok_def, simp add: k_def psplit_le)
  note sa = run_of_split [OF ok(1), of "int k", folded s(1)]
  note sb = run_of_split [OF ok(2), of "int p"] run_of_split [OF ok(2), of "int p + 1"]
  have runs: "run_of arr m1 (s - 1) = take k ?a" "run_of arr s q1 = drop k ?a"
    "run_of arr m2 (pi - 1) = take p ?b" "run_of arr (pi + 1) q2 = drop (Suc p) ?b"
    and oks: "run_ok arr m1 (s - 1)" "run_ok arr s q1" "run_ok arr m2 (pi - 1)" "run_ok arr (pi + 1) q2"
    using sa sb s p pi lens(3,4) ok by (auto simp: nat_add_distrib run_ok_def)
  let ?L = "pmerge (take k ?a) (take p ?b)" and ?R = "pmerge (drop k ?a) (drop (Suc p) ?b)"
  let ?at = "start + (s - m1) + (pi - m2)"
  have pl: "p < length ?b" using p(2) pi lens(4) by simp
  have L: "length ?L = k + p" "nat ?at = nat start + length ?L" "nat (?at + 1) = nat start + length ?L + 1"
    using s p(2) pl start by auto
  have R: "nat start + length ?L + 1 + length ?R \<le> length B"
    using room total pl s(2) by simp
  have at0: "0 \<le> ?at + 1"
    using s(1) p(2) start by linarith
  have left: "merge_parallel_aux sc arr m1 (s - 1) m2 (pi - 1) B0 start = put_at B0 (nat start) ?L"
    if "length B0 = length B" for B0
    using IH [OF sizes(2) oks(1,3) start] that L(1) R by (simp add: runs)
  have right: "merge_parallel_aux sc arr s q1 (pi + 1) q2 B0 (?at + 1)
      = put_at B0 (nat start + length ?L + 1) ?R" if "length B0 = length B" for B0
    using IH [OF sizes(1) oks(2,4), of "?at + 1" B0] that L R at0 by (simp add: runs)
  have "pmerge ?xs ?ys = ?L @ ?b ! p # ?R"
    using pmerge_unfold [OF _ ab p(1) k_def] big lens(1) by simp
  moreover note put_at_three [OF R, of "?b ! p"]
  moreover have "copy_elem B (nat ?at) (?b ! p) = put_at B (nat start + length ?L) [?b ! p]"
    using R L(2) by (simp add: copy_elem_def list_update_put_at)
  ultimately show ?thesis
    using big assms(2) R
    by (subst merge_parallel_aux.simps)
      (simp add: MIN_THREAD_ELEM_def run_ok_def Let_def pivot s_def [symmetric, unfolded pivot] left right
        flip: swap_def m1_def q1_def m2_def q2_def pi_def)
qed

lemma merge_parallel_aux_put_at:
  "run_ok arr l1 r1 \<Longrightarrow> run_ok arr l2 r2 \<Longrightarrow> 0 \<le> start \<Longrightarrow>
   nat start + length (run_of arr l1 r1) + length (run_of arr l2 r2) \<le> length B \<Longrightarrow>
   merge_parallel_aux sc arr l1 r1 l2 r2 B start =
     put_at B (nat start) (pmerge (run_of arr l1 r1) (run_of arr l2 r2))"
proof (induction "nat (r1 - l1 + 1) + nat (r2 - l2 + 1)" arbitrary: l1 r1 l2 r2 B start rule: less_induct)
  case less
  show ?case
  proof (cases "r1 - l1 + 1 \<le> 16")
    case True
    with less.prems show ?thesis by (intro merge_parallel_aux_small)
  next
    case False
    then show ?thesis
      by (rule merge_parallel_aux_level [OF _ less.prems]) (rule less.hyps)
  qed
qed

section \<open>The threaded sort as a list function\<close>

text \<open>Every processor runs its copy job, and there is at least one processor.\<close>

definition sched_ok :: "schedule \<Rightarrow> bool" where
  "sched_ok sc \<longleftrightarrow> 0 < n_proc sc \<and> set (copy_order sc) = {..<n_proc sc}"

lemma merge_parallel_put_at:
  assumes "sched_ok sc" "run_ok arr l m" "run_ok arr (m + 1) r"
  shows "merge_parallel sc arr l m r =
    put_at arr (nat l) (pmerge (run_of arr l m) (run_of arr (m + 1) r))"
proof -
  let ?n = "nat (r - l + 1)" and ?ps = "pmerge (run_of arr l m) (run_of arr (m + 1) r)"
  have n: "length (run_of arr l m) + length (run_of arr (m + 1) r) = ?n" "nat l + ?n \<le> length arr"
    using length_run_of [OF assms(2)] length_run_of [OF assms(3)] assms(2,3)
    by (auto simp: run_ok_def)
  let ?B = "replicate ?n (junk sc)"
  have B: "merge_parallel_aux sc arr l m (m + 1) r ?B 0 = ?ps"
    using merge_parallel_aux_put_at [OF assms(2,3), of 0 ?B sc] n by (simp add: put_at_def)
  have "copy_arr_parallel sc arr (nat l) ?ps ?n = put_at arr (nat l) (get_at ?ps 0 ?n)"
    using assms(1) n by (intro copy_arr_parallel_put_at) (auto simp: sched_ok_def)
  also have "get_at ?ps 0 ?n = ?ps"
    using n by (simp add: get_at_def)
  finally show ?thesis
    by (simp add: merge_parallel_def B)
qed

function tsort :: "elem list \<Rightarrow> elem list" where
  "tsort xs =
     (if length xs \<le> 16 then isort_back [] xs
      else (let h = (length xs - 1) div 2 + 1 in pmerge (tsort (take h xs)) (tsort (drop h xs))))"
  by pat_completeness auto
termination
  by (relation "measure length") (auto simp: Let_def)

declare tsort.simps [simp del]

lemma mset_tsort: "mset (tsort xs) = mset xs"
proof (induction xs rule: tsort.induct)
  case (1 xs)
  show ?case
  proof (cases "length xs \<le> 16")
    case True
    then show ?thesis by (subst tsort.simps) (simp add: mset_isort_back)
  next
    case False
    moreover have "mset (take h xs) + mset (drop h xs) = mset xs" for h
      by (metis append_take_drop_id mset_append)
    ultimately show ?thesis
      using 1 [OF False refl] by (subst tsort.simps) (simp add: mset_pmerge Let_def)
  qed
qed

lemma length_tsort [simp]: "length (tsort xs) = length xs"
  using mset_tsort [of xs] by (metis size_mset)

lemma tsort_small:
  assumes "length xs \<le> 32" "keys_ok (set xs)"
  shows "tsort xs = sort_key key xs"
proof -
  have base: "tsort ys = sort_key key ys" if "length ys \<le> 16" "keys_ok (set ys)" for ys
    using that isort_back_sort_key [of "[]" ys] by (subst tsort.simps) simp
  show ?thesis
  proof (cases "length xs \<le> 16")
    case True
    with base assms(2) show ?thesis by simp
  next
    case False
    define h where "h = (length xs - 1) div 2 + 1"
    have h: "length (take h xs) \<le> 16" "length (drop h xs) \<le> 16"
      using assms(1) False by (auto simp: h_def)
    have keys: "keys_ok (set (take h xs) \<union> set (drop h xs))"
      using assms(2) by (metis append_take_drop_id set_append)
    then have "tsort (take h xs) = sort_key key (take h xs)" "tsort (drop h xs) = sort_key key (drop h xs)"
      using base [OF h(1)] base [OF h(2)] keys_ok_subset [OF keys] by auto
    moreover have "pmerge (sort_key key (take h xs)) ys = merge_by (sort_key key (take h xs)) ys" for ys
      using h(1) by (subst pmerge.simps) simp
    ultimately have "tsort xs = merge_by (sort_key key (take h xs)) (sort_key key (drop h xs))"
      using False by (subst tsort.simps) (simp only: Let_def if_False flip: h_def)
    also have "\<dots> = sort_key key (take h xs @ drop h xs)"
      using keys by (rule merge_by_sort_key)
    finally show ?thesis by simp
  qed
qed

text \<open>Two jobs on adjacent parts of one array: either order gives the same array.\<close>

lemma adjacent_jobs:
  assumes "a + h + k \<le> length A" "length (f (get_at A a h)) = h" "length (g (get_at A (a + h) k)) = k"
  defines "F \<equiv> \<lambda>A. put_at A a (f (get_at A a h))" and "G \<equiv> \<lambda>A. put_at A (a + h) (g (get_at A (a + h) k))"
  shows "G (F A) = put_at A a (f (get_at A a h) @ g (get_at A (a + h) k))"
    and "F (G A) = put_at A a (f (get_at A a h) @ g (get_at A (a + h) k))"
proof -
  have "get_at (F A) (a + h) k = get_at A (a + h) k"
    unfolding F_def using assms(1,2) by (intro get_put_disjoint) auto
  then show GF: "G (F A) = put_at A a (f (get_at A a h) @ g (get_at A (a + h) k))"
    using put_at_append [of a "f (get_at A a h)" "g (get_at A (a + h) k)" A] assms(1-3)
    by (simp add: F_def G_def)
  have "get_at (G A) a h = get_at A a h"
    unfolding G_def using assms(1,3) by (intro get_put_disjoint) auto
  then have "F (G A) = put_at (put_at A a (f (get_at A a h))) (a + h) (g (get_at A (a + h) k))"
    unfolding F_def G_def using assms(1-3) by (simp add: put_at_commute)
  then show "F (G A) = put_at A a (f (get_at A a h) @ g (get_at A (a + h) k))"
    using put_at_append [of a "f (get_at A a h)" "g (get_at A (a + h) k)" A] assms(1-3) by simp
qed

lemma tsort_unfold:
  assumes "\<not> length xs \<le> 16"
  shows "tsort xs = pmerge (tsort (take ((length xs - 1) div 2 + 1) xs)) (tsort (drop ((length xs - 1) div 2 + 1) xs))"
  using assms by (subst tsort.simps) (simp add: Let_def)

lemma merge_sort_threaded_level:
  assumes ok: "sched_ok sc" "run_ok arr l r" and big: "\<not> r - l + 1 \<le> 16"
    and IH: "\<And>arr l' r'. nat (r' - l') < nat (r - l) \<Longrightarrow> run_ok arr l' r' \<Longrightarrow>
      merge_sort_threaded sc arr l' r' = put_at arr (nat l') (tsort (run_of arr l' r'))"
  shows "merge_sort_threaded sc arr l r = put_at arr (nat l) (tsort (run_of arr l r))"
proof -
  define m a where "m = l + (r - l) div 2" and "a = nat l"
  define h k where "h = nat (m + 1 - l)" and "k = nat (r - m)"
  have m: "l \<le> m" "m < r" using big by (auto simp: m_def)
  have nats: "nat (m + 1) = a + h" "a + h + k \<le> length arr" "nat (m - l + 1) = h"
    "nat (r - (m + 1) + 1) = k" "nat (r - l + 1) = h + k"
    using ok(2) m by (auto simp: run_ok_def a_def h_def k_def)
  have half: "(h + k - 1) div 2 + 1 = h"
    using m by (simp add: h_def k_def m_def)
  have ok': "run_ok A l m" "run_ok A (m + 1) r" if "length A = length arr" for A
    using that ok(2) m by (auto simp: run_ok_def)
  let ?xs = "get_at arr a h" and ?ys = "get_at arr (a + h) k"
  let ?C = "put_at arr a (tsort ?xs @ tsort ?ys)"
  have lens: "length ?xs = h" "length ?ys = k" "length ?C = length arr" using nats by simp_all
  have left: "merge_sort_threaded sc A l m = put_at A a (tsort (get_at A a h))"
    and right: "merge_sort_threaded sc A (m + 1) r = put_at A (a + h) (tsort (get_at A (a + h) k))"
    if "length A = length arr" for A
    using IH [of m l A] IH [of r "m + 1" A] ok' [OF that] m nats by (simp_all add: run_of_def flip: a_def)
  have both: "merge_sort_threaded sc (merge_sort_threaded sc arr l m) (m + 1) r = ?C"
    "merge_sort_threaded sc (merge_sort_threaded sc arr (m + 1) r) l m = ?C"
    using adjacent_jobs [of a h k arr tsort tsort] nats lens by (simp_all add: left right)
  have "merge_parallel sc ?C l m r = put_at ?C a (pmerge (get_at ?C a h) (get_at ?C (a + h) k))"
    using merge_parallel_put_at [OF ok(1) ok' [OF lens(3)]] nats by (simp add: run_of_def flip: a_def)
  also have "get_at ?C a h = tsort ?xs"
    using nats lens by (simp add: get_put_inside) (simp add: get_at_def)
  also have "get_at ?C (a + h) k = tsort ?ys"
    using nats lens by (simp add: get_put_inside) (simp add: get_at_def)
  also have "put_at ?C a (pmerge (tsort ?xs) (tsort ?ys)) = put_at arr a (pmerge (tsort ?xs) (tsort ?ys))"
    using nats lens by (intro put_at_over) simp_all
  also have "pmerge (tsort ?xs) (tsort ?ys) = tsort (run_of arr l r)"
  proof -
    have xs: "run_of arr l r = ?xs @ ?ys" by (simp add: run_of_def nats get_at_append flip: a_def)
    have "\<not> length (?xs @ ?ys) \<le> 16" "(length (?xs @ ?ys) - 1) div 2 + 1 = h"
      using big nats(5) lens half by simp_all
    then have "tsort (?xs @ ?ys) = pmerge (tsort (take h (?xs @ ?ys))) (tsort (drop h (?xs @ ?ys)))"
      by (metis tsort_unfold)
    then show ?thesis using lens by (simp add: xs)
  qed
  finally have "merge_parallel sc ?C l m r = put_at arr a (tsort (run_of arr l r))" .
  then show ?thesis
    using big m both
    by (subst merge_sort_threaded.simps) (simp add: MIN_THREAD_ELEM_def Let_def flip: m_def a_def)
qed

lemma merge_sort_threaded_put_at:
  "sched_ok sc \<Longrightarrow> run_ok arr l r \<Longrightarrow>
   merge_sort_threaded sc arr l r = put_at arr (nat l) (tsort (run_of arr l r))"
proof (induction "nat (r - l)" arbitrary: arr l r rule: less_induct)
  case less
  let ?xs = "run_of arr l r"
  show ?case
  proof (cases "r - l + 1 \<le> 16")
    case True
    then have "length ?xs \<le> 16" using length_run_of [OF less.prems(2)] by simp
    then have "tsort ?xs = isort_back [] ?xs" by (subst tsort.simps) simp
    moreover have "insertion_sort arr (nat l) (r - l + 1) = put_at arr (nat l) (isort_back [] ?xs)"
      using insertion_sort_put_at [of "nat l" "r - l + 1" arr] less.prems(2)
      by (auto simp: run_of_def run_ok_def)
    ultimately show ?thesis
      using True by (subst merge_sort_threaded.simps) (simp add: MIN_THREAD_ELEM_def)
  next
    case False
    show ?thesis
      using less.hyps less.prems(1) by (intro merge_sort_threaded_level [OF less.prems False]) auto
  qed
qed

section \<open>The split point\<close>

lemma split_loop_spec:
  "0 \<le> low \<Longrightarrow> low \<le> high \<Longrightarrow> high \<le> int (length arr) \<Longrightarrow> keys_ok (insert p (set arr)) \<Longrightarrow>
   \<forall>i j. low \<le> i \<longrightarrow> i \<le> j \<longrightarrow> j < high \<longrightarrow> key (arr ! nat i) \<le> key (arr ! nat j) \<Longrightarrow>
   (\<forall>i. low \<le> i \<longrightarrow> i < split_loop arr low high p \<longrightarrow> key (arr ! nat i) < key p) \<and>
   (\<forall>i. split_loop arr low high p \<le> i \<longrightarrow> i < high \<longrightarrow> key p \<le> key (arr ! nat i))"
proof (induction arr low high p rule: split_loop.induct)
  case (1 arr low high p)
  show ?case
  proof (cases "low < high")
    case True
    define mid where "mid = low + (high - low) div 2"
    have mid: "low \<le> mid" "mid < high" using True by (auto simp: mid_def)
    then have cmp: "compare_elem p (arr ! nat mid) = key p - key (arr ! nat mid)"
      using 1(3,5,6) by (intro compare_elem_key [OF 1(6)]) auto
    show ?thesis
    proof (cases "key p \<le> key (arr ! nat mid)")
      case le: True
      have eq: "split_loop arr low high p = split_loop arr low mid p"
        using True le cmp by (subst split_loop.simps) (simp add: Let_def flip: mid_def)
      have "key p \<le> key (arr ! nat i)" if "mid \<le> i" "i < high" for i
        using 1(7) le mid(1) that by (meson order_trans)
      then show ?thesis
        using 1(1) [OF True mid_def] 1(3-7) mid le cmp by (auto simp: eq not_less [symmetric])
    next
      case gt: False
      have eq: "split_loop arr low high p = split_loop arr (mid + 1) high p"
        using True gt cmp by (subst split_loop.simps) (simp add: Let_def flip: mid_def)
      have "key (arr ! nat i) < key p" if "low \<le> i" "i < mid + 1" for i
        using 1(7) gt mid(2) that by (meson le_less_trans not_le zle_add1_eq_le)
      then show ?thesis
        using 1(2) [OF True mid_def] 1(3-7) mid gt cmp by (auto simp: eq not_less [symmetric])
    qed
  next
    case False
    then show ?thesis by (subst (1 2) split_loop.simps) auto
  qed
qed

lemma psplit_all_smaller:
  assumes "xs \<noteq> []" "keys_ok (insert p (set xs))" "\<forall>x\<in>set xs. key x < key p" "sorted (map key xs)"
  shows "psplit xs p = length xs - 1"
proof -
  let ?h = "int (length xs) - 1"
  let ?s = "split_loop xs 0 ?h p"
  have b: "0 \<le> ?s" "?s \<le> ?h"
    using split_loop_bounds [of 0 xs ?h p] assms(1) by (auto simp: Suc_le_eq)
  have "\<forall>i j. 0 \<le> i \<longrightarrow> i \<le> j \<longrightarrow> j < ?h \<longrightarrow> key (xs ! nat i) \<le> key (xs ! nat j)"
    using assms(4) by (auto simp: sorted_iff_nth_mono)
  then have "\<forall>i. ?s \<le> i \<longrightarrow> i < ?h \<longrightarrow> key p \<le> key (xs ! nat i)"
    using split_loop_spec [of 0 ?h xs p] assms(1,2) by (auto simp: Suc_le_eq)
  moreover have "key (xs ! nat ?s) < key p"
    using assms(3) b by auto
  ultimately have "?s = ?h"
    using b by force
  then show ?thesis
    by (simp add: psplit_def find_split_point_def)
qed

lemma pmerge_unsorted:
  assumes len: "16 < length xs" "length xs \<le> length ys" and "keys_ok (set xs \<union> set ys)" "sorted (map key xs)"
    and less: "\<forall>x\<in>set xs. key x < key (ys ! ((length ys - 1) div 2))"
  shows "\<not> sorted (map key (pmerge xs ys))"
proof
  let ?pi = "(length ys - 1) div 2" and ?s = "length xs - 1"
  have pi: "?pi < length ys" using len by auto
  then have "psplit xs (ys ! ?pi) = ?s"
    using len less assms(3,4) by (intro psplit_all_smaller) (auto elim!: keys_ok_subset)
  then have "pmerge xs ys = pmerge (take ?s xs) (take ?pi ys) @ ys ! ?pi # pmerge (drop ?s xs) (drop (Suc ?pi) ys)"
    using pmerge_unfold [of xs xs ys ys ?pi ?s] len by simp
  moreover have "last xs \<in> set (pmerge (drop ?s xs) (drop (Suc ?pi) ys))"
  proof -
    have "last xs \<in> set (drop ?s xs)"
      using len by (cases xs rule: rev_cases) auto
    then show ?thesis
      using mset_pmerge [of "drop ?s xs" "drop (Suc ?pi) ys"] by (metis UnCI set_mset_mset set_mset_union)
  qed
  moreover assume "sorted (map key (pmerge xs ys))"
  ultimately have "key (ys ! ?pi) \<le> key (last xs)"
    by (auto simp: sorted_append)
  moreover have "last xs \<in> set xs" using len by (intro last_in_set) auto
  ultimately show False using less by fastforce
qed

section \<open>Properties\<close>

text \<open>
  C6: the serial merge sort of a range is the stable sort of that range and leaves the rest of the
  array alone, whenever the keys are close enough for their difference to be an \<^verbatim>\<open>int\<close>.
\<close>

theorem merge_sort_serial_correct:
  assumes "0 \<le> l" "r < int (length arr)" "keys_ok (set arr)"
  shows "merge_sort_serial arr l r = put_at arr (nat l) (sort_key key (run_of arr l r))"
  using merge_sort_serial_put_at [OF assms(1,2)] keys_ok_subset [OF assms(3) set_get_at_subset]
  by (simp add: run_of_def)

text \<open>A concrete array: elements of 100 bytes with the given keys.\<close>

definition elem_of_key :: "int \<Rightarrow> elem" where
  "elem_of_key k = Elem (le32 (word_of_int k) @ replicate 96 0)"

lemma key_elem_of_key: "- (2 ^ 31) \<le> k \<Longrightarrow> k < 2 ^ 31 \<Longrightarrow> key (elem_of_key k) = k"
  by (simp add: key_def elem_i_def elem_of_key_def signed_of_int signed_take_bit_int_eq_self)

lemma keys_ok_small: "\<forall>e\<in>S. 0 \<le> key e \<and> key e < 2 ^ 31 \<Longrightarrow> keys_ok S"
  by (smt (verit) keys_ok_def)

theorem merge_sort_serial_correct_witness:
  "merge_sort_serial [elem_of_key 3, elem_of_key 1, elem_of_key 2] 0 2 =
     [elem_of_key 1, elem_of_key 2, elem_of_key 3]"
proof -
  have "keys_ok (set [elem_of_key 3, elem_of_key 1, elem_of_key 2])"
    by (rule keys_ok_small) (simp add: key_elem_of_key)
  then show ?thesis
    using merge_sort_serial_correct [of 0 2 "[elem_of_key 3, elem_of_key 1, elem_of_key 2]"]
    by (simp add: run_of_def get_at_def put_at_def key_elem_of_key)
qed

lemma len_sint:
  assumes "n < 2 ^ 31"
  shows "sint (of_nat n :: u32) = int n" "sint ((of_nat n :: u32) - 1) = int n - 1"
proof -
  show "sint (of_nat n :: u32) = int n"
    using assms by (simp add: signed_of_nat signed_take_bit_int_eq_self)
  have "(of_nat n :: u32) - 1 = of_int (int n - 1)" by simp
  then show "sint ((of_nat n :: u32) - 1) = int n - 1"
    using assms by (simp only: signed_of_int) (simp add: signed_take_bit_int_eq_self)
qed

text \<open>
  C7: what the program writes for algorithms 1 (bubble sort) and 2 (serial merge sort), for files of fewer than
  \<open>2 ^ 31\<close> elements. The bytes that \<^verbatim>\<open>write\<close> stores are the beginning of the sorted file, all of it when the call is not cut
  short. The sorted file has the size of the input file; read back as elements it is the stable sort by
  key of the input's elements, and the bytes after the last whole element are copied unchanged.
\<close>

theorem sort_main_sorts:
  assumes "algo = 1 \<or> algo = 2" "access_ok env" "open_in_ok env" "open_out_ok env" "mmap_ok env"
    and "length file div ELEM_MAX_LEN < 2 ^ 31"
    and "keys_ok (set (elems_of file (length file div ELEM_MAX_LEN)))"
  shows "\<exists>out. sort_main sc env 4 algo file = Ok (Some (take (written env (length file)) out)) \<and>
    length out = length file \<and>
    elems_of out (length file div ELEM_MAX_LEN) =
      sort_key key (elems_of file (length file div ELEM_MAX_LEN)) \<and>
    drop (length file div ELEM_MAX_LEN * ELEM_MAX_LEN) out =
      drop (length file div ELEM_MAX_LEN * ELEM_MAX_LEN) file"
proof -
  let ?n = "length file div ELEM_MAX_LEN" and ?xs = "elems_of file (length file div ELEM_MAX_LEN)"
  have n: "?n * ELEM_MAX_LEN \<le> length file" "length ?xs = ?n"
    by (simp_all add: elems_of_def)
  note w = len_sint [OF assms(6)]
  define out where "out = bytes_of (sort_key key ?xs) @ drop (?n * ELEM_MAX_LEN) file"
  have main: "sort_main sc env 4 algo file = Ok (Some (take (written env (length file)) out))"
    using assms(1-5) n bubble.srt_stable [OF assms(7)] serial.srt_stable [OF assms(7)]
    by (auto simp: sort_main_def algo_of_def bubble_whole_def merge_serial_whole_def Let_def out_def w)
  have *: "length out = length file" "elems_of out ?n = sort_key key ?xs"
    using serial.output_elems [OF n(1) assms(7)] serial.srt_stable [OF assms(7)] by (simp_all add: out_def)
  have "length (bytes_of (sort_key key ?xs)) = ?n * ELEM_MAX_LEN"
    using *(1) n(1) unfolding out_def length_append length_drop by linarith
  then have "drop (?n * ELEM_MAX_LEN) out = drop (?n * ELEM_MAX_LEN) file" by (simp add: out_def)
  with * main show ?thesis by blast
qed

definition any_sched :: schedule where
  "any_sched = \<lparr> n_proc = 2, copy_order = [1, 0], sort_spawned_first = (\<lambda>_ _. True),
     merge_spawned_first = (\<lambda>_ _ _ _. False), junk = Elem [] \<rparr>"

definition file_21 :: "byte list" where
  "file_21 = bytes_of [elem_of_key 2, elem_of_key 1] @ [7]"

lemma elems_file_21: "elems_of file_21 2 = [elem_of_key 2, elem_of_key 1]" "length file_21 = 201"
proof -
  have *: "\<forall>e\<in>set [elem_of_key 2, elem_of_key 1]. length (carr e) = ELEM_MAX_LEN"
    by (simp add: elem_of_key_def le32_def ELEM_MAX_LEN_def)
  show "elems_of file_21 2 = [elem_of_key 2, elem_of_key 1]" "length file_21 = 201"
    using elems_of_bytes_of [OF *, of "[7]"] length_bytes_of [OF *]
    by (simp_all add: file_21_def ELEM_MAX_LEN_def numeral_2_eq_2)
qed

definition good_env :: sort_env where
  "good_env = \<lparr> access_ok = True, open_in_ok = True, open_out_ok = True, mmap_ok = True, written = (\<lambda>n. n) \<rparr>"

theorem sort_main_sorts_witness:
  "\<exists>out. sort_main any_sched good_env 4 2 file_21 = Ok (Some out) \<and> length out = 201 \<and>
     elems_of out 2 = [elem_of_key 1, elem_of_key 2]"
proof -
  have n: "length file_21 div ELEM_MAX_LEN = 2"
    by (simp add: elems_file_21 ELEM_MAX_LEN_def)
  have e: "access_ok good_env" "open_in_ok good_env" "open_out_ok good_env" "mmap_ok good_env" "written good_env k = k" for k
    by (simp_all add: good_env_def)
  have "keys_ok (set (elems_of file_21 (length file_21 div ELEM_MAX_LEN)))"
    unfolding n unfolding elems_file_21 by (rule keys_ok_small) (simp add: key_elem_of_key)
  from sort_main_sorts [OF _ e(1-4) _ this, of 2 any_sched]
  show ?thesis unfolding n unfolding elems_file_21 e(5) by (auto simp: key_elem_of_key)
qed

text \<open>
  C24: up to 32 elements the threaded merge sort is correct: it is the stable sort of the range.
\<close>

theorem merge_sort_parallel_small:
  assumes "sched_ok sc" "0 \<le> l" "l \<le> r" "r < int (length arr)" "r - l < 32" "keys_ok (set arr)"
  shows "merge_sort_parallel sc arr l r = put_at arr (nat l) (sort_key key (run_of arr l r))"
proof -
  have ok: "run_ok arr l r" using assms by (auto simp: run_ok_def)
  have "length (run_of arr l r) \<le> 32" using assms(5) length_run_of [OF ok] by simp
  moreover have "keys_ok (set (run_of arr l r))"
    using keys_ok_subset [OF assms(6) set_get_at_subset] by (simp add: run_of_def)
  ultimately show ?thesis
    using merge_sort_threaded_put_at [OF assms(1) ok] tsort_small
    by (simp add: merge_sort_parallel_def)
qed

theorem merge_sort_parallel_small_witness:
  "merge_sort_parallel any_sched [elem_of_key 3, elem_of_key 1, elem_of_key 2] 0 2 =
     [elem_of_key 1, elem_of_key 2, elem_of_key 3]"
proof -
  have "sched_ok any_sched" by (auto simp: sched_ok_def any_sched_def)
  moreover have "keys_ok (set [elem_of_key 3, elem_of_key 1, elem_of_key 2])"
    by (rule keys_ok_small) (simp add: key_elem_of_key)
  ultimately show ?thesis
    using merge_sort_parallel_small [of any_sched 0 2 "[elem_of_key 3, elem_of_key 1, elem_of_key 2]"]
    by (simp add: run_of_def get_at_def put_at_def key_elem_of_key)
qed

text \<open>
  C25: from 34 elements on the parallel merge can lose the order. When the first run is sorted, has more than
  16 elements but no more than the second run, and all its keys are below the pivot (the middle of the
  second run), \<^verbatim>\<open>find_split_point\<close> stops at the last element of the run instead of behind it, that
  element goes to the right of the pivot, and the merged range is not sorted.
\<close>

theorem merge_parallel_misplaces:
  assumes "sched_ok sc" "0 \<le> l" "l + 16 \<le> m" "2 * m + 1 \<le> r + l" "r < int (length arr)"
    and "keys_ok (set arr)"
    and "sorted (map key (run_of arr l m))"
    and "\<forall>x\<in>set (run_of arr l m). key x < key (arr ! nat ((m + 1 + r) div 2))"
  shows "\<not> sorted (map key (run_of (merge_parallel sc arr l m r) l r))"
proof -
  have ok: "run_ok arr l m" "run_ok arr (m + 1) r" using assms by (auto simp: run_ok_def)
  let ?xs = "run_of arr l m" and ?ys = "run_of arr (m + 1) r"
  have len: "length ?xs = nat (m - l + 1)" "length ?ys = nat (r - m)"
    using length_run_of [OF ok(1)] length_run_of [OF ok(2)] by simp_all
  have piv: "?ys ! ((length ?ys - 1) div 2) = arr ! nat ((m + 1 + r) div 2)"
  proof -
    have "(length ?ys - 1) div 2 = nat ((m + 1 + r) div 2 - (m + 1))"
      using len(2) assms(2-4) by linarith
    then show ?thesis
      using nth_run_of [OF ok(2), of "(m + 1 + r) div 2"] assms(2-4) by simp
  qed
  have "\<not> sorted (map key (pmerge ?xs ?ys))"
  proof (rule pmerge_unsorted)
    show "keys_ok (set ?xs \<union> set ?ys)"
      by (intro keys_ok_subset [OF assms(6)] Un_least) (simp_all add: run_of_def set_get_at_subset)
  qed (use assms len piv in auto)
  moreover have "nat l + length (pmerge ?xs ?ys) = nat r + 1" "nat r + 1 \<le> length arr"
    using len assms(2-5) by auto
  ultimately show ?thesis
    using merge_parallel_put_at [OF assms(1) ok] assms(2-4)
    by (simp add: run_of_def get_put_same)
qed

definition ascending_34 :: "elem list" where
  "ascending_34 = map elem_of_key [0..33]"

lemma nth_ascending_34: "0 \<le> i \<Longrightarrow> i < 34 \<Longrightarrow> key (ascending_34 ! nat i) = i"
  by (simp add: ascending_34_def key_elem_of_key)

lemma keys_ok_ascending_34: "keys_ok (set ascending_34)"
  by (rule keys_ok_small) (auto simp: ascending_34_def key_elem_of_key)

lemma run_of_ascending_34: "map key (run_of ascending_34 0 16) = [0..16]"
  by (simp add: ascending_34_def run_of_def get_at_def take_map key_elem_of_key upto.simps)

theorem merge_parallel_misplaces_witness:
  "\<not> sorted (map key (run_of (merge_parallel any_sched ascending_34 0 16 33) 0 33))"
proof (rule merge_parallel_misplaces)
  show "sched_ok any_sched" by (auto simp: sched_ok_def any_sched_def)
  show "sorted (map key (run_of ascending_34 0 16))"
    by (simp add: run_of_ascending_34)
  have "\<forall>k\<in>set (map key (run_of ascending_34 0 16)). k < 25"
    unfolding run_of_ascending_34 by simp
  then show "\<forall>x\<in>set (run_of ascending_34 0 16). key x < key (ascending_34 ! nat ((16 + 1 + 33) div 2))"
    using nth_ascending_34 [of 25] by simp
qed (simp_all add: keys_ok_ascending_34, simp add: ascending_34_def)

text \<open>
  C26: the binary search for the split point, on an array sorted between \<^verbatim>\<open>l\<close> and \<^verbatim>\<open>r - 1\<close>, returns
  an index between \<^verbatim>\<open>l\<close> and \<^verbatim>\<open>r\<close> with all smaller keys to its left and all keys from it up to \<^verbatim>\<open>r - 1\<close>
  not below the pivot. The key at \<^verbatim>\<open>r\<close> itself is never inspected.
\<close>

theorem find_split_point_partitions:
  assumes "0 \<le> l" "l \<le> r" "r \<le> int (length arr)" "keys_ok (insert p (set arr))"
    and "\<forall>i j. l \<le> i \<and> i \<le> j \<and> j < r \<longrightarrow> key (arr ! nat i) \<le> key (arr ! nat j)"
  shows "l \<le> find_split_point arr l r p \<and> find_split_point arr l r p \<le> r \<and>
    (\<forall>i. l \<le> i \<and> i < find_split_point arr l r p \<longrightarrow> key (arr ! nat i) < key p) \<and>
    (\<forall>i. find_split_point arr l r p \<le> i \<and> i < r \<longrightarrow> key p \<le> key (arr ! nat i))"
  using split_loop_spec [OF assms(1-4)] split_loop_bounds [of l arr r p] assms
  by (auto simp: find_split_point_def)

theorem find_split_point_partitions_witness:
  "find_split_point ascending_34 3 20 (elem_of_key 9) = 9"
proof -
  have "keys_ok (insert (elem_of_key 9) (set ascending_34))"
    by (rule keys_ok_small) (auto simp: ascending_34_def key_elem_of_key)
  moreover have "(20::int) \<le> int (length ascending_34)" by (simp add: ascending_34_def)
  moreover have "\<forall>i j. 3 \<le> i \<and> i \<le> j \<and> j < 20 \<longrightarrow>
      key (ascending_34 ! nat i) \<le> key (ascending_34 ! nat j)"
    by (auto simp: nth_ascending_34)
  ultimately have *:
      "(\<forall>i. 3 \<le> i \<and> i < find_split_point ascending_34 3 20 (elem_of_key 9) \<longrightarrow> key (ascending_34 ! nat i) < 9)"
      "(\<forall>i. find_split_point ascending_34 3 20 (elem_of_key 9) \<le> i \<and> i < 20 \<longrightarrow> 9 \<le> key (ascending_34 ! nat i))"
    using find_split_point_partitions [of 3 20 ascending_34 "elem_of_key 9"]
    by (simp_all add: key_elem_of_key)
  show ?thesis
    using *(1) [rule_format, of 9] *(2) [rule_format, of 8] nth_ascending_34 [of 8] nth_ascending_34 [of 9]
    by linarith
qed

end
