(* ===== verification/ParallelSort_Steps.thy ===== *)
theory ParallelSort_Steps
  imports ParallelSort_Threads
begin

text \<open>
  The threaded merge sort of \<^verbatim>\<open>src/parallel-sort/mergesort.c\<close> at the level of single memory accesses. The memory
  has the input array, a buffer for every call of \<^verbatim>\<open>malloc\<close>, and the argument structures that a caller
  fills and the called function or thread reads through a pointer. A program is a tree of reads, writes and
  pairs of threads; its steps interleave in every possible way. An element or a structure is read or written in one step. The functions ending in \<open>_steps\<close> translate
  the C functions; a function takes the program that runs behind it as its last argument.
\<close>

section \<open>Programs and their steps\<close>

text \<open>
  A call is named by its path from the first call, and its buffer and its argument structure by that path:
  \<^verbatim>\<open>malloc\<close> and the stack give every call memory of its own.
\<close>

type_synonym path = "nat list"

datatype array = Input | Buffer path

datatype loc = Cell array int | Args path

datatype args =
    SortArgs array int int
  | MergeArgs array int int int int array int
  | CopyArgs array int array int int

datatype val = El (elem_in: elem) | Ar (args_in: args)

type_synonym mem = "loc \<Rightarrow> val"

text \<open>
  \<open>Par p q r\<close> creates a thread that runs \<open>p\<close>, goes on with \<open>q\<close>, joins the thread and continues with \<open>r\<close>.
  \<open>Abort\<close> is a call that is nested too deeply or that gets a structure of the wrong kind.
\<close>

datatype prog =
    Done
  | Read loc "val \<Rightarrow> prog"
  | Write loc val prog
  | Par prog prog prog
  | Abort

inductive step :: "prog \<times> mem \<Rightarrow> prog \<times> mem \<Rightarrow> bool" where
  read_step: "step (Read a k, m) (k (m a), m)"
| write_step: "step (Write a v p, m) (p, m(a := v))"
| spawned_step: "step (p, m) (p', m') \<Longrightarrow> step (Par p q r, m) (Par p' q r, m')"
| own_step: "step (q, m) (q', m') \<Longrightarrow> step (Par p q r, m) (Par p q' r, m')"
| join_step: "step (Par Done Done r, m) (r, m)"

inductive_cases step_DoneE: "step (Done, m) c"
inductive_cases step_AbortE: "step (Abort, m) c"
inductive_cases step_ReadE: "step (Read a k, m) c"
inductive_cases step_WriteE: "step (Write a v p, m) c"
inductive_cases step_ParE: "step (Par p q r, m) c"

text \<open>The run in which every thread finishes before its creator goes on.\<close>

primrec exec :: "prog \<Rightarrow> mem \<Rightarrow> mem" where
  "exec Done m = m"
| "exec (Read a k) m = exec (k (m a)) m"
| "exec (Write a v p) m = exec p (m(a := v))"
| "exec (Par p q r) m = exec r (exec q (exec p m))"
| "exec Abort m = m"

text \<open>
  The program reads only in \<open>R\<close> and writes only in \<open>W\<close>, two threads that run at the same time do not access
  what the other one writes, and it does not abort.
\<close>

primrec safe :: "prog \<Rightarrow> loc set \<Rightarrow> loc set \<Rightarrow> mem \<Rightarrow> bool" where
  "safe Done R W m \<longleftrightarrow> True"
| "safe (Read a k) R W m \<longleftrightarrow> a \<in> R \<and> safe (k (m a)) R W m"
| "safe (Write a v p) R W m \<longleftrightarrow> a \<in> W \<and> safe p R W (m(a := v))"
| "safe (Par p q r) R W m \<longleftrightarrow>
     (\<exists>R1 W1 R2 W2. R1 \<subseteq> R \<and> W1 \<subseteq> W \<and> R2 \<subseteq> R \<and> W2 \<subseteq> W \<and> W1 \<inter> (R2 \<union> W2) = {} \<and> W2 \<inter> (R1 \<union> W1) = {} \<and>
        safe p R1 W1 m \<and> safe q R2 W2 m) \<and> safe r R W (exec q (exec p m))"
| "safe Abort R W m \<longleftrightarrow> False"

lemma safe_ParE:
  assumes "safe (Par p q r) R W m"
  obtains R1 W1 R2 W2 where "R1 \<subseteq> R" "W1 \<subseteq> W" "R2 \<subseteq> R" "W2 \<subseteq> W" "W1 \<inter> (R2 \<union> W2) = {}" "W2 \<inter> (R1 \<union> W1) = {}"
    "safe p R1 W1 m" "safe q R2 W2 m" "safe r R W (exec q (exec p m))"
  using assms by auto

section \<open>Threads that do not interfere\<close>

text \<open>A program changes nothing outside \<open>W\<close>, and what it does depends on \<open>R\<close> and \<open>W\<close> only.\<close>

lemma safe_local:
  "safe p R W m \<Longrightarrow>
     (\<forall>x. x \<notin> W \<longrightarrow> exec p m x = m x) \<and>
     (\<forall>m'. (\<forall>x\<in>R \<union> W. m' x = m x) \<longrightarrow> safe p R W m' \<and> (\<forall>x\<in>R \<union> W. exec p m' x = exec p m x))"
proof (induction p arbitrary: R W m)
  case (Par p q r)
  obtain R1 W1 R2 W2 where d: "R1 \<subseteq> R" "W1 \<subseteq> W" "R2 \<subseteq> R" "W2 \<subseteq> W" "W1 \<inter> (R2 \<union> W2) = {}" "W2 \<inter> (R1 \<union> W1) = {}"
    and s: "safe p R1 W1 m" "safe q R2 W2 m" "safe r R W (exec q (exec p m))"
    using safe_ParE [OF Par.prems] .
  note P = Par.IH(1) [OF s(1)] and Q = Par.IH(2) [OF s(2)] and Rr = Par.IH(3) [OF s(3)]
  have "\<forall>x\<in>R2 \<union> W2. exec p m x = m x" using P d(5) by blast
  then have sq: "safe q R2 W2 (exec p m)" using Q by blast
  note Q1 = Par.IH(2) [OF sq]
  have frame: "exec (Par p q r) m x = m x" if "x \<notin> W" for x
  proof -
    have "x \<notin> W1" "x \<notin> W2" using that d by blast+
    then have "exec p m x = m x" "exec q (exec p m) x = exec p m x" "exec r (exec q (exec p m)) x = exec q (exec p m) x"
      using that P Q1 Rr by blast+
    then show ?thesis by simp
  qed
  have agree: "safe (Par p q r) R W m' \<and> (\<forall>x\<in>R \<union> W. exec (Par p q r) m' x = exec (Par p q r) m x)"
    if m': "\<forall>x\<in>R \<union> W. m' x = m x" for m'
  proof -
    have p': "safe p R1 W1 m'" "\<forall>x\<in>R1 \<union> W1. exec p m' x = exec p m x" using P m' d by blast+
    have q': "safe q R2 W2 m'" using Q m' d by blast
    have a1: "exec p m' x = exec p m x" if "x \<in> R \<union> W" for x
    proof (cases "x \<in> R1 \<union> W1")
      case True
      then show ?thesis using p'(2) by blast
    next
      case False
      then show ?thesis using Par.IH(1) [OF p'(1)] P m' that by auto
    qed
    then have q1: "safe q R2 W2 (exec p m')" "\<forall>x\<in>R2 \<union> W2. exec q (exec p m') x = exec q (exec p m) x" using Q1 d by blast+
    have a2: "exec q (exec p m') x = exec q (exec p m) x" if "x \<in> R \<union> W" for x
    proof (cases "x \<in> R2 \<union> W2")
      case True
      then show ?thesis using q1(2) by blast
    next
      case False
      then show ?thesis using Par.IH(2) [OF q1(1)] Q1 a1 [OF that] by auto
    qed
    then have "safe r R W (exec q (exec p m'))" "\<forall>x\<in>R \<union> W. exec r (exec q (exec p m')) x = exec r (exec q (exec p m)) x"
      using Rr by blast+
    then show ?thesis using d p'(1) q' by auto
  qed
  show ?case using frame agree by blast
next
  case (Write a v p)
  then have w: "a \<in> W" "safe p R W (m(a := v))" by simp_all
  note IH = Write.IH [OF w(2)]
  have "exec (Write a v p) m x = m x" if "x \<notin> W" for x
    using IH that w(1) by (metis exec.simps(3) fun_upd_other)
  moreover have "safe (Write a v p) R W m' \<and> (\<forall>x\<in>R \<union> W. exec (Write a v p) m' x = exec (Write a v p) m x)"
    if "\<forall>x\<in>R \<union> W. m' x = m x" for m'
  proof -
    have "\<forall>x\<in>R \<union> W. (m'(a := v)) x = (m(a := v)) x" using that by simp
    with IH have "safe p R W (m'(a := v)) \<and> (\<forall>x\<in>R \<union> W. exec p (m'(a := v)) x = exec p (m(a := v)) x)" by blast
    then show ?thesis using w(1) by simp
  qed
  ultimately show ?case by blast
next
  case (Read a k)
  then have r: "a \<in> R" "safe (k (m a)) R W m" by simp_all
  note IH = Read.IH [OF rangeI r(2)]
  have "safe (Read a k) R W m' \<and> (\<forall>x\<in>R \<union> W. exec (Read a k) m' x = exec (Read a k) m x)" if "\<forall>x\<in>R \<union> W. m' x = m x" for m'
  proof -
    have "m' a = m a" using that r(1) by blast
    moreover have "safe (k (m a)) R W m' \<and> (\<forall>x\<in>R \<union> W. exec (k (m a)) m' x = exec (k (m a)) m x)" using IH that by blast
    ultimately show ?thesis using r(1) by simp
  qed
  moreover have "exec (Read a k) m x = m x" if "x \<notin> W" for x using IH that by (metis exec.simps(2))
  ultimately show ?case by blast
qed simp_all

lemma safe_frame: "safe p R W m \<Longrightarrow> x \<notin> W \<Longrightarrow> exec p m x = m x"
  using safe_local by blast

lemma safe_agree:
  assumes "safe p R W m" "\<And>x. x \<in> R \<union> W \<Longrightarrow> m' x = m x"
  shows "safe p R W m'" "x \<in> R \<union> W \<Longrightarrow> exec p m' x = exec p m x"
  using safe_local [OF assms(1)] assms(2) by blast+

text \<open>Two threads that do not interfere: what each one does when it runs alone, put together.\<close>

lemma exec_both:
  assumes "safe p R1 W1 m" "safe q R2 W2 m" "W1 \<inter> (R2 \<union> W2) = {}" "W2 \<inter> (R1 \<union> W1) = {}"
  shows "safe q R2 W2 (exec p m)" "exec q (exec p m) x = (if x \<in> W1 then exec p m x else exec q m x)"
proof -
  have a: "exec p m x = m x" if "x \<in> R2 \<union> W2" for x using safe_frame [OF assms(1)] that assms(3) by blast
  show s: "safe q R2 W2 (exec p m)" by (rule safe_agree(1) [OF assms(2) a])
  consider "x \<in> W1" "x \<notin> W2" | "x \<notin> W1" "x \<in> R2 \<union> W2" | "x \<notin> W1" "x \<notin> W2" using assms(3) by blast
  then show "exec q (exec p m) x = (if x \<in> W1 then exec p m x else exec q m x)"
    using safe_frame [OF s] safe_frame [OF assms(1)] safe_frame [OF assms(2)] safe_agree(2) [OF assms(2) a, of x]
    by cases simp_all
qed

text \<open>A step in any interleaving leads to a program that does not interfere either, with the same final memory.\<close>

lemma step_safe:
  assumes "step (p, m) (p', m')" "safe p R W m"
  shows "safe p' R W m' \<and> exec p' m' = exec p m \<and> (\<forall>x. x \<notin> W \<longrightarrow> m' x = m x)"
  using assms
proof (induction "(p, m)" "(p', m')" arbitrary: p m p' m' R W rule: step.induct)
  case (spawned_step p m p' m' q r)
  obtain R1 W1 R2 W2 where d: "R1 \<subseteq> R" "W1 \<subseteq> W" "R2 \<subseteq> R" "W2 \<subseteq> W" "W1 \<inter> (R2 \<union> W2) = {}" "W2 \<inter> (R1 \<union> W1) = {}"
    and s: "safe p R1 W1 m" "safe q R2 W2 m" "safe r R W (exec q (exec p m))"
    using safe_ParE [OF spawned_step.prems] .
  have p': "safe p' R1 W1 m'" "exec p' m' = exec p m" "\<forall>x. x \<notin> W1 \<longrightarrow> m' x = m x" using spawned_step.hyps(2) [OF s(1)] by auto
  moreover have "safe q R2 W2 m'" by (rule safe_agree(1) [OF s(2)]) (use p'(3) d(5) in blast)
  ultimately have "safe (Par p' q r) R W m'" using d s(3) by auto
  moreover have "\<forall>x. x \<notin> W \<longrightarrow> m' x = m x" using p'(3) d(2) by blast
  ultimately show ?case using p'(2) by simp
next
  case (own_step q m q' m' p r)
  obtain R1 W1 R2 W2 where d: "R1 \<subseteq> R" "W1 \<subseteq> W" "R2 \<subseteq> R" "W2 \<subseteq> W" "W1 \<inter> (R2 \<union> W2) = {}" "W2 \<inter> (R1 \<union> W1) = {}"
    and s: "safe p R1 W1 m" "safe q R2 W2 m" "safe r R W (exec q (exec p m))"
    using safe_ParE [OF own_step.prems] .
  have q': "safe q' R2 W2 m'" "exec q' m' = exec q m" "\<forall>x. x \<notin> W2 \<longrightarrow> m' x = m x" using own_step.hyps(2) [OF s(2)] by auto
  have a: "m' x = m x" if "x \<in> R1 \<union> W1" for x using q'(3) d(6) that by blast
  have p': "safe p R1 W1 m'" by (rule safe_agree(1) [OF s(1) a])
  have "exec q' (exec p m') x = exec q (exec p m) x" for x
    unfolding exec_both(2) [OF p' q'(1) d(5,6)] exec_both(2) [OF s(1,2) d(5,6)] q'(2)
    using safe_agree(2) [OF s(1) a] by auto
  then have e: "exec q' (exec p m') = exec q (exec p m)" by (rule ext)
  then have "safe (Par p q' r) R W m'" using d s(3) p' q'(1) by auto
  moreover have "\<forall>x. x \<notin> W \<longrightarrow> m' x = m x" using q'(3) d(4) by blast
  ultimately show ?case using e by simp
qed auto

lemma steps_safe:
  assumes "step\<^sup>*\<^sup>* (p, m) (p', m')" "safe p R W m"
  shows "safe p' R W m' \<and> exec p' m' = exec p m"
  using assms(1)
proof (induction "(p', m')" arbitrary: p' m' rule: rtranclp_induct)
  case base
  then show ?case using assms(2) by simp
next
  case (step c p' m')
  obtain p1 m1 where c: "c = (p1, m1)" by (cases c)
  have "safe p1 R W m1" "exec p1 m1 = exec p m" using step.hyps(3) [OF c] by simp_all
  then show ?case using step_safe [OF step.hyps(2) [unfolded c]] by simp
qed

lemma safe_progress: "safe p R W m \<Longrightarrow> p \<noteq> Done \<Longrightarrow> \<exists>c. step (p, m) c"
proof (induction p arbitrary: R W m)
  case (Par p q r)
  obtain R1 W1 R2 W2 where s: "safe p R1 W1 m" "safe q R2 W2 m" using safe_ParE [OF Par.prems(1)] .
  show ?case
  proof (cases "p = Done \<and> q = Done")
    case True
    then show ?thesis using join_step by blast
  next
    case False
    then show ?thesis using Par.IH(1) [OF s(1)] Par.IH(2) [OF s(2)] spawned_step own_step by (metis surj_pair)
  qed
qed (auto intro: read_step write_step)

text \<open>No program runs forever, whatever other threads do to the memory between its steps.\<close>

definition next_prog :: "prog \<Rightarrow> prog \<Rightarrow> bool" where
  "next_prog p' p \<longleftrightarrow> (\<exists>m m'. step (p, m) (p', m'))"

lemma Par_accp:
  assumes "Wellfounded.accp next_prog p" "Wellfounded.accp next_prog q" "Wellfounded.accp next_prog r"
  shows "Wellfounded.accp next_prog (Par p q r)"
  using assms(1,2)
proof (induction p arbitrary: q rule: accp.induct)
  case (accI p)
  note outer = accI.IH
  show ?case using accI.prems
  proof (induction q rule: accp.induct)
    case (accI q)
    have q: "Wellfounded.accp next_prog q" using accI.hyps by (rule accp.accI)
    show ?case
    proof (rule accp.accI)
      fix c assume "next_prog c (Par p q r)"
      then have "(\<exists>p'. c = Par p' q r \<and> next_prog p' p) \<or> (\<exists>q'. c = Par p q' r \<and> next_prog q' q) \<or> c = r"
        by (auto simp: next_prog_def elim!: step_ParE)
      then show "Wellfounded.accp next_prog c" using outer [OF _ q] accI.IH assms(3) by blast
    qed
  qed
qed

lemma next_prog_accp: "Wellfounded.accp next_prog p"
proof (induction p)
  case (Par p q r)
  then show ?case by (rule Par_accp)
next
  case (Read a k)
  show ?case by (rule accp.accI) (use Read in \<open>auto simp: next_prog_def elim!: step_ReadE\<close>)
next
  case (Write a v p)
  show ?case by (rule accp.accI) (use Write in \<open>auto simp: next_prog_def elim!: step_WriteE\<close>)
qed (rule accp.accI; auto simp: next_prog_def elim!: step_DoneE step_AbortE)+

lemma no_endless_run: "\<not> (\<forall>i. step (c i) (c (Suc i)))"
proof
  assume s: "\<forall>i. step (c i) (c (Suc i))"
  have "\<forall>i. p \<noteq> fst (c i)" for p
    using next_prog_accp [of p]
  proof (induction rule: accp.induct)
    case (accI p)
    show ?case
    proof (intro allI notI)
      fix i assume "p = fst (c i)"
      then have "next_prog (fst (c (Suc i))) p" unfolding next_prog_def using s by (metis prod.collapse)
      then show False using accI.IH by blast
    qed
  qed
  then show False by blast
qed

lemma safe_finishes:
  assumes "safe p R W m"
  shows "step\<^sup>*\<^sup>* (p, m) (Done, exec p m)"
  using next_prog_accp [of p] assms
proof (induction arbitrary: m rule: accp.induct)
  case (accI p)
  show ?case
  proof (cases "p = Done")
    case False
    then obtain p' m' where s: "step (p, m) (p', m')" using safe_progress [OF accI.prems] by (metis surj_pair)
    then have "next_prog p' p" by (auto simp: next_prog_def)
    then have "step\<^sup>*\<^sup>* (p', m') (Done, exec p' m')" using accI.IH step_safe [OF s accI.prems] by blast
    then show ?thesis using s step_safe [OF s accI.prems] by (metis converse_rtranclp_into_rtranclp)
  qed simp
qed

section \<open>Following a program\<close>

text \<open>
  The program gets from one point to another within \<open>R\<close> and \<open>W\<close>; pairs of threads that do not interfere are
  passed in one go.
\<close>

inductive go :: "loc set \<Rightarrow> loc set \<Rightarrow> prog \<times> mem \<Rightarrow> prog \<times> mem \<Rightarrow> bool" for R W where
  go_refl [simp]: "go R W c c"
| go_read: "a \<in> R \<Longrightarrow> go R W (k (m a), m) c \<Longrightarrow> go R W (Read a k, m) c"
| go_write: "a \<in> W \<Longrightarrow> go R W (p, m(a := v)) c \<Longrightarrow> go R W (Write a v p, m) c"
| go_par: "R1 \<subseteq> R \<Longrightarrow> W1 \<subseteq> W \<Longrightarrow> R2 \<subseteq> R \<Longrightarrow> W2 \<subseteq> W \<Longrightarrow> W1 \<inter> (R2 \<union> W2) = {} \<Longrightarrow> W2 \<inter> (R1 \<union> W1) = {} \<Longrightarrow>
    safe p R1 W1 m \<Longrightarrow> safe q R2 W2 m \<Longrightarrow> go R W (r, exec q (exec p m)) c \<Longrightarrow> go R W (Par p q r, m) c"

lemma go_trans: "go R W c1 c2 \<Longrightarrow> go R W c2 c3 \<Longrightarrow> go R W c1 c3"
  by (induction rule: go.induct) (auto intro: go.intros)

lemma go_mono:
  assumes "go R W c c'" "R \<subseteq> R'" "W \<subseteq> W'"
  shows "go R' W' c c'"
  using assms(1)
proof (induction rule: go.induct)
  case (go_par R1 W1 R2 W2 p m q r c)
  then show ?case using assms(2,3) by (intro go.go_par [of R1 R' W1 W' R2 W2]) auto
qed (use assms(2,3) in \<open>auto intro: go.intros\<close>)

lemma go_exec: "go R W (p, m) (p', m') \<Longrightarrow> exec p m = exec p' m'"
  by (induction "(p, m)" "(p', m')" arbitrary: p m rule: go.induct) auto

lemma go_safe: "go R W (p, m) (p', m') \<Longrightarrow> safe p' R W m' \<Longrightarrow> safe p R W m"
  by (induction "(p, m)" "(p', m')" arbitrary: p m rule: go.induct) auto

lemma go_frame:
  assumes "go R W (p, m) (p', m')" "x \<notin> W"
  shows "m' x = m x"
  using assms(1)
proof (induction "(p, m)" "(p', m')" arbitrary: p m rule: go.induct)
  case (go_par R1 W1 R2 W2 p m q r)
  have "x \<notin> W1" "x \<notin> W2" using go_par.hyps(2,4) assms(2) by blast+
  moreover have "m' x = exec q (exec p m) x" using go_par.hyps by simp
  ultimately show ?case
    using exec_both(2) [OF go_par.hyps(7,8,5,6), of x] safe_frame [OF go_par.hyps(8)] by simp
qed (use assms(2) in auto)

lemma go_Done: "go R W (p, m) (Done, m') \<Longrightarrow> safe p R W m \<and> exec p m = m'"
  using go_safe go_exec by fastforce

lemma go_threads:
  assumes "go R1 W1 (p, m) (Done, m1)" "go R2 W2 (q, m) (Done, m2)" "W1 \<inter> (R2 \<union> W2) = {}" "W2 \<inter> (R1 \<union> W1) = {}"
    "R1 \<subseteq> R" "W1 \<subseteq> W" "R2 \<subseteq> R" "W2 \<subseteq> W"
  shows "go R W (Par p q r, m) (r, \<lambda>x. if x \<in> W1 then m1 x else m2 x)"
proof -
  note p = go_Done [OF assms(1)] and q = go_Done [OF assms(2)]
  have "exec q (exec p m) = (\<lambda>x. if x \<in> W1 then m1 x else m2 x)"
    using exec_both(2) [of p R1 W1 m q R2 W2] p q assms(3,4) by (intro ext) simp
  then show ?thesis
    by (intro go_par [OF assms(5-8,3,4)]) (use p q in simp_all)
qed

section \<open>Arrays in memory\<close>

definition mirror :: "mem \<Rightarrow> array \<Rightarrow> elem list \<Rightarrow> bool" where
  "mirror m a xs \<longleftrightarrow> (\<forall>i<length xs. elem_in (m (Cell a (int i))) = xs ! i)"

lemma mirror_read: "mirror m a xs \<Longrightarrow> i < length xs \<Longrightarrow> elem_in (m (Cell a (int i))) = xs ! i"
  by (simp add: mirror_def)

lemma mirror_read_int: "mirror m a xs \<Longrightarrow> 0 \<le> i \<Longrightarrow> i < int (length xs) \<Longrightarrow> elem_in (m (Cell a i)) = xs ! nat i"
  using mirror_read [of m a xs "nat i"] by simp

lemma mirror_write: "mirror m a xs \<Longrightarrow> mirror (m(Cell a (int i) := El e)) a (xs[i := e])"
  by (auto simp: mirror_def nth_list_update)

lemma mirror_other: "mirror m a xs \<Longrightarrow> (\<And>i. x \<noteq> Cell a i) \<Longrightarrow> mirror (m(x := v)) a xs"
  by (auto simp: mirror_def)

lemma mirror_frame: "mirror m a xs \<Longrightarrow> (\<And>i. 0 \<le> i \<Longrightarrow> i < int (length xs) \<Longrightarrow> m' (Cell a i) = m (Cell a i)) \<Longrightarrow> mirror m' a xs"
  by (simp add: mirror_def)

lemma mirror_exists: "\<exists>xs. length xs = n \<and> mirror m a xs"
  by (rule exI [of _ "map (\<lambda>i. elem_in (m (Cell a (int i)))) [0..<n]"]) (simp add: mirror_def)

end
