(* ===== verification/ParallelSort_Interleavings.thy ===== *)
theory ParallelSort_Interleavings
  imports ParallelSort_Steps
begin

text \<open>
  The C functions of the threaded merge sort as programs of theory \<open>ParallelSort_Steps\<close>, and the proof that no two
  of their threads interfere: every interleaving of their accesses ends with the array that the functions of
  theory \<open>ParallelSort\<close> compute. An element is read and written as a whole.
\<close>

section \<open>The programs\<close>

function copy_steps :: "array \<Rightarrow> int \<Rightarrow> array \<Rightarrow> int \<Rightarrow> int \<Rightarrow> int \<Rightarrow> prog \<Rightarrow> prog" where
  "copy_steps dst d src s n i k =
     (if i < n then Read (Cell src (s + i)) (\<lambda>v. Write (Cell dst (d + i)) (El (elem_in v)) (copy_steps dst d src s n (i + 1) k))
      else k)"
  by pat_completeness auto
termination
  by (relation "measure (\<lambda>(dst, d, src, s, n, i, k). nat (n - i))") auto

declare copy_steps.simps [simp del]

definition copy_arr_serial_steps :: "path \<Rightarrow> prog \<Rightarrow> prog" where
  "copy_arr_serial_steps w k =
     Read (Args w) (\<lambda>v. case args_in v of CopyArgs dst d src s n \<Rightarrow> copy_steps dst d src s n 0 k | _ \<Rightarrow> Abort)"

text \<open>The two loops of \<^verbatim>\<open>copy_arr_parallel\<close> that fill \<^verbatim>\<open>args\<close> and create the threads.\<close>

fun copy_args_steps :: "array \<Rightarrow> int \<Rightarrow> array \<Rightarrow> int \<Rightarrow> path \<Rightarrow> nat list \<Rightarrow> prog \<Rightarrow> prog" where
  "copy_args_steps dst d src chunk_size w [] k = k"
| "copy_args_steps dst d src chunk_size w (i # is) k =
     Write (Args (w @ [i])) (Ar (CopyArgs dst (d + int i * chunk_size) src (int i * chunk_size) chunk_size))
       (copy_args_steps dst d src chunk_size w is k)"

fun copy_threads_steps :: "path \<Rightarrow> nat list \<Rightarrow> (prog \<Rightarrow> prog) \<Rightarrow> prog \<Rightarrow> prog" where
  "copy_threads_steps w [] own k = own k"
| "copy_threads_steps w (i # is) own k = Par (copy_arr_serial_steps (w @ [i]) Done) (copy_threads_steps w is own Done) k"

definition copy_arr_parallel_steps :: "nat \<Rightarrow> array \<Rightarrow> int \<Rightarrow> array \<Rightarrow> int \<Rightarrow> path \<Rightarrow> prog \<Rightarrow> prog" where
  "copy_arr_parallel_steps np dst d src n w k =
     (let chunk_size = n div int np; last = int (np - 1) * chunk_size
      in copy_args_steps dst d src chunk_size w [0..<np - 1]
           (copy_threads_steps w [0..<np - 1]
              (\<lambda>k. Write (Args (w @ [np - 1])) (Ar (CopyArgs dst (d + last) src last (n - chunk_size * int (np - 1))))
                     (copy_arr_serial_steps (w @ [np - 1]) k)) k))"

fun insertion_inner_steps :: "array \<Rightarrow> int \<Rightarrow> elem \<Rightarrow> nat \<Rightarrow> prog \<Rightarrow> prog" where
  "insertion_inner_steps arr b temp 0 k = Write (Cell arr b) (El temp) k"
| "insertion_inner_steps arr b temp (Suc j) k =
     Read (Cell arr (b + int j)) (\<lambda>x.
       if compare_elem (elem_in x) temp > 0
       then Read (Cell arr (b + int j)) (\<lambda>v. Write (Cell arr (b + int (Suc j))) (El (elem_in v)) (insertion_inner_steps arr b temp j k))
       else Write (Cell arr (b + int (Suc j))) (El temp) k)"

function insertion_outer_steps :: "array \<Rightarrow> int \<Rightarrow> nat \<Rightarrow> nat \<Rightarrow> prog \<Rightarrow> prog" where
  "insertion_outer_steps arr b i n k =
     (if i < n then Read (Cell arr (b + int i)) (\<lambda>t. insertion_inner_steps arr b (elem_in t) i (insertion_outer_steps arr b (Suc i) n k))
      else k)"
  by pat_completeness auto
termination
  by (relation "measure (\<lambda>(arr, b, i, n, k). n - i)") auto

declare insertion_outer_steps.simps [simp del]

definition insertion_sort_steps :: "array \<Rightarrow> int \<Rightarrow> int \<Rightarrow> prog \<Rightarrow> prog" where
  "insertion_sort_steps arr b n k = insertion_outer_steps arr b 1 (nat n) k"

text \<open>The loops of \<^verbatim>\<open>merge_serial_2\<close>.\<close>

function merge_main_steps ::
  "array \<Rightarrow> int \<Rightarrow> nat \<Rightarrow> int \<Rightarrow> nat \<Rightarrow> array \<Rightarrow> nat \<Rightarrow> nat \<Rightarrow> nat \<Rightarrow> (nat \<Rightarrow> nat \<Rightarrow> nat \<Rightarrow> prog) \<Rightarrow> prog" where
  "merge_main_steps arr l1 n1 l2 n2 B i j k K =
     (if i < n1 \<and> j < n2
      then Read (Cell arr (l1 + int i)) (\<lambda>x. Read (Cell arr (l2 + int j)) (\<lambda>y.
             if compare_elem (elem_in x) (elem_in y) \<le> 0
             then Read (Cell arr (l1 + int i)) (\<lambda>v. Write (Cell B (int k)) (El (elem_in v)) (merge_main_steps arr l1 n1 l2 n2 B (Suc i) j (Suc k) K))
             else Read (Cell arr (l2 + int j)) (\<lambda>v. Write (Cell B (int k)) (El (elem_in v)) (merge_main_steps arr l1 n1 l2 n2 B i (Suc j) (Suc k) K))))
      else K i j k)"
  by pat_completeness auto
termination
  by (relation "measure (\<lambda>(arr, l1, n1, l2, n2, B, i, j, k, K). (n1 - i) + (n2 - j))") auto

declare merge_main_steps.simps [simp del]

function copy_rest_steps :: "array \<Rightarrow> int \<Rightarrow> nat \<Rightarrow> array \<Rightarrow> nat \<Rightarrow> nat \<Rightarrow> (nat \<Rightarrow> prog) \<Rightarrow> prog" where
  "copy_rest_steps arr l n B i k K =
     (if i < n then Read (Cell arr (l + int i)) (\<lambda>v. Write (Cell B (int k)) (El (elem_in v)) (copy_rest_steps arr l n B (Suc i) (Suc k) K))
      else K k)"
  by pat_completeness auto
termination
  by (relation "measure (\<lambda>(arr, l, n, B, i, k, K). n - i)") auto

declare copy_rest_steps.simps [simp del]

definition merge_serial_2_steps :: "array \<Rightarrow> int \<Rightarrow> int \<Rightarrow> int \<Rightarrow> int \<Rightarrow> array \<Rightarrow> int \<Rightarrow> prog \<Rightarrow> prog" where
  "merge_serial_2_steps arr l1 r1 l2 r2 B start k =
     (let n1 = nat (r1 - l1 + 1); n2 = nat (r2 - l2 + 1)
      in merge_main_steps arr l1 n1 l2 n2 B 0 0 (nat start) (\<lambda>i j k1.
           copy_rest_steps arr l1 n1 B i k1 (\<lambda>k2. copy_rest_steps arr l2 n2 B j k2 (\<lambda>_. k))))"

function find_split_point_steps :: "array \<Rightarrow> int \<Rightarrow> int \<Rightarrow> elem \<Rightarrow> (int \<Rightarrow> prog) \<Rightarrow> prog" where
  "find_split_point_steps arr low high p K =
     (if low < high
      then let mid = low + (high - low) div 2
           in Read (Cell arr mid) (\<lambda>x. if compare_elem p (elem_in x) \<le> 0 then find_split_point_steps arr low mid p K
                else find_split_point_steps arr (mid + 1) high p K)
      else K low)"
  by pat_completeness auto
termination
  by (relation "measure (\<lambda>(arr, low, high, p, K). nat (high - low))") (auto simp: Let_def)

declare find_split_point_steps.simps [simp del]

text \<open>
  The recursive functions take the depth to which calls may nest as their first argument. The calls below
  call \<open>w\<close> are \<open>w @ [0]\<close> for the call that the thread makes itself and \<open>w @ [1]\<close> for the one of the new thread.
\<close>

fun merge_parallel_aux_steps :: "nat \<Rightarrow> path \<Rightarrow> prog \<Rightarrow> prog" where
  "merge_parallel_aux_steps 0 w k = Abort"
| "merge_parallel_aux_steps (Suc n) w k =
     Read (Args w) (\<lambda>v. case args_in v of
       MergeArgs arr l1 r1 l2 r2 B start \<Rightarrow>
         if r1 - l1 + 1 \<le> MIN_THREAD_ELEM then merge_serial_2_steps arr l1 r1 l2 r2 B start k
         else if l1 > r1 \<and> l2 > r2 then k
         else
           (let swap = (r2 - l2 < r1 - l1);
                m1 = (if swap then l2 else l1); q1 = (if swap then r2 else r1);
                m2 = (if swap then l1 else l2); q2 = (if swap then r1 else r2);
                pi = m2 + (q2 - m2) div 2
            in Read (Cell arr pi) (\<lambda>x. find_split_point_steps arr m1 q1 (elem_in x) (\<lambda>s.
                 let at = start + (s - m1) + (pi - m2)
                 in Write (Cell B at) (El (elem_in x))
                    (Write (Args (w @ [0])) (Ar (MergeArgs arr m1 (s - 1) m2 (pi - 1) B start))
                    (Write (Args (w @ [1])) (Ar (MergeArgs arr s q1 (pi + 1) q2 B (at + 1)))
                    (Par (merge_parallel_aux_steps n (w @ [1]) Done) (merge_parallel_aux_steps n (w @ [0]) Done) k))))))
     | _ \<Rightarrow> Abort)"

definition merge_parallel_steps :: "nat \<Rightarrow> array \<Rightarrow> int \<Rightarrow> int \<Rightarrow> int \<Rightarrow> path \<Rightarrow> prog \<Rightarrow> prog" where
  "merge_parallel_steps np arr l m r w k =
     Write (Args (w @ [0])) (Ar (MergeArgs arr l m (m + 1) r (Buffer w) 0))
       (merge_parallel_aux_steps (Suc (nat (r - l + 1))) (w @ [0])
          (copy_arr_parallel_steps np arr l (Buffer w) (r - l + 1) (w @ [1]) k))"

fun merge_sort_threaded_steps :: "nat \<Rightarrow> nat \<Rightarrow> path \<Rightarrow> prog \<Rightarrow> prog" where
  "merge_sort_threaded_steps 0 np w k = Abort"
| "merge_sort_threaded_steps (Suc n) np w k =
     Read (Args w) (\<lambda>v. case args_in v of
       SortArgs arr l r \<Rightarrow>
         if r - l + 1 \<le> MIN_THREAD_ELEM then insertion_sort_steps arr l (r - l + 1) k
         else if l < r
         then let m = l + (r - l) div 2
              in Write (Args (w @ [0])) (Ar (SortArgs arr l m))
                 (Write (Args (w @ [1])) (Ar (SortArgs arr (m + 1) r))
                 (Par (merge_sort_threaded_steps n np (w @ [1]) Done) (merge_sort_threaded_steps n np (w @ [0]) Done)
                    (merge_parallel_steps np arr l m r (w @ [2]) k)))
         else k
     | _ \<Rightarrow> Abort)"

definition merge_sort_parallel_steps :: "nat \<Rightarrow> array \<Rightarrow> int \<Rightarrow> int \<Rightarrow> prog" where
  "merge_sort_parallel_steps np arr l r =
     Write (Args []) (Ar (SortArgs arr l r)) (merge_sort_threaded_steps (Suc (nat (r - l))) np [] Done)"

section \<open>Loops\<close>

declare fun_upd_apply [simp del]

text \<open>The cells of \<open>n\<close> elements from \<open>l\<close> on.\<close>

definition cells :: "array \<Rightarrow> int \<Rightarrow> int \<Rightarrow> loc set" where
  "cells a l n = Cell a ` {l..<l + n}"

lemma cells_iff [simp]: "Cell b i \<in> cells a l n \<longleftrightarrow> b = a \<and> l \<le> i \<and> i < l + n"
  by (auto simp: cells_def)

lemma cells_mono: "l' \<le> l \<Longrightarrow> l + n \<le> l' + n' \<Longrightarrow> cells a l n \<subseteq> cells a l' n'"
  by (auto simp: cells_def)

lemma cells_nat: "Cell a (int i) \<in> cells a (int l) (int n) \<longleftrightarrow> l \<le> i \<and> i < l + n"
  by simp linarith

lemma Args_cells [simp]: "Args w \<notin> cells a l n"
  by (auto simp: cells_def)

lemma copy_steps_go:
  assumes "dst \<noteq> src" "mirror m src xs" "mirror m dst ys" "s + n \<le> length xs" "d + n \<le> length ys"
  shows "\<exists>m'. go (cells src (int s) (int n)) (cells dst (int d) (int n))
      (copy_steps dst (int d) src (int s) (int n) (int i) k, m) (k, m') \<and>
    mirror m' dst (copy_loop ys xs \<lparr>ca_dest = d, ca_src = s, ca_n = n\<rparr> i)"
  using assms(2,3,5)
proof (induction "n - i" arbitrary: i m ys)
  case 0
  then show ?case
    by (intro exI [of _ m]) (simp add: copy_steps.simps [of dst] copy_loop.simps [of ys])
next
  case (Suc x)
  then have i: "i < n" "x = n - Suc i" by simp_all
  let ?e = "xs ! (s + i)"
  let ?m = "m(Cell dst (int (d + i)) := El ?e)"
  have e: "elem_in (m (Cell src (int s + int i))) = ?e"
    using mirror_read [OF Suc.prems(1), of "s + i"] i(1) assms(4) by simp
  have "mirror ?m src xs" using Suc.prems(1) assms(1) by (intro mirror_other) auto
  moreover have "mirror ?m dst (ys[d + i := ?e])" using Suc.prems(2) by (rule mirror_write)
  ultimately obtain m' where m': "go (cells src (int s) (int n)) (cells dst (int d) (int n))
      (copy_steps dst (int d) src (int s) (int n) (int (Suc i)) k, ?m) (k, m')"
    "mirror m' dst (copy_loop (ys[d + i := ?e]) xs \<lparr>ca_dest = d, ca_src = s, ca_n = n\<rparr> (Suc i))"
    using Suc.hyps(1) [OF i(2), of ?m "ys[d + i := ?e]"] Suc.prems(3) by auto
  show ?case
    using m' i(1) e
    by (intro exI [of _ m']) (simp add: copy_steps.simps [of dst "int d" src "int s" "int n" "int i"]
        copy_loop.simps [of ys] copy_elem_def add.commute go_read go_write)
qed

lemma insertion_inner_steps_go:
  assumes "mirror m arr xs" "b + j < length xs"
  shows "\<exists>m'. go (cells arr (int b) (int j)) (cells arr (int b) (int j + 1))
      (insertion_inner_steps arr (int b) t j k, m) (k, m') \<and> mirror m' arr (insertion_inner xs b t j)"
  using assms
proof (induction j arbitrary: m xs)
  case 0
  then show ?case using mirror_write [of m arr xs b t]
    by (intro exI [of _ "m(Cell arr (int b) := El t)"]) (auto simp: copy_elem_def intro!: go_write simp del: fun_upd_apply)
next
  case (Suc j)
  let ?x = "xs ! (b + j)"
  have x: "elem_in (m (Cell arr (int b + int j))) = ?x" using mirror_read [OF Suc.prems(1), of "b + j"] Suc.prems(2) by simp
  show ?case
  proof (cases "compare_elem ?x t > 0")
    case True
    let ?m = "m(Cell arr (int (b + Suc j)) := El ?x)"
    obtain m' where m': "go (cells arr (int b) (int j)) (cells arr (int b) (int j + 1)) (insertion_inner_steps arr (int b) t j k, ?m) (k, m')"
      "mirror m' arr (insertion_inner (xs[b + Suc j := ?x]) b t j)"
      using Suc.IH [OF mirror_write [OF Suc.prems(1), of "b + Suc j" ?x]] Suc.prems(2) by auto
    have "go (cells arr (int b) (int (Suc j))) (cells arr (int b) (int (Suc j) + 1)) (insertion_inner_steps arr (int b) t j k, ?m) (k, m')"
      by (rule go_mono [OF m'(1)]) (auto simp: cells_def)
    then show ?thesis using m'(2) True x
      by (intro exI [of _ m']) (auto simp: copy_elem_def ac_simps intro!: go_read go_write)
  next
    case False
    then show ?thesis using x mirror_write [OF Suc.prems(1), of "b + Suc j" t]
      by (intro exI [of _ "m(Cell arr (int (b + Suc j)) := El t)"]) (auto simp: copy_elem_def ac_simps intro!: go_read go_write)
  qed
qed

lemma insertion_inner_length [simp]: "length (insertion_inner xs b t j) = length xs"
  by (induction xs b t j rule: insertion_inner.induct) (auto simp: copy_elem_def)

lemma insertion_outer_steps_go:
  assumes "mirror m arr xs" "b + n \<le> length xs"
  shows "\<exists>m'. go (cells arr (int b) (int n)) (cells arr (int b) (int n))
      (insertion_outer_steps arr (int b) i n k, m) (k, m') \<and> mirror m' arr (insertion_outer xs b i n)"
  using assms
proof (induction "n - i" arbitrary: i m xs)
  case 0
  then show ?case
    by (intro exI [of _ m]) (simp add: insertion_outer_steps.simps [of arr] insertion_outer.simps [of xs])
next
  case (Suc x)
  let ?R = "cells arr (int b) (int n)"
  have i: "i < n" "x = n - Suc i" "b + i < length xs" using Suc.hyps(2) Suc.prems(2) by simp_all
  let ?t = "xs ! (b + i)"
  have t: "elem_in (m (Cell arr (int b + int i))) = ?t" using mirror_read [OF Suc.prems(1) i(3)] by simp
  let ?k = "insertion_outer_steps arr (int b) (Suc i) n k"
  obtain m1 where m1: "go (cells arr (int b) (int i)) (cells arr (int b) (int i + 1)) (insertion_inner_steps arr (int b) ?t i ?k, m) (?k, m1)"
    "mirror m1 arr (insertion_inner xs b ?t i)"
    using insertion_inner_steps_go [OF Suc.prems(1) i(3)] by blast
  obtain m' where m': "go ?R ?R (?k, m1) (k, m')" "mirror m' arr (insertion_outer (insertion_inner xs b ?t i) b (Suc i) n)"
    using Suc.hyps(1) [OF i(2) m1(2)] Suc.prems(2) by auto
  have "go ?R ?R (insertion_inner_steps arr (int b) ?t i ?k, m) (?k, m1)"
    by (rule go_mono [OF m1(1)]) (use i(1) in \<open>auto simp: cells_def\<close>)
  then have "go ?R ?R (insertion_inner_steps arr (int b) ?t i ?k, m) (k, m')" using m'(1) by (rule go_trans)
  then show ?case using m'(2) i(1) t
    by (intro exI [of _ m']) (auto simp: insertion_outer_steps.simps [of arr "int b" i] insertion_outer.simps [of xs b i] intro!: go_read)
qed

lemma insertion_sort_steps_go:
  assumes "mirror m arr xs" "run_ok xs l r"
  shows "\<exists>m'. go (cells arr l (r - l + 1)) (cells arr l (r - l + 1)) (insertion_sort_steps arr l (r - l + 1) k, m) (k, m') \<and>
    mirror m' arr (insertion_sort xs (nat l) (r - l + 1))"
  using insertion_outer_steps_go [OF assms(1), of "nat l" "nat (r - l + 1)" 1 k] assms(2)
  by (auto simp: insertion_sort_steps_def insertion_sort_def run_ok_def)

lemma copy_rest_steps_go:
  assumes "arr \<noteq> B" "mirror m arr xs" "mirror m B ys" "l + n \<le> length xs" "\<And>x. x < n \<Longrightarrow> Cell arr (int (l + x)) \<in> R"
    "\<And>x. k \<le> x \<Longrightarrow> x < k + (n - i) \<Longrightarrow> Cell B (int x) \<in> W"
  shows "\<exists>m'. go R W (copy_rest_steps arr (int l) n B i k K, m) (K (snd (copy_rest (\<lambda>i. xs ! (l + i)) n ys i k)), m') \<and>
    mirror m' B (fst (copy_rest (\<lambda>i. xs ! (l + i)) n ys i k)) \<and> mirror m' arr xs"
  using assms(2,3,6)
proof (induction "n - i" arbitrary: i k m ys)
  case 0
  then show ?case
    by (intro exI [of _ m]) (simp add: copy_rest_steps.simps [of arr] copy_rest.simps [of _ _ ys])
next
  case (Suc x)
  have i: "i < n" "x = n - Suc i" using Suc.hyps(2) by simp_all
  let ?e = "xs ! (l + i)"
  let ?m = "m(Cell B (int k) := El ?e)"
  have e: "elem_in (m (Cell arr (int l + int i))) = ?e" using mirror_read [OF Suc.prems(1), of "l + i"] i(1) assms(4) by simp
  have "mirror ?m arr xs" using Suc.prems(1) assms(1) by (intro mirror_other) auto
  moreover have "mirror ?m B (ys[k := ?e])" using Suc.prems(2) by (rule mirror_write)
  moreover have "Cell B (int z) \<in> W" if "Suc k \<le> z" "z < Suc k + (n - Suc i)" for z using Suc.prems(3) [of z] that i(1) by simp
  moreover have "Cell B (int k) \<in> W" "Cell arr (int l + int i) \<in> R" using Suc.prems(3) [of k] assms(5) [of i] i(1) by simp_all
  ultimately show ?case using Suc.hyps(1) [OF i(2), of ?m "ys[k := ?e]" "Suc k"] i(1) e
    by (auto simp: copy_rest_steps.simps [of arr "int l" n B i k] copy_rest.simps [of _ _ ys] copy_elem_def intro!: go_read go_write)
qed

lemma merge_main_steps_go:
  assumes "arr \<noteq> B" "mirror m arr xs" "mirror m B ys" "l1 + n1 \<le> length xs" "l2 + n2 \<le> length xs"
    "\<And>x. x < n1 \<Longrightarrow> Cell arr (int (l1 + x)) \<in> R" "\<And>x. x < n2 \<Longrightarrow> Cell arr (int (l2 + x)) \<in> R"
    "i \<le> n1" "j \<le> n2" "\<And>x. k \<le> x \<Longrightarrow> x < k + (n1 - i) + (n2 - j) \<Longrightarrow> Cell B (int x) \<in> W"
  shows "\<exists>m' ys' i' j' k'. merge_main (\<lambda>i. xs ! (l1 + i)) n1 (\<lambda>j. xs ! (l2 + j)) n2 ys i j k = (ys', i', j', k') \<and>
    go R W (merge_main_steps arr (int l1) n1 (int l2) n2 B i j k K, m) (K i' j' k', m') \<and> mirror m' B ys' \<and> mirror m' arr xs \<and>
    i' \<le> n1 \<and> j' \<le> n2 \<and> k \<le> k' \<and> k' + (n1 - i') + (n2 - j') = k + (n1 - i) + (n2 - j)"
  using assms(2,3,8-10)
proof (induction "n1 - i + (n2 - j)" arbitrary: i j k m ys rule: less_induct)
  case less
  show ?case
  proof (cases "i < n1 \<and> j < n2")
    case False
    then have "merge_main (\<lambda>i. xs ! (l1 + i)) n1 (\<lambda>j. xs ! (l2 + j)) n2 ys i j k = (ys, i, j, k)"
      "merge_main_steps arr (int l1) n1 (int l2) n2 B i j k K = K i j k"
      by (subst merge_main.simps merge_main_steps.simps; auto)+
    then show ?thesis using less.prems(1-4) by (auto intro!: exI [of _ m])
  next
    case True
    let ?x = "xs ! (l1 + i)" and ?y = "xs ! (l2 + j)"
    have e: "elem_in (m (Cell arr (int l1 + int i))) = ?x" "elem_in (m (Cell arr (int l2 + int j))) = ?y"
      using mirror_read [OF less.prems(1), of "l1 + i"] mirror_read [OF less.prems(1), of "l2 + j"] True assms(4,5) by simp_all
    have r: "Cell arr (int l1 + int i) \<in> R" "Cell arr (int l2 + int j) \<in> R" using assms(6) [of i] assms(7) [of j] True by simp_all
    have w: "Cell B (int k) \<in> W" by (rule less.prems(5)) (use True in linarith)+
    have mir: "mirror (m(Cell B (int k) := El z)) arr xs" "mirror (m(Cell B (int k) := El z)) B (ys[k := z])" for z
      using less.prems(1,2) assms(1) by (auto intro!: mirror_other mirror_write)
    show ?thesis
    proof (cases "compare_elem ?x ?y \<le> 0")
      case le: True
      have z: "Cell B (int z) \<in> W" if "Suc k \<le> z" "z < Suc k + (n1 - Suc i) + (n2 - j)" for z
        by (rule less.prems(5)) (use that True in linarith)+
      have dec: "n1 - Suc i + (n2 - j) < n1 - i + (n2 - j)" and si: "Suc i \<le> n1" using True by linarith+
      obtain m' ys' i' j' k' where f: "merge_main (\<lambda>i. xs ! (l1 + i)) n1 (\<lambda>j. xs ! (l2 + j)) n2 (ys[k := ?x]) (Suc i) j (Suc k) = (ys', i', j', k')"
        "go R W (merge_main_steps arr (int l1) n1 (int l2) n2 B (Suc i) j (Suc k) K, m(Cell B (int k) := El ?x)) (K i' j' k', m')"
        "mirror m' B ys'" "mirror m' arr xs" "i' \<le> n1" "j' \<le> n2" "Suc k \<le> k'" "k' + (n1 - i') + (n2 - j') = Suc k + (n1 - Suc i) + (n2 - j)"
        using less.hyps [OF dec mir si less.prems(4) z] by blast
      have tot: "k' + (n1 - i') + (n2 - j') = k + (n1 - i) + (n2 - j)" "k \<le> k'" using f(7,8) True by linarith+
      show ?thesis
        by (rule exI [of _ m'], rule exI [of _ ys'], rule exI [of _ i'], rule exI [of _ j'], rule exI [of _ k'])
          (use f(1-6) tot True le e r w in \<open>simp add: merge_main.simps [of _ _ _ _ ys] merge_main_steps.simps [of arr "int l1" n1 "int l2" n2 B i j]
            copy_elem_def go_read go_write\<close>)
    next
      case gt: False
      have z: "Cell B (int z) \<in> W" if "Suc k \<le> z" "z < Suc k + (n1 - i) + (n2 - Suc j)" for z
        by (rule less.prems(5)) (use that True in linarith)+
      have dec: "n1 - i + (n2 - Suc j) < n1 - i + (n2 - j)" and si: "Suc j \<le> n2" using True by linarith+
      obtain m' ys' i' j' k' where f: "merge_main (\<lambda>i. xs ! (l1 + i)) n1 (\<lambda>j. xs ! (l2 + j)) n2 (ys[k := ?y]) i (Suc j) (Suc k) = (ys', i', j', k')"
        "go R W (merge_main_steps arr (int l1) n1 (int l2) n2 B i (Suc j) (Suc k) K, m(Cell B (int k) := El ?y)) (K i' j' k', m')"
        "mirror m' B ys'" "mirror m' arr xs" "i' \<le> n1" "j' \<le> n2" "Suc k \<le> k'" "k' + (n1 - i') + (n2 - j') = Suc k + (n1 - i) + (n2 - Suc j)"
        using less.hyps [OF dec mir less.prems(3) si z] by blast
      have tot: "k' + (n1 - i') + (n2 - j') = k + (n1 - i) + (n2 - j)" "k \<le> k'" using f(7,8) True by linarith+
      show ?thesis
        by (rule exI [of _ m'], rule exI [of _ ys'], rule exI [of _ i'], rule exI [of _ j'], rule exI [of _ k'])
          (use f(1-6) tot True gt e r w in \<open>simp add: merge_main.simps [of _ _ _ _ ys] merge_main_steps.simps [of arr "int l1" n1 "int l2" n2 B i j]
            copy_elem_def go_read go_write\<close>)
    qed
  qed
qed

lemma copy_rest_snd: "i \<le> n \<Longrightarrow> snd (copy_rest f n ys i k) = k + (n - i)"
proof (induction "n - i" arbitrary: i k ys)
  case 0
  then show ?case by (simp add: copy_rest.simps [of f])
next
  case (Suc x)
  then have "i < n" by simp
  then show ?case using Suc.hyps Suc.hyps(1) [of "Suc i" "ys[k := f i]" "Suc k"] by (simp add: copy_rest.simps [of f n ys i] copy_elem_def)
qed

lemma merge_serial_2_steps_go:
  assumes "arr \<noteq> B" "mirror m arr xs" "mirror m B ys" "run_ok xs l1 r1" "run_ok xs l2 r2" "0 \<le> start"
    "cells arr l1 (r1 - l1 + 1) \<subseteq> R" "cells arr l2 (r2 - l2 + 1) \<subseteq> R" "cells B start ((r1 - l1 + 1) + (r2 - l2 + 1)) \<subseteq> W"
  shows "\<exists>m'. go R W (merge_serial_2_steps arr l1 r1 l2 r2 B start k, m) (k, m') \<and> mirror m' B (merge_serial_2 xs l1 r1 l2 r2 ys start)"
proof -
  define a1 a2 n1 n2 st where d: "a1 = nat l1" "a2 = nat l2" "n1 = nat (r1 - l1 + 1)" "n2 = nat (r2 - l2 + 1)" "st = nat start"
  have i: "l1 = int a1" "l2 = int a2" "r1 - l1 + 1 = int n1" "r2 - l2 + 1 = int n2" "start = int st"
    and b: "a1 + n1 \<le> length xs" "a2 + n2 \<le> length xs" using assms(4-6) by (auto simp: d run_ok_def)
  let ?f1 = "\<lambda>i. xs ! (a1 + i)" and ?f2 = "\<lambda>i. xs ! (a2 + i)"
  have R: "Cell arr (int (a1 + x)) \<in> R" if "x < n1" for x using that assms(7) i(1,3) by (auto simp: subset_iff)
  have R2: "Cell arr (int (a2 + x)) \<in> R" if "x < n2" for x using that assms(8) i(2,4) by (auto simp: subset_iff)
  have W: "Cell B (int x) \<in> W" if "st \<le> x" "x < st + n1 + n2" for x using that assms(9) i by (auto simp: subset_iff)
  let ?K2 = "\<lambda>j k2. copy_rest_steps arr (int a2) n2 B j k2 (\<lambda>_. k)"
  let ?K1 = "\<lambda>i j k1. copy_rest_steps arr (int a1) n1 B i k1 (?K2 j)"
  obtain m1 ys1 i1 j1 k1 where 1: "merge_main ?f1 n1 ?f2 n2 ys 0 0 st = (ys1, i1, j1, k1)"
    "go R W (merge_main_steps arr (int a1) n1 (int a2) n2 B 0 0 st ?K1, m) (?K1 i1 j1 k1, m1)"
    "mirror m1 B ys1" "mirror m1 arr xs" "i1 \<le> n1" "j1 \<le> n2" "st \<le> k1" "k1 + (n1 - i1) + (n2 - j1) = st + n1 + n2"
    using merge_main_steps_go [OF assms(1-3) b R R2, of 0 0 st W ?K1] W by auto
  let ?c = "copy_rest ?f1 n1 ys1 i1 k1"
  have 2: "snd ?c = k1 + (n1 - i1)" by (rule copy_rest_snd [OF 1(5)])
  obtain m2 where m2: "go R W (?K1 i1 j1 k1, m1) (?K2 j1 (snd ?c), m2)" "mirror m2 B (fst ?c)" "mirror m2 arr xs"
    using copy_rest_steps_go [OF assms(1) 1(4,3) b(1) R, of k1 i1 W "?K2 j1"] W 1(7,8) by auto
  obtain m3 where m3: "go R W (?K2 j1 (snd ?c), m2) (k, m3)" "mirror m3 B (fst (copy_rest ?f2 n2 (fst ?c) j1 (snd ?c)))"
    using copy_rest_steps_go [OF assms(1) m2(3,2) b(2) R2, of "snd ?c" j1 W "\<lambda>_. k"] W 1(7,8) 2 by auto
  have fs: "(\<lambda>i. xs ! nat (l1 + int i)) = ?f1" "(\<lambda>i. xs ! nat (l2 + int i)) = ?f2"
    using assms(4,5) by (simp_all add: d(1,2) run_ok_def nat_add_distrib)
  have "merge_serial_2_steps arr l1 r1 l2 r2 B start k = merge_main_steps arr (int a1) n1 (int a2) n2 B 0 0 st ?K1"
    unfolding merge_serial_2_steps_def Let_def d(3-5) [symmetric] i(1,2) [symmetric] ..
  moreover have "merge_serial_2 xs l1 r1 l2 r2 ys start = fst (copy_rest ?f2 n2 (fst ?c) j1 (snd ?c))"
    unfolding merge_serial_2_def merge_loops_def Let_def fs d(3-5) [symmetric]
    using 1(1) by (simp split: prod.splits)
  ultimately show ?thesis using go_trans [OF 1(2) go_trans [OF m2(1) m3(1)]] m3(2) by auto
qed

lemma find_split_point_steps_go:
  assumes "mirror m arr xs" "0 \<le> low" "high < int (length xs)" "cells arr low (high - low) \<subseteq> R"
  shows "go R W (find_split_point_steps arr low high p K, m) (K (split_loop xs low high p), m)"
  using assms(2-4)
proof (induction "nat (high - low)" arbitrary: low high rule: less_induct)
  case less
  let ?mid = "low + (high - low) div 2"
  show ?case
  proof (cases "low < high")
    case True
    then have mid: "low \<le> ?mid" "?mid < high" by auto
    have x: "elem_in (m (Cell arr ?mid)) = xs ! nat ?mid" using mirror_read_int [OF assms(1)] mid less.prems by simp
    have c: "Cell arr ?mid \<in> R" using less.prems(3) mid by auto
    have "cells arr low (?mid - low) \<subseteq> R" "cells arr (?mid + 1) (high - (?mid + 1)) \<subseteq> R" using less.prems(3) mid by (auto simp: cells_def image_subset_iff)
    then have "go R W (find_split_point_steps arr low ?mid p K, m) (K (split_loop xs low ?mid p), m)"
      "go R W (find_split_point_steps arr (?mid + 1) high p K, m) (K (split_loop xs (?mid + 1) high p), m)"
      using less.hyps [of ?mid low] less.hyps [of high "?mid + 1"] less.prems mid by auto
    then show ?thesis using True x c
      by (simp add: find_split_point_steps.simps [of arr low] split_loop.simps [of xs low high] Let_def go_read)
  next
    case False
    then show ?thesis by (simp add: find_split_point_steps.simps [of arr low] split_loop.simps [of xs low high])
  qed
qed

section \<open>The parallel merge\<close>

text \<open>The argument structures of a call and of the calls below it.\<close>

definition frames :: "path \<Rightarrow> loc set" where
  "frames w = {Args (w @ v) | v. True}"

lemma frames_simps [simp]: "Args w \<in> frames w" "Args (w @ [i]) \<in> frames w" "Cell a j \<notin> frames w" "frames (w @ [i]) \<subseteq> frames w"
  by (auto simp: frames_def)

lemma Args_frames [simp]: "Args w \<notin> frames (w @ [i])" "Args (w @ [i]) \<in> frames (w @ [j]) \<longleftrightarrow> i = j"
  by (auto simp: frames_def)

lemma frames_disjoint: "i \<noteq> j \<Longrightarrow> frames (w @ [i]) \<inter> frames (w @ [j]) = {}"
  by (auto simp: frames_def)

lemma frames_cells [simp]: "frames w \<inter> cells a l n = {}" "cells a l n \<inter> frames w = {}"
  by (auto simp: frames_def cells_def)

lemma mirror_both:
  assumes "mirror m1 B (put_at ys a xs1)" "mirror m2 B (put_at ys b xs2)"
    "a + length xs1 \<le> length ys" "b + length xs2 \<le> length ys" "a + length xs1 \<le> b \<or> b + length xs2 \<le> a"
    "\<And>i. Cell B (int i) \<in> W1 \<longleftrightarrow> a \<le> i \<and> i < a + length xs1"
  shows "mirror (\<lambda>x. if x \<in> W1 then m1 x else m2 x) B (put_at (put_at ys a xs1) b xs2)"
proof -
  have "elem_in (if Cell B (int i) \<in> W1 then m1 (Cell B (int i)) else m2 (Cell B (int i))) = put_at (put_at ys a xs1) b xs2 ! i"
    if "i < length ys" for i
    using that assms(1-5) unfolding assms(6) by (auto simp: mirror_def nth_put_at)
  then show ?thesis using assms(3,4) by (simp add: mirror_def)
qed

text \<open>What a call of \<^verbatim>\<open>merge_parallel_aux\<close> reads and writes, and what it does.\<close>

definition merge_reads :: "path \<Rightarrow> array \<Rightarrow> int \<Rightarrow> int \<Rightarrow> int \<Rightarrow> int \<Rightarrow> loc set" where
  "merge_reads w arr l1 r1 l2 r2 = frames w \<union> cells arr l1 (r1 - l1 + 1) \<union> cells arr l2 (r2 - l2 + 1)"

definition merge_writes :: "path \<Rightarrow> array \<Rightarrow> int \<Rightarrow> int \<Rightarrow> int \<Rightarrow> int \<Rightarrow> int \<Rightarrow> loc set" where
  "merge_writes w B start l1 r1 l2 r2 = frames w \<union> cells B start ((r1 - l1 + 1) + (r2 - l2 + 1))"

definition merge_pre :: "array \<Rightarrow> array \<Rightarrow> elem list \<Rightarrow> mem \<Rightarrow> elem list \<Rightarrow> path \<Rightarrow> int \<Rightarrow> int \<Rightarrow> int \<Rightarrow> int \<Rightarrow> int \<Rightarrow> bool" where
  "merge_pre arr B xs m ys w l1 r1 l2 r2 start \<longleftrightarrow>
     mirror m arr xs \<and> mirror m B ys \<and> run_ok xs l1 r1 \<and> run_ok xs l2 r2 \<and> 0 \<le> start \<and>
     start + (r1 - l1 + 1) + (r2 - l2 + 1) \<le> int (length ys) \<and> args_in (m (Args w)) = MergeArgs arr l1 r1 l2 r2 B start"

definition merges :: "array \<Rightarrow> array \<Rightarrow> elem list \<Rightarrow> nat \<Rightarrow> schedule \<Rightarrow> bool" where
  "merges arr B xs n sc \<longleftrightarrow> (\<forall>m ys w l1 r1 l2 r2 start k. merge_pre arr B xs m ys w l1 r1 l2 r2 start \<longrightarrow>
     nat (r1 - l1 + 1) + nat (r2 - l2 + 1) < n \<longrightarrow>
     (\<exists>m'. go (merge_reads w arr l1 r1 l2 r2) (merge_writes w B start l1 r1 l2 r2) (merge_parallel_aux_steps n w k, m) (k, m') \<and>
        mirror m' B (merge_parallel_aux sc xs l1 r1 l2 r2 ys start)))"

lemma merge_pre_result:
  assumes "merge_pre arr B xs m ys w l1 r1 l2 r2 start" "length ys' = length ys"
  shows "merge_parallel_aux sc xs l1 r1 l2 r2 ys' start = put_at ys' (nat start) (pmerge (run_of xs l1 r1) (run_of xs l2 r2))"
    "int (length (pmerge (run_of xs l1 r1) (run_of xs l2 r2))) = (r1 - l1 + 1) + (r2 - l2 + 1)"
    "nat start + length (pmerge (run_of xs l1 r1) (run_of xs l2 r2)) \<le> length ys"
proof -
  have ok: "run_ok xs l1 r1" "run_ok xs l2 r2" using assms(1) by (simp_all add: merge_pre_def)
  note lens = length_run_of [OF ok(1)] length_run_of [OF ok(2)]
  show "merge_parallel_aux sc xs l1 r1 l2 r2 ys' start = put_at ys' (nat start) (pmerge (run_of xs l1 r1) (run_of xs l2 r2))"
    using assms ok lens by (intro merge_parallel_aux_put_at) (auto simp: merge_pre_def run_ok_def)
  show *: "int (length (pmerge (run_of xs l1 r1) (run_of xs l2 r2))) = (r1 - l1 + 1) + (r2 - l2 + 1)"
    using lens ok by (auto simp: run_ok_def)
  then show "nat start + length (pmerge (run_of xs l1 r1) (run_of xs l2 r2)) \<le> length ys"
    using assms(1) unfolding merge_pre_def by linarith
qed

text \<open>The two halves of a merge, which write behind and before the pivot.\<close>

lemma merge_halves_go:
  assumes "arr \<noteq> B" "merges arr B xs n sc"
    "merge_pre arr B xs m ys (w @ [1]) s q1 (pi + 1) q2 (at + 1)" "merge_pre arr B xs m ys (w @ [0]) m1 (s - 1) m2 (pi - 1) start"
    "nat (q1 - s + 1) + nat (q2 - (pi + 1) + 1) < n" "nat (s - 1 - m1 + 1) + nat (pi - 1 - m2 + 1) < n"
    "at = start + (s - m1) + (pi - m2)"
    "merge_reads (w @ [1]) arr s q1 (pi + 1) q2 \<subseteq> R" "merge_reads (w @ [0]) arr m1 (s - 1) m2 (pi - 1) \<subseteq> R"
    "merge_writes (w @ [1]) B (at + 1) s q1 (pi + 1) q2 \<subseteq> W" "merge_writes (w @ [0]) B start m1 (s - 1) m2 (pi - 1) \<subseteq> W"
  shows "\<exists>m'. go R W (Par (merge_parallel_aux_steps n (w @ [1]) Done) (merge_parallel_aux_steps n (w @ [0]) Done) k, m) (k, m') \<and>
    mirror m' B (merge_parallel_aux sc xs m1 (s - 1) m2 (pi - 1) (merge_parallel_aux sc xs s q1 (pi + 1) q2 ys (at + 1)) start) \<and>
    mirror m' B (merge_parallel_aux sc xs s q1 (pi + 1) q2 (merge_parallel_aux sc xs m1 (s - 1) m2 (pi - 1) ys start) (at + 1))"
proof -
  let ?W1 = "merge_writes (w @ [1]) B (at + 1) s q1 (pi + 1) q2" and ?W2 = "merge_writes (w @ [0]) B start m1 (s - 1) m2 (pi - 1)"
  let ?R1 = "merge_reads (w @ [1]) arr s q1 (pi + 1) q2" and ?R2 = "merge_reads (w @ [0]) arr m1 (s - 1) m2 (pi - 1)"
  let ?p = "merge_parallel_aux_steps n (w @ [1]) Done" and ?q = "merge_parallel_aux_steps n (w @ [0]) Done"
  define xs1 xs2 where "xs1 = pmerge (run_of xs s q1) (run_of xs (pi + 1) q2)" and "xs2 = pmerge (run_of xs m1 (s - 1)) (run_of xs m2 (pi - 1))"
  note f1 = merge_pre_result [OF assms(3), folded xs1_def] and f2 = merge_pre_result [OF assms(4), folded xs2_def]
  obtain a1 where a1: "go ?R1 ?W1 (?p, m) (Done, a1)" "mirror a1 B (put_at ys (nat (at + 1)) xs1)"
    using assms(2,3,5) f1(1) [OF refl] unfolding merges_def by metis
  obtain a2 where a2: "go ?R2 ?W2 (?q, m) (Done, a2)" "mirror a2 B (put_at ys (nat start) xs2)"
    using assms(2,4,6) f2(1) [OF refl] unfolding merges_def by metis
  have st: "0 \<le> start" "0 \<le> at + 1" using assms(3,4) by (simp_all add: merge_pre_def)
  have sep: "nat start + length xs2 \<le> nat (at + 1)" using f2(2) [OF refl] assms(7) st by linarith
  have d: "?W1 \<inter> (?R2 \<union> ?W2) = {}" "?W2 \<inter> (?R1 \<union> ?W1) = {}"
    using assms(1,7) by (auto simp: merge_reads_def merge_writes_def cells_def frames_def)
  have W1: "Cell B (int i) \<in> ?W1 \<longleftrightarrow> nat (at + 1) \<le> i \<and> i < nat (at + 1) + length xs1" for i
    using f1(2) [OF refl] st(2) by (auto simp: merge_writes_def)
  let ?m = "\<lambda>x. if x \<in> ?W1 then a1 x else a2 x"
  have "mirror ?m B (put_at (put_at ys (nat (at + 1)) xs1) (nat start) xs2)"
    by (rule mirror_both [OF a1(2) a2(2) f1(3) [OF refl] f2(3) [OF refl] _ W1]) (use sep in blast)
  moreover have "put_at (put_at ys (nat (at + 1)) xs1) (nat start) xs2 = put_at (put_at ys (nat start) xs2) (nat (at + 1)) xs1"
    using f1(3) [OF refl] f2(3) [OF refl] sep by (intro put_at_commute) auto
  moreover have "length (put_at ys (nat (at + 1)) xs1) = length ys" "length (put_at ys (nat start) xs2) = length ys"
    using f1(3) [OF refl] f2(3) [OF refl] by simp_all
  ultimately show ?thesis
    using go_threads [OF a1(1) a2(1) d assms(8,10,9,11), of k] f1(1) f2(1) by (intro exI [of _ ?m]) simp
qed

lemma merge_parallel_aux_steps_level:
  assumes "arr \<noteq> B" "merges arr B xs n sc" "merge_pre arr B xs m ys w l1 r1 l2 r2 start"
    "nat (r1 - l1 + 1) + nat (r2 - l2 + 1) < Suc n" and big: "\<not> r1 - l1 + 1 \<le> MIN_THREAD_ELEM"
  shows "\<exists>m'. go (merge_reads w arr l1 r1 l2 r2) (merge_writes w B start l1 r1 l2 r2) (merge_parallel_aux_steps (Suc n) w k, m) (k, m') \<and>
    mirror m' B (merge_parallel_aux sc xs l1 r1 l2 r2 ys start)"
proof -
  have pre: "mirror m arr xs" "mirror m B ys" "run_ok xs l1 r1" "run_ok xs l2 r2" "0 \<le> start"
    "start + (r1 - l1 + 1) + (r2 - l2 + 1) \<le> int (length ys)" "args_in (m (Args w)) = MergeArgs arr l1 r1 l2 r2 B start"
    using assms(3) by (simp_all add: merge_pre_def)
  define swap where "swap = (r2 - l2 < r1 - l1)"
  define m1 q1 where "m1 = (if swap then l2 else l1)" and "q1 = (if swap then r2 else r1)"
  define m2 q2 where "m2 = (if swap then l1 else l2)" and "q2 = (if swap then r1 else r2)"
  define pi where "pi = m2 + (q2 - m2) div 2"
  define p where "p = xs ! nat pi"
  define s where "s = find_split_point xs m1 q1 p"
  define at where "at = start + (s - m1) + (pi - m2)"
  let ?R = "merge_reads w arr l1 r1 l2 r2" and ?W = "merge_writes w B start l1 r1 l2 r2"
  have ok: "run_ok xs m1 q1" "run_ok xs m2 q2" using pre(3,4) by (simp_all add: m1_def q1_def m2_def q2_def)
  have tot: "(r1 - l1 + 1) + (r2 - l2 + 1) = (q1 - m1 + 1) + (q2 - m2 + 1)" by (simp add: m1_def q1_def m2_def q2_def)
  have Req: "?R = frames w \<union> cells arr m1 (q1 - m1 + 1) \<union> cells arr m2 (q2 - m2 + 1)"
    by (auto simp: merge_reads_def m1_def q1_def m2_def q2_def)
  have Weq: "?W = frames w \<union> cells B start ((q1 - m1 + 1) + (q2 - m2 + 1))" by (simp only: merge_writes_def tot)
  have pi: "m2 \<le> pi" "pi \<le> q2" using big by (auto simp: pi_def m2_def q2_def swap_def MIN_THREAD_ELEM_def)
  have s: "m1 \<le> s" "s \<le> q1 + 1" using find_split_point_bounds [of m1 xs q1 p] ok(1) by (auto simp: s_def run_ok_def)
  have sizes: "nat (q1 - s + 1) + nat (q2 - (pi + 1) + 1) < n" "nat (s - 1 - m1 + 1) + nat (pi - 1 - m2 + 1) < n"
    using merge_parallel_sizes [OF big swap_def m1_def q1_def m2_def q2_def pi_def s_def] assms(4) by linarith+
  have x: "elem_in (m (Cell arr pi)) = p" using mirror_read_int [OF pre(1), of pi] pi ok(2) by (simp add: p_def run_ok_def)
  let ?A1 = "MergeArgs arr m1 (s - 1) m2 (pi - 1) B start" and ?A2 = "MergeArgs arr s q1 (pi + 1) q2 B (at + 1)"
  let ?m = "m(Cell B at := El p, Args (w @ [0]) := Ar ?A1, Args (w @ [1]) := Ar ?A2)"
  have at: "0 \<le> at" "start \<le> at" "at + 1 + (q1 - s + 1) + (q2 - pi) \<le> int (length ys)" "nat at < length ys"
    using pre(5,6) s pi tot by (auto simp: at_def)
  have "mirror (m(Cell B at := El p)) B (ys[nat at := p])" using mirror_write [OF pre(2), of "nat at" p] at(1) by simp
  then have mB: "mirror ?m B (ys[nat at := p])" by (intro mirror_other [OF mirror_other]) auto
  have mA: "mirror ?m arr xs" using assms(1) pre(1) by (intro mirror_other) auto
  have okc: "run_ok xs s q1" "run_ok xs (pi + 1) q2" "run_ok xs m1 (s - 1)" "run_ok xs m2 (pi - 1)"
    using ok s pi by (auto simp: run_ok_def)
  have mp: "merge_pre arr B xs ?m (ys[nat at := p]) (w @ [1]) s q1 (pi + 1) q2 (at + 1)"
    "merge_pre arr B xs ?m (ys[nat at := p]) (w @ [0]) m1 (s - 1) m2 (pi - 1) start"
    using mA mB okc at pre(5) by (simp_all add: merge_pre_def fun_upd_apply at_def)
  have sub: "merge_reads (w @ [1]) arr s q1 (pi + 1) q2 \<subseteq> ?R" "merge_reads (w @ [0]) arr m1 (s - 1) m2 (pi - 1) \<subseteq> ?R"
    "merge_writes (w @ [1]) B (at + 1) s q1 (pi + 1) q2 \<subseteq> ?W" "merge_writes (w @ [0]) B start m1 (s - 1) m2 (pi - 1) \<subseteq> ?W"
    unfolding Req Weq using s pi by (auto simp: merge_reads_def merge_writes_def cells_def frames_def at_def)
  let ?par = "Par (merge_parallel_aux_steps n (w @ [1]) Done) (merge_parallel_aux_steps n (w @ [0]) Done) k"
  obtain m' where m': "go ?R ?W (?par, ?m) (k, m')"
    "mirror m' B (merge_parallel_aux sc xs m1 (s - 1) m2 (pi - 1) (merge_parallel_aux sc xs s q1 (pi + 1) q2 (ys[nat at := p]) (at + 1)) start)"
    "mirror m' B (merge_parallel_aux sc xs s q1 (pi + 1) q2 (merge_parallel_aux sc xs m1 (s - 1) m2 (pi - 1) (ys[nat at := p]) start) (at + 1))"
    using merge_halves_go [OF assms(1,2) mp sizes at_def sub] by blast
  let ?K = "\<lambda>s. let at = start + (s - m1) + (pi - m2)
    in Write (Cell B at) (El p) (Write (Args (w @ [0])) (Ar (MergeArgs arr m1 (s - 1) m2 (pi - 1) B start))
         (Write (Args (w @ [1])) (Ar (MergeArgs arr s q1 (pi + 1) q2 B (at + 1))) ?par))"
  have "Cell B at \<in> ?W" "Args (w @ [0]) \<in> ?W" "Args (w @ [1]) \<in> ?W" unfolding Weq using s pi by (auto simp: at_def)
  then have "go ?R ?W (?K s, m) (k, m')" using m'(1) by (simp add: Let_def go_write flip: at_def)
  moreover have "go ?R ?W (find_split_point_steps arr m1 q1 p ?K, m) (?K s, m)"
    unfolding s_def find_split_point_def using ok(1)
    by (intro find_split_point_steps_go [OF pre(1)]) (auto simp: Req run_ok_def cells_def)
  ultimately have split: "go ?R ?W (find_split_point_steps arr m1 q1 p ?K, m) (k, m')" by (rule go_trans [rotated])
  have half: "(q2 - m2) div 2 = pi - m2" by (simp add: pi_def)
  have "Cell arr pi \<in> ?R" "Args w \<in> ?R" unfolding Req using pi by auto
  then have "go ?R ?W (merge_parallel_aux_steps (Suc n) w k, m) (k, m')"
    using split big pre(3,7) x
    by (auto simp: Let_def run_ok_def MIN_THREAD_ELEM_def half simp flip: swap_def m1_def q1_def m2_def q2_def pi_def intro!: go_read)
  moreover have "mirror m' B (merge_parallel_aux sc xs l1 r1 l2 r2 ys start)"
    using m'(2,3) big pre(3)
    by (subst merge_parallel_aux.simps)
      (auto simp: Let_def run_ok_def MIN_THREAD_ELEM_def copy_elem_def simp flip: swap_def m1_def q1_def m2_def q2_def pi_def p_def s_def at_def)
  ultimately show ?thesis by blast
qed

lemma merges_all:
  assumes "arr \<noteq> B"
  shows "merges arr B xs n sc"
proof (induction n)
  case 0
  then show ?case by (simp add: merges_def)
next
  case (Suc n)
  show ?case unfolding merges_def
  proof (intro allI impI)
    fix m ys w l1 r1 l2 r2 start k
    assume pre: "merge_pre arr B xs m ys w l1 r1 l2 r2 start" and n: "nat (r1 - l1 + 1) + nat (r2 - l2 + 1) < Suc n"
    let ?R = "merge_reads w arr l1 r1 l2 r2" and ?W = "merge_writes w B start l1 r1 l2 r2"
    show "\<exists>m'. go ?R ?W (merge_parallel_aux_steps (Suc n) w k, m) (k, m') \<and> mirror m' B (merge_parallel_aux sc xs l1 r1 l2 r2 ys start)"
    proof (cases "r1 - l1 + 1 \<le> MIN_THREAD_ELEM")
      case True
      obtain m' where "go ?R ?W (merge_serial_2_steps arr l1 r1 l2 r2 B start k, m) (k, m')" "mirror m' B (merge_serial_2 xs l1 r1 l2 r2 ys start)"
        using merge_serial_2_steps_go [OF assms, of m xs ys l1 r1 l2 r2 start ?R ?W k] pre
        by (auto simp: merge_pre_def merge_reads_def merge_writes_def)
      then show ?thesis using True pre
        by (intro exI [of _ m']) (auto simp: merge_parallel_aux.simps [of sc xs l1] merge_pre_def merge_reads_def intro!: go_read)
    next
      case False
      then show ?thesis by (rule merge_parallel_aux_steps_level [OF assms Suc pre n])
    qed
  qed
qed

section \<open>The parallel copy\<close>

lemma copy_args_steps_go:
  assumes "\<And>i. i \<in> set is \<Longrightarrow> Args (w @ [i]) \<in> W" "distinct is"
  shows "\<exists>m'. go R W (copy_args_steps dst d src c w is k, m) (k, m') \<and>
    (\<forall>i\<in>set is. m' (Args (w @ [i])) = Ar (CopyArgs dst (d + int i * c) src (int i * c) c)) \<and>
    (\<forall>x. (\<forall>i\<in>set is. x \<noteq> Args (w @ [i])) \<longrightarrow> m' x = m x)"
  using assms
proof (induction "is" arbitrary: m)
  case Nil
  then show ?case by (intro exI [of _ m]) simp
next
  case (Cons i "is")
  let ?m = "m(Args (w @ [i]) := Ar (CopyArgs dst (d + int i * c) src (int i * c) c))"
  obtain m' where m': "go R W (copy_args_steps dst d src c w is k, ?m) (k, m')"
    "\<forall>i\<in>set is. m' (Args (w @ [i])) = Ar (CopyArgs dst (d + int i * c) src (int i * c) c)"
    "\<forall>x. (\<forall>i\<in>set is. x \<noteq> Args (w @ [i])) \<longrightarrow> m' x = ?m x"
    using Cons.IH [of ?m] Cons.prems by auto
  have "m' (Args (w @ [i])) = ?m (Args (w @ [i]))" using Cons.prems(2) by (intro m'(3) [rule_format]) auto
  then show ?case using m' Cons.prems(1) by (intro exI [of _ m']) (auto simp: fun_upd_apply intro!: go_write)
qed

lemma copy_arr_serial_steps_go:
  assumes "dst \<noteq> src" "mirror m src xs" "mirror m dst ys" "s + n \<le> length xs" "d + n \<le> length ys"
    "args_in (m (Args w)) = CopyArgs dst (int d) src (int s) (int n)"
  shows "\<exists>m'. go (insert (Args w) (cells src (int s) (int n))) (cells dst (int d) (int n)) (copy_arr_serial_steps w k, m) (k, m') \<and>
    mirror m' dst (put_at ys d (get_at xs s n))"
proof -
  obtain m' where "go (cells src (int s) (int n)) (cells dst (int d) (int n)) (copy_steps dst (int d) src (int s) (int n) 0 k, m) (k, m')"
    "mirror m' dst (copy_loop ys xs \<lparr>ca_dest = d, ca_src = s, ca_n = n\<rparr> 0)"
    using copy_steps_go [OF assms(1-5), of 0 k] by auto
  moreover from this(1) have "go (insert (Args w) (cells src (int s) (int n))) (cells dst (int d) (int n))
      (copy_steps dst (int d) src (int s) (int n) 0 k, m) (k, m')" by (rule go_mono) auto
  ultimately show ?thesis using assms(4-6)
    by (intro exI [of _ m']) (auto simp: copy_arr_serial_steps_def copy_loop_put_at intro!: go_read)
qed

text \<open>The threads of the copy from job \<open>i\<close> on; the calling thread runs the last job, for which it fills a structure first.\<close>

lemma copy_threads_steps_go:
  fixes np n :: nat
  defines "c \<equiv> n div np"
  assumes "dst \<noteq> src" "mirror m src xs" "mirror m dst ys" "n \<le> length xs" "off + n \<le> length ys" "0 < np" "i \<le> np - 1"
    "\<forall>j\<in>{i..<np - 1}. args_in (m (Args (w @ [j]))) = CopyArgs dst (int off + int j * int c) src (int j * int c) (int c)"
  shows "\<exists>m'. go ({Args (w @ [j]) | j. i \<le> j} \<union> cells src 0 (int n)) (insert (Args (w @ [np - 1])) (cells dst (int (off + i * c)) (int (n - i * c))))
      (copy_threads_steps w [i..<np - 1]
         (\<lambda>k. Write (Args (w @ [np - 1])) (Ar (CopyArgs dst (int off + int (np - 1) * int c) src (int (np - 1) * int c) (int n - int c * int (np - 1))))
                (copy_arr_serial_steps (w @ [np - 1]) k)) k, m) (k, m') \<and>
    mirror m' dst (put_at ys (off + i * c) (get_at xs (i * c) (n - i * c)))"
  using assms(8,9)
proof (induction "np - 1 - i" arbitrary: i k)
  case 0
  then have i: "i = np - 1" by simp
  have ic: "i * c \<le> n" unfolding c_def using i by (metis diff_le_self le_trans mult_le_mono1 times_div_less_eq_dividend)
  let ?v = "Ar (CopyArgs dst (int off + int (np - 1) * int c) src (int (np - 1) * int c) (int n - int c * int (np - 1)))"
  let ?m = "m(Args (w @ [np - 1]) := ?v)"
  have mir: "mirror ?m src xs" "mirror ?m dst ys" using assms(3,4) by (auto intro!: mirror_other)
  have "args_in (?m (Args (w @ [i]))) = CopyArgs dst (int (off + i * c)) src (int (i * c)) (int (n - i * c))"
    using i ic by (simp add: fun_upd_apply of_nat_diff mult.commute)
  then obtain m' where m': "go (insert (Args (w @ [i])) (cells src (int (i * c)) (int (n - i * c)))) (cells dst (int (off + i * c)) (int (n - i * c)))
      (copy_arr_serial_steps (w @ [i]) k, ?m) (k, m')" "mirror m' dst (put_at ys (off + i * c) (get_at xs (i * c) (n - i * c)))"
    using copy_arr_serial_steps_go [OF assms(2) mir, of "i * c" "n - i * c" "off + i * c" "w @ [i]" k] ic assms(5,6) by auto
  have "go ({Args (w @ [j]) | j. i \<le> j} \<union> cells src 0 (int n)) (insert (Args (w @ [np - 1])) (cells dst (int (off + i * c)) (int (n - i * c))))
      (copy_arr_serial_steps (w @ [i]) k, ?m) (k, m')"
    by (rule go_mono [OF m'(1)]) (use ic cells_mono [of 0 "int (i * c)" "int (n - i * c)" "int n" src] in \<open>auto simp: of_nat_diff\<close>)
  then show ?case using m'(2) i by (intro exI [of _ m']) (auto intro!: go_write)
next
  case (Suc x)
  then have i: "i < np - 1" "x = np - 1 - Suc i" by simp_all
  have "Suc i * c \<le> np * c" using i(1) by (intro mult_le_mono1) simp
  then have ic: "Suc i * c \<le> n" unfolding c_def by (metis le_trans times_div_less_eq_dividend)
  then have ic': "int i * int c + int c \<le> int n" by (simp add: add.commute flip: of_nat_mult of_nat_add)
  let ?R = "\<lambda>i. {Args (w @ [j]) | j. i \<le> j} \<union> cells src 0 (int n)"
  let ?W = "\<lambda>i. insert (Args (w @ [np - 1])) (cells dst (int (off + i * c)) (int (n - i * c)))"
  let ?own = "\<lambda>k. Write (Args (w @ [np - 1])) (Ar (CopyArgs dst (int off + int (np - 1) * int c) src (int (np - 1) * int c) (int n - int c * int (np - 1))))
                (copy_arr_serial_steps (w @ [np - 1]) k)"
  let ?R1 = "insert (Args (w @ [i])) (cells src (int (i * c)) (int c))" and ?W1 = "cells dst (int (off + i * c)) (int c)"
  have "args_in (m (Args (w @ [i]))) = CopyArgs dst (int (off + i * c)) src (int (i * c)) (int c)" using Suc.prems(2) i(1) by simp
  then obtain m1 where m1: "go ?R1 ?W1 (copy_arr_serial_steps (w @ [i]) Done, m) (Done, m1)" "mirror m1 dst (put_at ys (off + i * c) (get_at xs (i * c) c))"
    using copy_arr_serial_steps_go [OF assms(2-4), of "i * c" c "off + i * c" "w @ [i]" Done] ic assms(5,6) by auto
  obtain m2 where m2: "go (?R (Suc i)) (?W (Suc i)) (copy_threads_steps w [Suc i..<np - 1] ?own Done, m) (Done, m2)"
    "mirror m2 dst (put_at ys (off + Suc i * c) (get_at xs (Suc i * c) (n - Suc i * c)))"
    using Suc.hyps(1) [of "Suc i" Done] i Suc.prems(2) by auto
  have d: "?W1 \<inter> (?R (Suc i) \<union> ?W (Suc i)) = {}" "?W (Suc i) \<inter> (?R1 \<union> ?W1) = {}"
    "?R1 \<subseteq> ?R i" "?W1 \<subseteq> ?W i" "?R (Suc i) \<subseteq> ?R i" "?W (Suc i) \<subseteq> ?W i"
    using assms(2) i(1) ic ic' cells_mono [of 0 "int (i * c)" "int c" "int n" src]
      cells_mono [of "int (off + i * c)" "int (off + i * c)" "int c" "int (n - i * c)" dst]
      cells_mono [of "int (off + i * c)" "int (off + Suc i * c)" "int (n - Suc i * c)" "int (n - i * c)" dst]
    by (auto simp: cells_def)
  have len: "length (get_at xs (i * c) c) = c" using ic assms(5) by simp
  let ?m = "\<lambda>x. if x \<in> ?W1 then m1 x else m2 x"
  have "go (?R i) (?W i) (copy_threads_steps w [i..<np - 1] ?own k, m) (k, ?m)"
    using go_threads [OF m1(1) m2(1) d, of k] i(1) by (simp add: upt_conv_Cons del: upt_Suc)
  moreover have "mirror ?m dst (put_at (put_at ys (off + i * c) (get_at xs (i * c) c)) (off + Suc i * c) (get_at xs (Suc i * c) (n - Suc i * c)))"
    by (rule mirror_both [OF m1(2) m2(2)]) (use assms(5,6) ic len in \<open>auto simp only: cells_nat\<close>, use assms(5,6) ic in auto)
  moreover have "put_at (put_at ys (off + i * c) (get_at xs (i * c) c)) (off + Suc i * c) (get_at xs (Suc i * c) (n - Suc i * c))
      = put_at ys (off + i * c) (get_at xs (i * c) (n - i * c))"
    using put_at_append [of "off + i * c" "get_at xs (i * c) c" "get_at xs (Suc i * c) (n - Suc i * c)" ys]
      get_at_append [of xs "i * c" c "n - Suc i * c"] ic assms(5,6) by (simp add: add.assoc add.commute)
  ultimately show ?case by auto
qed

lemma copy_arr_parallel_steps_go:
  assumes "dst \<noteq> src" "mirror m src xs" "mirror m dst ys" "n \<le> length xs" "off + n \<le> length ys" "0 < np"
  shows "\<exists>m'. go (frames w \<union> cells src 0 (int n)) (frames w \<union> cells dst (int off) (int n))
      (copy_arr_parallel_steps np dst (int off) src (int n) w k, m) (k, m') \<and> mirror m' dst (put_at ys off (get_at xs 0 n))"
proof -
  let ?R = "frames w \<union> cells src 0 (int n)" and ?W = "frames w \<union> cells dst (int off) (int n)" and ?c = "n div np"
  let ?k = "copy_threads_steps w [0..<np - 1]
    (\<lambda>k. Write (Args (w @ [np - 1])) (Ar (CopyArgs dst (int off + int (np - 1) * int ?c) src (int (np - 1) * int ?c) (int n - int ?c * int (np - 1))))
       (copy_arr_serial_steps (w @ [np - 1]) k)) k"
  obtain m1 where m1: "go ?R ?W (copy_args_steps dst (int off) src (int ?c) w [0..<np - 1] ?k, m) (?k, m1)"
    "\<forall>i\<in>set [0..<np - 1]. m1 (Args (w @ [i])) = Ar (CopyArgs dst (int off + int i * int ?c) src (int i * int ?c) (int ?c))"
    "\<forall>x. (\<forall>i\<in>set [0..<np - 1]. x \<noteq> Args (w @ [i])) \<longrightarrow> m1 x = m x"
    using copy_args_steps_go [of "[0..<np - 1]" w ?W ?R dst "int off" src "int ?c" ?k m] by auto
  have mir: "mirror m1 src xs" "mirror m1 dst ys" using m1(3) assms(2,3) by (auto intro: mirror_frame)
  have "\<forall>j\<in>{0..<np - 1}. args_in (m1 (Args (w @ [j]))) = CopyArgs dst (int off + int j * int ?c) src (int j * int ?c) (int ?c)"
    using m1(2) by auto
  then obtain m2 where m2: "go ({Args (w @ [j]) | j. 0 \<le> j} \<union> cells src 0 (int n)) (insert (Args (w @ [np - 1])) (cells dst (int (off + 0 * ?c)) (int (n - 0 * ?c))))
      (?k, m1) (k, m2)" "mirror m2 dst (put_at ys (off + 0 * ?c) (get_at xs (0 * ?c) (n - 0 * ?c)))"
    using copy_threads_steps_go [OF assms(1) mir assms(4-6), of 0 w k] by auto
  have "go ?R ?W (?k, m1) (k, m2)" by (rule go_mono [OF m2(1)]) (auto simp: frames_def)
  then have "go ?R ?W (copy_args_steps dst (int off) src (int ?c) w [0..<np - 1] ?k, m) (k, m2)" by (rule go_trans [OF m1(1)])
  moreover have "copy_arr_parallel_steps np dst (int off) src (int n) w k = copy_args_steps dst (int off) src (int ?c) w [0..<np - 1] ?k"
    by (simp only: copy_arr_parallel_steps_def Let_def zdiv_int)
  ultimately show ?thesis using m2(2) by (intro exI [of _ m2]) simp
qed

section \<open>The threaded sort\<close>

text \<open>The memory that belongs to a call and to the calls below it.\<close>

definition own :: "path \<Rightarrow> loc set" where
  "own w = frames w \<union> {Cell (Buffer (w @ v)) i | v i. True}"

lemma own_simps [simp]: "Args w \<in> own w" "Args (w @ [i]) \<in> own w" "Cell Input j \<notin> own w" "own (w @ [i]) \<subseteq> own w"
  "frames w \<subseteq> own w" "cells (Buffer w) l n \<subseteq> own w"
  by (auto simp: own_def frames_def cells_def)

lemma own_disjoint: "i \<noteq> j \<Longrightarrow> own (w @ [i]) \<inter> own (w @ [j]) = {}"
  by (auto simp: own_def frames_def)

lemma own_cells [simp]: "own w \<inter> cells Input l n = {}" "cells Input l n \<inter> own w = {}"
  by (auto simp: own_def frames_def cells_def)

lemma merge_parallel_steps_go:
  assumes "0 < np" "sched_ok sc" "mirror mm Input xs" "run_ok xs l m" "run_ok xs (m + 1) r"
  shows "\<exists>m'. go (own w \<union> cells Input l (r - l + 1)) (own w \<union> cells Input l (r - l + 1))
      (merge_parallel_steps np Input l m r w k, mm) (k, m') \<and> mirror m' Input (merge_parallel sc xs l m r)"
proof -
  let ?n = "nat (r - l + 1)" and ?S = "own w \<union> cells Input l (r - l + 1)" and ?B = "Buffer w"
  let ?ps = "pmerge (run_of xs l m) (run_of xs (m + 1) r)"
  have n: "length ?ps = ?n" "nat l + ?n \<le> length xs" "int ?n = r - l + 1" "int (nat l) = l" "l \<le> m + 1" "m \<le> r"
    using length_run_of [OF assms(4)] length_run_of [OF assms(5)] assms(4,5) by (auto simp: run_ok_def)
  let ?m1 = "mm(Args (w @ [0]) := Ar (MergeArgs Input l m (m + 1) r ?B 0))"
  obtain ys where ys: "length ys = ?n" "mirror ?m1 ?B ys" using mirror_exists by blast
  have mi: "mirror ?m1 Input xs" using assms(3) by (auto intro!: mirror_other)
  have pre: "merge_pre Input ?B xs ?m1 ys (w @ [0]) l m (m + 1) r 0"
    using ys mi assms(4,5) n by (simp add: merge_pre_def fun_upd_apply)
  let ?k = "copy_arr_parallel_steps np Input l ?B (r - l + 1) (w @ [1]) k"
  have "nat (m - l + 1) + nat (r - (m + 1) + 1) < Suc ?n" using n by linarith
  then obtain m2 where m2: "go (merge_reads (w @ [0]) Input l m (m + 1) r) (merge_writes (w @ [0]) ?B 0 l m (m + 1) r)
      (merge_parallel_aux_steps (Suc ?n) (w @ [0]) ?k, ?m1) (?k, m2)" "mirror m2 ?B (merge_parallel_aux sc xs l m (m + 1) r ys 0)"
    using merges_all [of Input ?B xs "Suc ?n" sc] pre unfolding merges_def by blast
  have ps: "merge_parallel_aux sc xs l m (m + 1) r ys 0 = ?ps"
    using merge_pre_result(1) [OF pre refl] n(1) ys(1) by (simp add: put_at_def)
  have "merge_reads (w @ [0]) Input l m (m + 1) r \<subseteq> ?S" "merge_writes (w @ [0]) ?B 0 l m (m + 1) r \<subseteq> ?S"
    using n by (auto simp: merge_reads_def merge_writes_def cells_def own_def frames_def)
  then have g2: "go ?S ?S (merge_parallel_aux_steps (Suc ?n) (w @ [0]) ?k, ?m1) (?k, m2)" by (rule go_mono [OF m2(1)])
  have mi2: "mirror m2 Input xs" by (rule mirror_frame [OF mi], rule go_frame [OF m2(1)]) (simp add: merge_writes_def)
  obtain m3 where m3: "go (frames (w @ [1]) \<union> cells ?B 0 (int ?n)) (frames (w @ [1]) \<union> cells Input (int (nat l)) (int ?n))
      (copy_arr_parallel_steps np Input (int (nat l)) ?B (int ?n) (w @ [1]) k, m2) (k, m3)" "mirror m3 Input (put_at xs (nat l) (get_at ?ps 0 ?n))"
    using copy_arr_parallel_steps_go [of Input ?B m2 ?ps xs ?n "nat l" np "w @ [1]" k] mi2 m2(2) ps n assms(1) by auto
  have "go ?S ?S (?k, m2) (k, m3)"
    by (rule go_mono [OF m3(1) [unfolded n(3,4)]]) (auto simp: own_def frames_def cells_def)
  then have "go ?S ?S (merge_parallel_steps np Input l m r w k, mm) (k, m3)"
    using go_trans [OF g2] by (simp add: merge_parallel_steps_def go_write)
  moreover have "put_at xs (nat l) (get_at ?ps 0 ?n) = merge_parallel sc xs l m r"
    using merge_parallel_put_at [OF assms(2,4,5)] n(1) by (simp add: get_at_def)
  ultimately show ?thesis using m3(2) by auto
qed

text \<open>What a call of \<^verbatim>\<open>merge_sort_threaded\<close> accesses, and what it does.\<close>

definition sort_cells :: "path \<Rightarrow> int \<Rightarrow> int \<Rightarrow> loc set" where
  "sort_cells w l r = own w \<union> cells Input l (r - l + 1)"

definition sorts :: "nat \<Rightarrow> schedule \<Rightarrow> nat \<Rightarrow> bool" where
  "sorts np sc n \<longleftrightarrow> (\<forall>m xs w l r k. mirror m Input xs \<longrightarrow> run_ok xs l r \<longrightarrow> args_in (m (Args w)) = SortArgs Input l r \<longrightarrow> nat (r - l) < n \<longrightarrow>
     (\<exists>m'. go (sort_cells w l r) (sort_cells w l r) (merge_sort_threaded_steps n np w k, m) (k, m') \<and>
        mirror m' Input (merge_sort_threaded sc xs l r)))"

text \<open>The two halves, sorted by two threads.\<close>

lemma sort_halves_go:
  assumes "sorts np sc n" "sched_ok sc" "mirror mm Input xs" "run_ok xs l r" "l \<le> m" "m < r" "nat (r - l) \<le> n"
    "args_in (mm (Args (w @ [0]))) = SortArgs Input l m" "args_in (mm (Args (w @ [1]))) = SortArgs Input (m + 1) r"
  shows "\<exists>m'. go (sort_cells w l r) (sort_cells w l r)
      (Par (merge_sort_threaded_steps n np (w @ [1]) Done) (merge_sort_threaded_steps n np (w @ [0]) Done) k, mm) (k, m') \<and>
    mirror m' Input (merge_sort_threaded sc (merge_sort_threaded sc xs (m + 1) r) l m) \<and>
    mirror m' Input (merge_sort_threaded sc (merge_sort_threaded sc xs l m) (m + 1) r)"
proof -
  have ok: "run_ok ys l m" "run_ok ys (m + 1) r" if "length ys = length xs" for ys using that assms(4-6) by (auto simp: run_ok_def)
  define T1 T2 where "T1 = tsort (run_of xs l m)" and "T2 = tsort (run_of xs (m + 1) r)"
  have len: "int (length T1) = m - l + 1" "int (length T2) = r - m" using length_run_of [OF ok(1)] length_run_of [OF ok(2)] assms(5,6)
    by (auto simp: T1_def T2_def)
  have b: "0 \<le> l" "nat (m + 1) = nat l + length T1" "nat l + length T1 + length T2 \<le> length xs"
    using assms(4-6) len by (auto simp: run_ok_def)
  have res: "merge_sort_threaded sc ys l m = put_at ys (nat l) T1" if "length ys = length xs" "run_of ys l m = run_of xs l m" for ys
    using merge_sort_threaded_put_at [OF assms(2) ok(1)] that by (simp add: T1_def)
  have res2: "merge_sort_threaded sc ys (m + 1) r = put_at ys (nat (m + 1)) T2" if "length ys = length xs" "run_of ys (m + 1) r = run_of xs (m + 1) r" for ys
    using merge_sort_threaded_put_at [OF assms(2) ok(2)] that by (simp add: T2_def)
  have szs: "nat (r - (m + 1)) < n" "nat (m - l) < n" using assms(5-7) by linarith+
  note ih = assms(1) [unfolded sorts_def, rule_format, OF assms(3)]
  let ?W1 = "sort_cells (w @ [1]) (m + 1) r" and ?W2 = "sort_cells (w @ [0]) l m"
  obtain m1 where m1: "go ?W1 ?W1 (merge_sort_threaded_steps n np (w @ [1]) Done, mm) (Done, m1)" "mirror m1 Input (put_at xs (nat (m + 1)) T2)"
    using ih [OF ok(2) [OF refl] assms(9) szs(1), of Done] res2 [OF refl refl] by auto
  obtain m2 where m2: "go ?W2 ?W2 (merge_sort_threaded_steps n np (w @ [0]) Done, mm) (Done, m2)" "mirror m2 Input (put_at xs (nat l) T1)"
    using ih [OF ok(1) [OF refl] assms(8) szs(2), of Done] res [OF refl refl] by auto
  have "own (w @ [0]) \<inter> own (w @ [1]) = {}" "cells Input l (m - l + 1) \<inter> cells Input (m + 1) (r - (m + 1) + 1) = {}"
    using own_disjoint [of 0 1 w] by (auto simp: cells_def)
  moreover have "?W1 \<subseteq> sort_cells w l r" "?W2 \<subseteq> sort_cells w l r"
    unfolding sort_cells_def using assms(5,6) by (intro Un_mono own_simps cells_mono; simp)+
  ultimately have d: "?W1 \<inter> (?W2 \<union> ?W2) = {}" "?W2 \<inter> (?W1 \<union> ?W1) = {}"
    "?W1 \<subseteq> sort_cells w l r" "?W1 \<subseteq> sort_cells w l r" "?W2 \<subseteq> sort_cells w l r" "?W2 \<subseteq> sort_cells w l r"
    by (auto simp: sort_cells_def) (metis IntI disjoint_iff own_cells)+
  let ?m = "\<lambda>x. if x \<in> ?W1 then m1 x else m2 x" and ?C = "put_at (put_at xs (nat (m + 1)) T2) (nat l) T1"
  have "Cell Input (int i) \<in> ?W1 \<longleftrightarrow> nat (m + 1) \<le> i \<and> i < nat (m + 1) + length T2" for i
    using len(2) assms(5) b(1) by (auto simp: sort_cells_def)
  then have C: "mirror ?m Input ?C" by (intro mirror_both [OF m1(2) m2(2)]) (use b in auto)
  have c: "put_at (put_at xs (nat l) T1) (nat (m + 1)) T2 = ?C" using b by (intro put_at_commute) auto
  have "run_of (put_at xs (nat (m + 1)) T2) l m = run_of xs l m" "run_of (put_at xs (nat l) T1) (m + 1) r = run_of xs (m + 1) r"
    using b len by (auto simp: run_of_def intro!: get_put_disjoint)
  then have "merge_sort_threaded sc (merge_sort_threaded sc xs (m + 1) r) l m = ?C" "merge_sort_threaded sc (merge_sort_threaded sc xs l m) (m + 1) r = ?C"
    using b c by (simp_all add: res res2)
  then show ?thesis using go_threads [OF m1(1) m2(1) d, of k] C by auto
qed

lemma merge_sort_threaded_steps_level:
  assumes "sorts np sc n" "sched_ok sc" "0 < np" "mirror mm Input xs" "run_ok xs l r" "args_in (mm (Args w)) = SortArgs Input l r"
    "nat (r - l) < Suc n" and big: "\<not> r - l + 1 \<le> MIN_THREAD_ELEM"
  shows "\<exists>m'. go (sort_cells w l r) (sort_cells w l r) (merge_sort_threaded_steps (Suc n) np w k, mm) (k, m') \<and>
    mirror m' Input (merge_sort_threaded sc xs l r)"
proof -
  define m where "m = l + (r - l) div 2"
  have m: "l \<le> m" "m < r" using big by (auto simp: m_def MIN_THREAD_ELEM_def)
  let ?S = "sort_cells w l r"
  let ?m1 = "mm(Args (w @ [0]) := Ar (SortArgs Input l m), Args (w @ [1]) := Ar (SortArgs Input (m + 1) r))"
  let ?k = "merge_parallel_steps np Input l m r (w @ [2]) k"
  let ?par = "Par (merge_sort_threaded_steps n np (w @ [1]) Done) (merge_sort_threaded_steps n np (w @ [0]) Done) ?k"
  let ?C = "merge_sort_threaded sc (merge_sort_threaded sc xs (m + 1) r) l m"
  have "mirror ?m1 Input xs" using assms(4) by (intro mirror_other [OF mirror_other]) auto
  then obtain m2 where m2: "go ?S ?S (?par, ?m1) (?k, m2)" "mirror m2 Input ?C"
    "mirror m2 Input (merge_sort_threaded sc (merge_sort_threaded sc xs l m) (m + 1) r)"
    using sort_halves_go [OF assms(1,2) _ assms(5) m, of ?m1 w ?k] assms(7) by (auto simp: fun_upd_apply)
  have len: "length (merge_sort_threaded sc ys a b) = length ys" if "run_ok ys a b" for ys a b
    using merge_sort_threaded_put_at [OF assms(2) that] length_run_of [OF that] that by (auto simp: run_ok_def)
  have ok: "run_ok ys l m" "run_ok ys (m + 1) r" if "length ys = length xs" for ys using that assms(5) m by (auto simp: run_ok_def)
  have lC: "length ?C = length xs" using len [OF ok(1)] len [OF ok(2)] by simp
  obtain m3 where m3: "go (own (w @ [2]) \<union> cells Input l (r - l + 1)) (own (w @ [2]) \<union> cells Input l (r - l + 1)) (?k, m2) (k, m3)"
    "mirror m3 Input (merge_parallel sc ?C l m r)"
    using merge_parallel_steps_go [OF assms(3,2) m2(2) ok [OF lC], of "w @ [2]" k] by blast
  have "go ?S ?S (?k, m2) (k, m3)"
    by (rule go_mono [OF m3(1)]; unfold sort_cells_def; intro Un_mono own_simps order_refl)
  then have g: "go ?S ?S (?par, ?m1) (k, m3)" by (rule go_trans [OF m2(1)])
  have "Args w \<in> ?S" "Args (w @ [0]) \<in> ?S" "Args (w @ [1]) \<in> ?S" by (simp_all add: sort_cells_def)
  then have "go ?S ?S (merge_sort_threaded_steps (Suc n) np w k, mm) (k, m3)"
    using g big m assms(6) by (auto simp: Let_def simp flip: m_def intro!: go_read go_write)
  moreover have "merge_sort_threaded sc (merge_sort_threaded sc xs l m) (m + 1) r = ?C"
    by (rule nth_equalityI) (use m2(2,3) len [OF ok(1)] len [OF ok(2)] in \<open>auto simp: mirror_def\<close>)
  then have "merge_sort_threaded sc xs l r = merge_parallel sc ?C l m r"
    using big m by (subst merge_sort_threaded.simps) (simp add: Let_def flip: m_def)
  ultimately show ?thesis using m3(2) by auto
qed

lemma sorts_all:
  assumes "0 < np" "sched_ok sc"
  shows "sorts np sc n"
proof (induction n)
  case 0
  then show ?case by (simp add: sorts_def)
next
  case (Suc n)
  show ?case unfolding sorts_def
  proof (intro allI impI)
    fix m xs w l r k
    assume pre: "mirror m Input xs" "run_ok xs l r" "args_in (m (Args w)) = SortArgs Input l r" "nat (r - l) < Suc n"
    let ?S = "sort_cells w l r"
    show "\<exists>m'. go ?S ?S (merge_sort_threaded_steps (Suc n) np w k, m) (k, m') \<and> mirror m' Input (merge_sort_threaded sc xs l r)"
    proof (cases "r - l + 1 \<le> MIN_THREAD_ELEM")
      case True
      obtain m' where m': "go (cells Input l (r - l + 1)) (cells Input l (r - l + 1)) (insertion_sort_steps Input l (r - l + 1) k, m) (k, m')"
        "mirror m' Input (insertion_sort xs (nat l) (r - l + 1))"
        using insertion_sort_steps_go [OF pre(1,2)] by blast
      have "go ?S ?S (insertion_sort_steps Input l (r - l + 1) k, m) (k, m')" by (rule go_mono [OF m'(1)]) (simp_all add: sort_cells_def)
      then show ?thesis using m'(2) True pre(3)
        by (intro exI [of _ m']) (auto simp: merge_sort_threaded.simps [of sc xs] sort_cells_def intro!: go_read)
    next
      case False
      then show ?thesis by (rule merge_sort_threaded_steps_level [OF Suc assms(2,1) pre])
    qed
  qed
qed

lemma merge_sort_parallel_steps_go:
  assumes "0 < np" "sched_ok sc" "mirror m Input xs" "run_ok xs l r"
  shows "\<exists>m'. go (sort_cells [] l r) (sort_cells [] l r) (merge_sort_parallel_steps np Input l r, m) (Done, m') \<and>
    mirror m' Input (merge_sort_parallel sc xs l r)"
proof -
  let ?m = "m(Args [] := Ar (SortArgs Input l r))"
  have "mirror ?m Input xs" using assms(3) by (auto intro!: mirror_other)
  then obtain m' where "go (sort_cells [] l r) (sort_cells [] l r) (merge_sort_threaded_steps (Suc (nat (r - l))) np [] Done, ?m) (Done, m')"
    "mirror m' Input (merge_sort_threaded sc xs l r)"
    using sorts_all [OF assms(1,2), unfolded sorts_def, rule_format, OF _ assms(4), of ?m "[]" "Suc (nat (r - l))" Done]
    by (auto simp: fun_upd_apply)
  then show ?thesis by (auto simp: merge_sort_parallel_steps_def merge_sort_parallel_def sort_cells_def intro!: go_write)
qed

declare fun_upd_apply [simp]

section \<open>Properties\<close>

text \<open>
  C5: The threaded merge sort, with the accesses of its threads interleaved in any way. The memory at the start
  holds the array and anything else besides. Every run comes to its end, none gets stuck, and each
  leaves the same array: the one that the functions compute when the threads run one after the other, a
  permutation of the range, with the elements outside the range unchanged.
\<close>

theorem merge_sort_parallel_interleavings:
  assumes "0 < np" "mirror m Input arr" "0 \<le> l" "l \<le> r" "r < int (length arr)" "sched_ok sc"
    and "step\<^sup>*\<^sup>* (merge_sort_parallel_steps np Input l r, m) (p, m')"
  shows "\<not> (\<exists>c. c 0 = (merge_sort_parallel_steps np Input l r, m) \<and> (\<forall>i. step (c i) (c (Suc i)))) \<and>
    (p = Done \<or> (\<exists>c. step (p, m') c)) \<and>
    (p = Done \<longrightarrow> mirror m' Input (merge_sort_parallel sc arr l r) \<and>
       mset (run_of (merge_sort_parallel sc arr l r) l r) = mset (run_of arr l r) \<and>
       (\<forall>i. i < l \<or> r < i \<longrightarrow> m' (Cell Input i) = m (Cell Input i)))"
proof -
  have ok: "run_ok arr l r" using assms(3-5) by (simp add: run_ok_def)
  let ?p = "merge_sort_parallel_steps np Input l r" and ?S = "sort_cells [] l r"
  obtain m1 where m1: "go ?S ?S (?p, m) (Done, m1)" "mirror m1 Input (merge_sort_parallel sc arr l r)"
    using merge_sort_parallel_steps_go [OF assms(1,6,2) ok] by blast
  have s: "safe ?p ?S ?S m" "exec ?p m = m1" using go_Done [OF m1(1)] by simp_all
  have p: "safe p ?S ?S m'" "exec p m' = m1" using steps_safe [OF assms(7) s(1)] s(2) by simp_all
  have "m1 (Cell Input i) = m (Cell Input i)" if "i < l \<or> r < i" for i
    using that go_frame [OF m1(1), of "Cell Input i"] by (auto simp: sort_cells_def)
  moreover have "run_of (merge_sort_parallel sc arr l r) l r = tsort (run_of arr l r)"
    using merge_sort_threaded_put_at [OF assms(6) ok] length_run_of [OF ok] ok
    by (auto simp: merge_sort_parallel_def run_of_def run_ok_def intro!: get_put_same)
  ultimately show ?thesis using no_endless_run safe_progress [OF p(1)] p(2) m1(2) by (auto simp: mset_tsort)
qed

text \<open>Eighteen elements on two processors: the sort, the merge and the copy create threads.\<close>

definition memory_18 :: mem where
  "memory_18 x = (case x of Cell Input i \<Rightarrow> El (elem_of_key (17 - i)) | _ \<Rightarrow> El (elem_of_key 0))"

definition descending_18 :: "elem list" where
  "descending_18 = map (\<lambda>i. elem_of_key (17 - int i)) [0..<18]"

lemma memory_18: "mirror memory_18 Input descending_18" "length descending_18 = 18"
  by (simp_all add: mirror_def memory_18_def descending_18_def)

theorem merge_sort_parallel_interleavings_witness:
  "\<exists>m'. step\<^sup>*\<^sup>* (merge_sort_parallel_steps 2 Input 0 17, memory_18) (Done, m') \<and>
     mirror m' Input (merge_sort_parallel any_sched descending_18 0 17) \<and>
     mset (run_of (merge_sort_parallel any_sched descending_18 0 17) 0 17) = mset (run_of descending_18 0 17)"
proof -
  have sc: "sched_ok any_sched" by (auto simp: sched_ok_def any_sched_def)
  obtain m1 where "go (sort_cells [] 0 17) (sort_cells [] 0 17) (merge_sort_parallel_steps 2 Input 0 17, memory_18) (Done, m1)"
    using merge_sort_parallel_steps_go [OF _ sc memory_18(1), of 2 0 17] memory_18(2) by (auto simp: run_ok_def)
  then have "safe (merge_sort_parallel_steps 2 Input 0 17) (sort_cells [] 0 17) (sort_cells [] 0 17) memory_18"
    using go_Done by blast
  from safe_finishes [OF this] obtain m' where s: "step\<^sup>*\<^sup>* (merge_sort_parallel_steps 2 Input 0 17, memory_18) (Done, m')" by blast
  show ?thesis
    using merge_sort_parallel_interleavings [OF _ memory_18(1) _ _ _ sc s] s memory_18(2) by auto
qed

end
