(* ===== verification/Ufs.thy ===== *)
theory Ufs
  imports Prelude
begin

text \<open>
  The on-disk format of the UFS file system (\<^verbatim>\<open>src/filesystem/ufs.h\<close>), the program \<^verbatim>\<open>mkfs.c\<close> that
  creates an image, and the file server \<^verbatim>\<open>server.c\<close> that works on it. The image is a byte list, the
  server's globals are a record, and a C \<^verbatim>\<open>int\<close> or \<^verbatim>\<open>unsigned int\<close> is a 32-bit word, so that every
  address computation wraps where the code's does (a floating point expression such as
  \<^verbatim>\<open>floor(1.0 * offset / UFS_BLOCK_SIZE)\<close> is the integer division it computes exactly).

  Uninitialised memory (\<^verbatim>\<open>malloc\<close> and local variables) holds whatever \<open>garbage\<close> says: \<open>garbage k i\<close>
  is byte \<open>i\<close> of the \<open>k\<close>-th object the server creates. An access outside an object is a \<open>Fault\<close>.
  Debug output (\<^verbatim>\<open>debug\<close>, \<^verbatim>\<open>inode_dbg\<close>, \<^verbatim>\<open>dir_dbg\<close>) is left out: it only reads.
\<close>

section \<open>On-disk structures\<close>

definition UFS_DIRECTORY :: u32 where "UFS_DIRECTORY = 0"

definition UFS_REGULAR_FILE :: u32 where "UFS_REGULAR_FILE = 1"

definition UFS_BLOCK_SIZE :: u32 where "UFS_BLOCK_SIZE = 4096"

definition DIRECT_PTRS :: nat where "DIRECT_PTRS = 30"

record inode_t =
  itype :: u32
  isize :: u32
  idirect :: "u32 list"

record super_t =
  inode_bitmap_addr :: u32
  inode_bitmap_len :: u32
  data_bitmap_addr :: u32
  data_bitmap_len :: u32
  inode_region_addr :: u32
  inode_region_len :: u32
  data_region_addr :: u32
  data_region_len :: u32
  num_inodes :: u32
  num_data :: u32

definition inode_of :: "byte list \<Rightarrow> inode_t" where
  "inode_of bs = \<lparr> itype = word_at bs 0, isize = word_at bs 4,
     idirect = map (\<lambda>i. word_at bs (8 + 4 * i)) [0..<DIRECT_PTRS] \<rparr>"

definition inode_bytes :: "inode_t \<Rightarrow> byte list" where
  "inode_bytes nd = le32 (itype nd) @ le32 (isize nd) @ concat (map le32 (idirect nd))"

definition super_of :: "byte list \<Rightarrow> super_t" where
  "super_of bs = \<lparr> inode_bitmap_addr = word_at bs 0, inode_bitmap_len = word_at bs 4,
     data_bitmap_addr = word_at bs 8, data_bitmap_len = word_at bs 12,
     inode_region_addr = word_at bs 16, inode_region_len = word_at bs 20,
     data_region_addr = word_at bs 24, data_region_len = word_at bs 28,
     num_inodes = word_at bs 32, num_data = word_at bs 36 \<rparr>"

definition super_bytes :: "super_t \<Rightarrow> byte list" where
  "super_bytes s = concat (map le32 [inode_bitmap_addr s, inode_bitmap_len s, data_bitmap_addr s,
     data_bitmap_len s, inode_region_addr s, inode_region_len s, data_region_addr s, data_region_len s,
     num_inodes s, num_data s])"

section \<open>The image file\<close>

text \<open>\<^verbatim>\<open>write\<close> at a file offset: the file grows, with a hole of zeros before the data if need be.\<close>

definition file_write :: "byte list \<Rightarrow> nat \<Rightarrow> byte list \<Rightarrow> byte list" where
  "file_write im p bs =
     (if bs = [] then im else put_at (im @ replicate (p + length bs - length im) 0) p bs)"

record serv =
  img :: "byte list"
  pos :: nat
  super :: super_t
  highest_inode :: u32
  hghst_alloc_dblk :: u32
  garbage :: "nat \<Rightarrow> nat \<Rightarrow> byte"
  mallocs :: nat

definition malloc :: "serv \<Rightarrow> nat \<Rightarrow> byte list \<times> serv" where
  "malloc st n = (map (garbage st (mallocs st)) [0..<n], st\<lparr>mallocs := Suc (mallocs st)\<rparr>)"

text \<open>
  \<^verbatim>\<open>fsread\<close> fills (a prefix of) the buffer it is given. \<^verbatim>\<open>lseek\<close> to a negative offset fails and leaves
  the file position where it was; \<^verbatim>\<open>read\<close> stops at the end of the file.
\<close>

definition fsread :: "serv \<Rightarrow> u32 \<Rightarrow> byte list \<Rightarrow> byte list \<times> serv" where
  "fsread st addr buf =
     (let p = (if sint addr < 0 then pos st else unat addr);
          bs = get_at (img st) p (length buf)
      in (put_at buf 0 bs, st\<lparr>pos := p + length bs\<rparr>))"

definition fswrite :: "serv \<Rightarrow> u32 \<Rightarrow> byte list \<Rightarrow> serv" where
  "fswrite st addr bs = st\<lparr>img := file_write (img st) (unat addr) bs, pos := unat addr + length bs\<rparr>"

section \<open>Bitmaps and inodes\<close>

definition mask :: "u32 \<Rightarrow> u32" where
  "mask num = push_bit (31 - unat num mod 32) 1"

definition bmaddr :: "u32 \<Rightarrow> u32 \<Rightarrow> u32" where
  "bmaddr start inum = start * UFS_BLOCK_SIZE + inum div 32 * 4"

definition inode_addr :: "serv \<Rightarrow> u32 \<Rightarrow> u32" where
  "inode_addr st inum = inode_region_addr (super st) * UFS_BLOCK_SIZE + inum * 128"

text \<open>
  \<^verbatim>\<open>read_inode\<close> gets the buffer to fill and returns the return code, the buffer and the state. The test
  is the code's \<^verbatim>\<open>ibm && mask(inum)\<close>; the assignment of \<^verbatim>\<open>NULL\<close> to the parameter has no effect for the
  caller, whose buffer keeps its content.
\<close>

definition read_inode :: "serv \<Rightarrow> u32 \<Rightarrow> byte list \<Rightarrow> u32 \<times> byte list \<times> serv" where
  "read_inode st inum ind =
     (let (ibm0, st) = malloc st 4;
          (ibm, st) = fsread st (bmaddr (inode_bitmap_addr (super st)) inum) ibm0
      in if un_le32 ibm \<noteq> 0 \<and> mask inum \<noteq> 0
         then let (ind, st) = fsread st (inode_addr st inum) ind in (0, ind, st)
         else (-1, ind, st))"

text \<open>\<^verbatim>\<open>malloc\<close> of an inode followed by \<^verbatim>\<open>read_inode\<close>, as every caller does; the return code is ignored.\<close>

definition get_inode :: "serv \<Rightarrow> u32 \<Rightarrow> inode_t \<times> serv" where
  "get_inode st inum =
     (let (buf, st) = malloc st 128; (_, ind, st) = read_inode st inum buf in (inode_of ind, st))"

definition write_inode :: "serv \<Rightarrow> u32 \<Rightarrow> inode_t \<Rightarrow> serv" where
  "write_inode st inum nd = fswrite st (inode_addr st inum) (inode_bytes nd)"

section \<open>Looking up a name\<close>

text \<open>
  A directory entry (\<^verbatim>\<open>dir_ent_t\<close>) is kept as its 32 bytes: 28 of name and the inode number at offset 28.
  A C string is the bytes before the first zero. \<open>name_eq\<close> is \<^verbatim>\<open>strcmp(de->name, name) == 0\<close> on the 32 bytes
  of an entry: an entry without a zero byte that agrees with the name to its end makes \<^verbatim>\<open>strcmp\<close>
  read behind it.
\<close>

definition cstr :: "byte list \<Rightarrow> byte list" where
  "cstr bs = takeWhile (\<lambda>b. b \<noteq> 0) bs"

definition name_eq :: "byte list \<Rightarrow> byte list \<Rightarrow> bool outcome" where
  "name_eq de name =
     (if cstr de = de \<and> take (length de) name = de then Fault ''strcmp'' else Ok (cstr de = name))"

fun lookup_entries ::
  "nat list \<Rightarrow> serv \<Rightarrow> u32 \<Rightarrow> byte list \<Rightarrow> byte list \<Rightarrow> ((byte list \<times> u32) option \<times> serv) outcome" where
  "lookup_entries [] st blk name de = Ok (None, st)"
| "lookup_entries (j # js) st blk name de =
     (let deaddr = blk * UFS_BLOCK_SIZE + of_nat j * 32;
          (de, st) = fsread st deaddr de
      in andThen (name_eq de name) (\<lambda>eq.
           if eq \<and> word_at de 28 \<noteq> -1 then Ok (Some (de, deaddr), st)
           else lookup_entries js st blk name de))"

fun lookup_blocks ::
  "nat list \<Rightarrow> serv \<Rightarrow> inode_t \<Rightarrow> byte list \<Rightarrow> ((byte list \<times> u32) option \<times> serv) outcome" where
  "lookup_blocks [] st nd name = Ok (None, st)"
| "lookup_blocks (i # is) st nd name =
     (if DIRECT_PTRS \<le> i then Fault ''direct''
      else let (de, st) = malloc st 32
           in andThen (lookup_entries [0..<128] st (idirect nd ! i) name de) (\<lambda>(r, st).
                case r of Some found \<Rightarrow> Ok (Some found, st)
                | None \<Rightarrow> lookup_blocks is st nd name))"

text \<open>The number of blocks of a directory: \<^verbatim>\<open>ceil(1.0 * nd->size / UFS_BLOCK_SIZE)\<close>.\<close>

definition mxb :: "inode_t \<Rightarrow> u32" where
  "mxb nd = word_of_int (- ((- sint (isize nd)) div 4096))"

definition lookup_file :: "serv \<Rightarrow> u32 \<Rightarrow> byte list \<Rightarrow> ((byte list \<times> u32) option \<times> serv) outcome" where
  "lookup_file st pinum name =
     (let (nd, st) = get_inode st pinum
      in if itype nd \<noteq> UFS_DIRECTORY then Ok (None, st)
         else lookup_blocks [0..<unat (mxb nd)] st nd name)"

section \<open>Allocation\<close>

definition set_bit_at :: "serv \<Rightarrow> u32 \<Rightarrow> u32 \<Rightarrow> serv" where
  "set_bit_at st start num =
     (let (bits0, st) = malloc st 4;
          (bits, st) = fsread st (bmaddr start num) bits0
      in fswrite st (bmaddr start num) (le32 (un_le32 bits OR mask num)))"

definition alloc_dblk :: "serv \<Rightarrow> u32 \<times> serv" where
  "alloc_dblk st =
     (if hghst_alloc_dblk st = data_region_len (super st) - 1 then (-1, st)
      else let st = st\<lparr>hghst_alloc_dblk := hghst_alloc_dblk st + 1\<rparr>;
               st = set_bit_at st (data_bitmap_addr (super st)) (hghst_alloc_dblk st)
           in (data_region_addr (super st) + hghst_alloc_dblk st, st))"

definition new_inode :: "serv \<Rightarrow> u32 \<Rightarrow> u32 \<times> serv" where
  "new_inode st ty =
     (if highest_inode st = num_inodes (super st) - 1 then (-1, st)
      else let st = st\<lparr>highest_inode := highest_inode st + 1\<rparr>;
               st = set_bit_at st (inode_bitmap_addr (super st)) (highest_inode st);
               newnd = \<lparr> itype = ty, isize = 0, idirect = replicate DIRECT_PTRS (-1) \<rparr>
           in (highest_inode st, write_inode st (highest_inode st) newnd))"

section \<open>Reading and writing files\<close>

text \<open>The loop of \<^verbatim>\<open>write_file\<close> that allocates missing blocks from the wanted one downwards.\<close>

fun alloc_down :: "nat \<Rightarrow> serv \<Rightarrow> u32 list \<Rightarrow> u32 list option \<times> serv" where
  "alloc_down d st ds =
     (if ds ! d \<noteq> -1 then (Some ds, st)
      else let (ndb, st) = alloc_dblk st
           in if ndb = -1 then (None, st)
              else (case d of 0 \<Rightarrow> (Some (ds[d := ndb]), st)
                    | Suc d' \<Rightarrow> alloc_down d' st (ds[d := ndb])))"

declare alloc_down.simps [simp del]

definition set_size :: "u32 \<Rightarrow> inode_t \<Rightarrow> inode_t" where
  "set_size n nd = nd\<lparr>isize := (if isize nd < n then n else isize nd)\<rparr>"

definition write_file ::
  "serv \<Rightarrow> u32 \<Rightarrow> byte list \<Rightarrow> u32 \<Rightarrow> u32 \<Rightarrow> u32 \<Rightarrow> (u32 \<times> serv) outcome" where
  "write_file st inum buf offset nbytes ty =
     (let (fnd, st) = get_inode st inum;
          ofd = unat (offset div UFS_BLOCK_SIZE);
          ofr = offset mod UFS_BLOCK_SIZE;
          offree = UFS_BLOCK_SIZE - ofr
      in if itype fnd \<noteq> ty then Ok (-1, st)
         else if DIRECT_PTRS - 1 < ofd then Ok (-1, st)
         else case alloc_down ofd st (idirect fnd) of
           (None, st) \<Rightarrow> Ok (-1, st)
         | (Some ds, st) \<Rightarrow>
             (let fnd = fnd\<lparr>idirect := ds\<rparr>;
                  st = write_inode st inum fnd
              in if nbytes \<le> offree
                 then if length buf < unat nbytes then Fault ''write''
                      else (let st = fswrite st (ds ! ofd * UFS_BLOCK_SIZE + ofr) (take (unat nbytes) buf)
                            in Ok (0, write_inode st inum (set_size (offset + nbytes) fnd)))
                 else if ofd = DIRECT_PTRS - 1 then Ok (-1, st)
                 else (let (ndb, st) = alloc_dblk st;
                           fnd = fnd\<lparr>idirect := ds[Suc ofd := ndb]\<rparr>
                       in if ndb = -1 then Ok (-1, st)
                          else if length buf < unat nbytes then Fault ''write''
                          else (let st = fswrite st (ds ! ofd * UFS_BLOCK_SIZE + ofr) (take (unat offree) buf);
                                    st = fswrite st (ndb * UFS_BLOCK_SIZE)
                                           (get_at buf (unat offree) (unat (nbytes - offree)))
                                in Ok (0, write_inode st inum (set_size (offset + nbytes) fnd))))))"

definition read_file ::
  "serv \<Rightarrow> u32 \<Rightarrow> byte list \<Rightarrow> u32 \<Rightarrow> u32 \<Rightarrow> (u32 \<times> byte list \<times> serv) outcome" where
  "read_file st inum buf offset nbytes =
     (let (fnd, st) = get_inode st inum;
          rdb = unat (word_of_int (sint offset div 4096) :: u32);
          rds = offset mod UFS_BLOCK_SIZE;
          rdf = UFS_BLOCK_SIZE - rds;
          ds = idirect fnd
      in if DIRECT_PTRS - 1 < rdb then Ok (-1, buf, st)
         else if nbytes \<le> rdf
         then if ds ! rdb = -1 then Ok (-1, buf, st)
              else if length buf < unat nbytes then Fault ''read''
              else (let (bs, st) = fsread st (ds ! rdb * UFS_BLOCK_SIZE + rds) (take (unat nbytes) buf)
                    in Ok (0, put_at buf 0 bs, st))
         else if rdb = DIRECT_PTRS - 1 then Ok (-1, buf, st)
         else if ds ! rdb = -1 \<or> ds ! Suc rdb = -1 then Ok (-1, buf, st)
         else if length buf < unat nbytes then Fault ''read''
         else (let (bs, st) = fsread st (ds ! rdb * UFS_BLOCK_SIZE + rds) (take (unat rdf) buf);
                   (cs, st) = fsread st (ds ! Suc rdb * UFS_BLOCK_SIZE)
                                (get_at buf (unat rdf) (unat (nbytes - rdf)))
               in Ok (0, put_at (put_at buf 0 bs) (unat rdf) cs, st)))"

section \<open>Creating and removing names\<close>

definition new_dir_block :: "byte list \<Rightarrow> u32 \<Rightarrow> u32 \<Rightarrow> byte list" where
  "new_dir_block db ninum pinum =
     (let db = put_at db 0 [46, 0];
          db = put_at db 28 (le32 ninum);
          db = put_at db 32 [46, 46, 0];
          db = put_at db 60 (le32 pinum)
      in fold (\<lambda>i db. put_at db (32 * i + 28) (le32 (-1))) [2..<128] db)"

definition init_dir :: "serv \<Rightarrow> u32 \<Rightarrow> u32 \<Rightarrow> u32 \<times> serv" where
  "init_dir st ninum pinum =
     (let (nnd, st) = get_inode st ninum;
          (ndb, st) = alloc_dblk st
      in if ndb = -1 then (-1, st)
         else let (db, st) = malloc st 4096;
                  st = fswrite st (ndb * UFS_BLOCK_SIZE) (new_dir_block db ninum pinum)
              in (0, write_inode st ninum (nnd\<lparr>idirect := (idirect nnd)[0 := ndb], isize := 64\<rparr>)))"

definition add_entry :: "serv \<Rightarrow> u32 \<Rightarrow> u32 \<Rightarrow> byte list \<Rightarrow> (u32 \<times> serv) outcome" where
  "add_entry st pinum ninum name =
     (let (pind, st) = get_inode st pinum;
          (de, st) = malloc st 32;
          de = put_at de 28 (le32 ninum)
      in if length de \<le> length name then Fault ''strcpy''
         else andThen (write_file st pinum (put_at de 0 (name @ [0])) (isize pind) 32 UFS_DIRECTORY)
                (\<lambda>(_, st). Ok (0, st)))"

definition creat_file :: "serv \<Rightarrow> u32 \<Rightarrow> u32 \<Rightarrow> byte list \<Rightarrow> (u32 \<times> serv) outcome" where
  "creat_file st pinum ty name =
     (let (pnd, st) = get_inode st pinum
      in if itype pnd \<noteq> UFS_DIRECTORY then Ok (-1, st)
         else andThen (lookup_file st pinum name) (\<lambda>(lde, st).
           if lde \<noteq> None then Ok (0, st)
           else let (ninum, st) = new_inode st ty
                in if ninum = -1 then Ok (-1, st)
                   else let (rc, st) = (if ty = UFS_DIRECTORY then init_dir st ninum pinum else (0, st))
                        in if rc = -1 then Ok (-1, st) else add_entry st pinum ninum name))"

text \<open>
  The loop of \<^verbatim>\<open>unlink_file\<close> over the parent's block addresses; its condition is the assignment
  \<^verbatim>\<open>pnd->direct[i] = (addr / UFS_BLOCK_SIZE)\<close> of the source.
\<close>

function unlink_loop :: "nat \<Rightarrow> u32 \<Rightarrow> u32 list \<Rightarrow> (nat \<times> u32 list) outcome" where
  "unlink_loop i blk ds =
     (if length ds \<le> i then Fault ''direct''
      else if ds ! i = -1 then Ok (i, ds)
      else if blk \<noteq> 0 then Ok (i, ds[i := blk])
      else unlink_loop (Suc i) blk (ds[i := blk]))"
  by pat_completeness auto
termination
  by (relation "measure (\<lambda>(i, _, ds). length ds - i)") auto

declare unlink_loop.simps [simp del]

definition unlink_file :: "serv \<Rightarrow> u32 \<Rightarrow> byte list \<Rightarrow> (u32 \<times> serv) outcome" where
  "unlink_file st pinum name =
     andThen (lookup_file st pinum name) (\<lambda>(r, st).
       case r of None \<Rightarrow> Ok (-1, st)
       | Some (de, addr) \<Rightarrow>
           (let (ind, st') = get_inode st (word_at de 28)
            in if word_at de 28 \<noteq> -1 \<and> itype ind = UFS_DIRECTORY \<and> 64 < isize ind then Ok (-1, st')
               else let st = (if word_at de 28 \<noteq> -1
                              then fswrite st' addr (put_at (put_at de 0 [0]) 28 (le32 (-1))) else st);
                        (pnd, st) = get_inode st pinum
                    in andThen (unlink_loop 0 (addr div UFS_BLOCK_SIZE) (idirect pnd)) (\<lambda>(i, ds).
                         let offset = of_nat i * UFS_BLOCK_SIZE + addr mod UFS_BLOCK_SIZE;
                             size = (if offset < isize pnd then offset else isize pnd)
                         in Ok (0, write_inode st pinum (pnd\<lparr>isize := size, idirect := ds\<rparr>)))))"

section \<open>The server loop\<close>

datatype MFS_OPS =
    MFS_INIT | MFS_LOOKUP | MFS_STAT | MFS_WRITE | MFS_READ | MFS_CREAT | MFS_UNLINK
  | MFS_SHUTDOWN | MFS_FEEDBACK

definition op_code :: "MFS_OPS \<Rightarrow> u32" where
  "op_code op = (case op of MFS_INIT \<Rightarrow> 0 | MFS_LOOKUP \<Rightarrow> 1 | MFS_STAT \<Rightarrow> 2 | MFS_WRITE \<Rightarrow> 3
     | MFS_READ \<Rightarrow> 4 | MFS_CREAT \<Rightarrow> 5 | MFS_UNLINK \<Rightarrow> 6 | MFS_SHUTDOWN \<Rightarrow> 7 | MFS_FEEDBACK \<Rightarrow> 8)"

record message_t =
  m_buf :: "byte list"
  m_name :: "byte list"
  m_offset :: u32
  m_nbytes :: u32
  m_mtype :: u32
  m_node_num :: u32
  m_msg :: u32
  m_st_type :: u32
  m_st_size :: u32

text \<open>
  The C string that starts at \<^verbatim>\<open>name\<close>: without a zero byte among the 28 it runs on into the fields
  behind it, and it ends in \<^verbatim>\<open>msg\<close> at the latest.
\<close>

definition msg_name :: "message_t \<Rightarrow> byte list" where
  "msg_name m = cstr (m_name m @ le32 (m_offset m) @ le32 (m_nbytes m) @ le32 (m_mtype m) @
     le32 (m_node_num m) @ le32 (m_msg m))"

definition feedback :: "message_t \<Rightarrow> u32 \<Rightarrow> message_t" where
  "feedback rx rc = rx\<lparr>m_node_num := rc, m_msg := op_code MFS_FEEDBACK\<rparr>"

text \<open>One request: the reply \<^verbatim>\<open>rx_pk\<close> (whose other fields keep what they had) and the new state.\<close>

definition handle :: "serv \<Rightarrow> message_t \<Rightarrow> message_t \<Rightarrow> (message_t \<times> serv) outcome" where
  "handle st rx pk =
     (if m_msg pk = op_code MFS_LOOKUP
      then andThen (lookup_file st (m_node_num pk) (msg_name pk)) (\<lambda>(r, st).
             Ok (feedback rx (case r of Some (de, _) \<Rightarrow> word_at de 28 | None \<Rightarrow> -1), st))
      else if m_msg pk = op_code MFS_STAT
      then let (ind, st) = get_inode st (m_node_num pk)
           in Ok (feedback (rx\<lparr>m_st_size := isize ind, m_st_type := itype ind\<rparr>) 0, st)
      else if m_msg pk = op_code MFS_WRITE
      then andThen (write_file st (m_node_num pk) (m_buf pk) (m_offset pk) (m_nbytes pk) UFS_REGULAR_FILE)
             (\<lambda>(rc, st). Ok (feedback rx rc, st))
      else if m_msg pk = op_code MFS_READ
      then andThen (read_file st (m_node_num pk) (m_buf rx) (m_offset pk) (m_nbytes pk))
             (\<lambda>(rc, buf, st). Ok (feedback (rx\<lparr>m_buf := buf\<rparr>) rc, st))
      else if m_msg pk = op_code MFS_CREAT
      then andThen (creat_file st (m_node_num pk) (m_mtype pk) (msg_name pk))
             (\<lambda>(rc, st). Ok (feedback rx rc, st))
      else if m_msg pk = op_code MFS_UNLINK
      then andThen (unlink_file st (m_node_num pk) (msg_name pk)) (\<lambda>(rc, st). Ok (feedback rx rc, st))
      else Ok (rx\<lparr>m_msg := op_code MFS_FEEDBACK\<rparr>, st))"

datatype run_end = Waiting | Exited | Invalid

text \<open>
  \<open>run_udp\<close> on the packets received so far (\<open>None\<close>: \<^verbatim>\<open>UDP_Read\<close> returned less than 1): the replies in the
  order they are sent, the state, and whether the server waits for more, has left through
  \<^verbatim>\<open>end_serv\<close>, or has returned because of an unknown operation.
\<close>

fun run_udp ::
  "message_t option list \<Rightarrow> serv \<Rightarrow> message_t \<Rightarrow> (message_t list \<times> serv \<times> run_end) outcome" where
  "run_udp [] st rx = Ok ([], st, Waiting)"
| "run_udp (None # ps) st rx = run_udp ps st rx"
| "run_udp (Some pk # ps) st rx =
     (if m_msg pk = op_code MFS_SHUTDOWN then Ok ([rx\<lparr>m_msg := op_code MFS_FEEDBACK\<rparr>], st, Exited)
      else if m_msg pk = op_code MFS_INIT \<or> op_code MFS_FEEDBACK < m_msg pk then Ok ([], st, Invalid)
      else andThen (handle st rx pk) (\<lambda>(rx, st).
             andThen (run_udp ps st rx) (\<lambda>(rs, st, e). Ok (rx # rs, st, e))))"

text \<open>
  The server starts with zeroed globals and reads the super block; a file that does not exist is
  created empty (\<open>None\<close> is a missing file).
\<close>

definition initialize_serv :: "(nat \<Rightarrow> nat \<Rightarrow> byte) \<Rightarrow> byte list option \<Rightarrow> serv" where
  "initialize_serv g file =
     (let st = \<lparr> img = (case file of Some bs \<Rightarrow> bs | None \<Rightarrow> []), pos = 0, super = super_of (replicate 40 0),
                 highest_inode = 0, hghst_alloc_dblk = 0, garbage = g, mallocs = 0 \<rparr>;
          (bs, st) = fsread st 0 (super_bytes (super st))
      in st\<lparr>super := super_of bs\<rparr>)"

section \<open>Making a file system\<close>

definition blocks_for :: "u32 \<Rightarrow> int \<Rightarrow> u32" where
  "blocks_for n per = word_of_int (cdiv (sint n) per + (if cmod (sint n) per \<noteq> 0 then 1 else 0))"

definition mkfs_super :: "u32 \<Rightarrow> u32 \<Rightarrow> super_t" where
  "mkfs_super ni nd =
     (let ib_len = blocks_for ni 32768;
          db_addr = 1 + ib_len;
          db_len = blocks_for nd 32768;
          ir_addr = db_addr + db_len;
          ir_len = blocks_for (ni * 128) 4096;
          dr_addr = ir_addr + ir_len
      in \<lparr> inode_bitmap_addr = 1, inode_bitmap_len = ib_len, data_bitmap_addr = db_addr,
           data_bitmap_len = db_len, inode_region_addr = ir_addr, inode_region_len = ir_len,
           data_region_addr = dr_addr, data_region_len = nd, num_inodes = ni, num_data = nd \<rparr>)"

text \<open>\<^verbatim>\<open>pwrite\<close> of a block at the \<^verbatim>\<open>int\<close> offset \<^verbatim>\<open>blk * UFS_BLOCK_SIZE\<close>: a negative offset is an error.\<close>

definition pwrite_block :: "byte list \<Rightarrow> u32 \<Rightarrow> byte list \<Rightarrow> byte list outcome" where
  "pwrite_block im blk bs =
     (let off = blk * UFS_BLOCK_SIZE
      in if sint off < 0 then Panic ''write'' else Ok (file_write im (unat off) bs))"

fun zero_blocks :: "nat list \<Rightarrow> byte list \<Rightarrow> byte list outcome" where
  "zero_blocks [] im = Ok im"
| "zero_blocks (i # is) im =
     andThen (pwrite_block im (of_nat i) (replicate 4096 0)) (\<lambda>im. zero_blocks is im)"

definition first_bit_block :: "byte list" where
  "first_bit_block = le32 (push_bit 31 1) @ replicate 4092 0"

definition root_inode :: "super_t \<Rightarrow> inode_t" where
  "root_inode s = \<lparr> itype = UFS_DIRECTORY, isize = 64,
     idirect = data_region_addr s # replicate (DIRECT_PTRS - 1) (-1) \<rparr>"

text \<open>
  \<open>mkfs itable parent ni nd\<close> is the image written by \<^verbatim>\<open>main\<close> of \<^verbatim>\<open>mkfs.c\<close>; \<open>itable\<close> and \<open>parent\<close> are the
  uninitialised local blocks of which the program sets a part.
\<close>

definition mkfs :: "byte list \<Rightarrow> byte list \<Rightarrow> u32 \<Rightarrow> u32 \<Rightarrow> byte list outcome" where
  "mkfs itable parent ni nd =
     (if sint ni < 32 \<or> sint nd < 32 then Panic ''assert''
      else let s = mkfs_super ni nd;
               total = 1 + inode_bitmap_len s + data_bitmap_len s + inode_region_len s + data_region_len s
           in andThen (zero_blocks [1..<nat (sint total)] (file_write [] 0 (super_bytes s))) (\<lambda>im.
              andThen (pwrite_block im (inode_bitmap_addr s) first_bit_block) (\<lambda>im.
              andThen (pwrite_block im (data_bitmap_addr s) first_bit_block) (\<lambda>im.
              andThen (pwrite_block im (inode_region_addr s) (put_at itable 0 (inode_bytes (root_inode s)))) (\<lambda>im.
              pwrite_block im (data_region_addr s) (new_dir_block parent 0 0))))))"

end
