(* ===== verification/Ufs_Disk.thy ===== *)
theory Ufs_Disk
  imports Ufs
begin

text \<open>
  The UFS image as a layout of regions: encodings of the on-disk structures, what the primitive
  accesses of the server do inside a well-formed image, and the effect of allocation.
\<close>

section \<open>Encodings\<close>

lemma length_inode_bytes [simp]: "length (inode_bytes nd) = 8 + 4 * length (idirect nd)"
  by (simp add: inode_bytes_def)

lemma length_super_bytes [simp]: "length (super_bytes s) = 40"
  by (simp add: super_bytes_def)

lemma inode_of_bytes: "length (idirect nd) = DIRECT_PTRS \<Longrightarrow> inode_of (inode_bytes nd @ bs) = nd"
proof -
  assume len: "length (idirect nd) = DIRECT_PTRS"
  let ?ws = "itype nd # isize nd # idirect nd"
  have eq: "inode_bytes nd = concat (map le32 ?ws)" by (simp add: inode_bytes_def)
  have "word_at (inode_bytes nd @ bs) (8 + 4 * i) = idirect nd ! i" if "i < DIRECT_PTRS" for i
    using word_at_concat_le32 [of "Suc (Suc i)" ?ws bs] that len by (simp add: eq)
  then have "map (\<lambda>i. word_at (inode_bytes nd @ bs) (8 + 4 * i)) [0..<DIRECT_PTRS] = idirect nd"
    using len by (intro nth_equalityI) auto
  moreover have "word_at (inode_bytes nd @ bs) 0 = itype nd" "word_at (inode_bytes nd @ bs) 4 = isize nd"
    using word_at_concat_le32 [of 0 ?ws bs] word_at_concat_le32 [of 1 ?ws bs] by (simp_all add: eq)
  ultimately show ?thesis
    by (simp add: inode_of_def)
qed

lemma inode_of_bytes': "length (idirect nd) = DIRECT_PTRS \<Longrightarrow> inode_of (inode_bytes nd) = nd"
  using inode_of_bytes [of nd "[]"] by simp

lemma length_idirect_inode_of [simp]: "length (idirect (inode_of bs)) = DIRECT_PTRS"
  by (simp add: inode_of_def)

lemma super_of_bytes: "super_of (super_bytes s @ bs) = s"
proof -
  let ?ws = "[inode_bitmap_addr s, inode_bitmap_len s, data_bitmap_addr s, data_bitmap_len s,
    inode_region_addr s, inode_region_len s, data_region_addr s, data_region_len s, num_inodes s, num_data s]"
  have "word_at (super_bytes s @ bs) (4 * i) = ?ws ! i" if "i < 10" for i
    using word_at_concat_le32 [of i ?ws bs] that by (simp add: super_bytes_def)
  from this [of 0] this [of 1] this [of 2] this [of 3] this [of 4]
    this [of 5] this [of 6] this [of 7] this [of 8] this [of 9]
  show ?thesis by (simp add: super_of_def)
qed

section \<open>Layout\<close>

definition ib_off :: "super_t \<Rightarrow> nat" where "ib_off s = unat (inode_bitmap_addr s) * 4096"
definition db_off :: "super_t \<Rightarrow> nat" where "db_off s = unat (data_bitmap_addr s) * 4096"
definition ir_off :: "super_t \<Rightarrow> nat" where "ir_off s = unat (inode_region_addr s) * 4096"
definition dr_off :: "super_t \<Rightarrow> nat" where "dr_off s = unat (data_region_addr s) * 4096"
definition end_off :: "super_t \<Rightarrow> nat" where
  "end_off s = dr_off s + unat (data_region_len s) * 4096"

lemmas offs_def = ib_off_def db_off_def ir_off_def dr_off_def end_off_def

text \<open>
  The regions follow one another without overlap behind the super block, the bitmaps have a bit
  and the inode region has room for every inode and block, and the image holds them all and can
  be addressed by an \<^verbatim>\<open>int\<close>.
\<close>

definition layout_ok :: "super_t \<Rightarrow> byte list \<Rightarrow> bool" where
  "layout_ok s im \<longleftrightarrow>
     4096 \<le> ib_off s \<and>
     ib_off s + unat (inode_bitmap_len s) * 4096 = db_off s \<and>
     db_off s + unat (data_bitmap_len s) * 4096 = ir_off s \<and>
     ir_off s + unat (inode_region_len s) * 4096 = dr_off s \<and>
     end_off s \<le> length im \<and> length im < 2 ^ 31 \<and>
     0 < unat (num_inodes s) \<and> unat (num_inodes s) \<le> unat (inode_bitmap_len s) * 32768 \<and>
     0 < unat (data_region_len s) \<and> unat (data_region_len s) \<le> unat (data_bitmap_len s) * 32768 \<and>
     unat (num_inodes s) * 128 \<le> unat (inode_region_len s) * 4096"

definition serv_ok :: "serv \<Rightarrow> bool" where
  "serv_ok st \<longleftrightarrow> layout_ok (super st) (img st) \<and>
     unat (highest_inode st) < unat (num_inodes (super st)) \<and>
     unat (hghst_alloc_dblk st) < unat (data_region_len (super st))"

lemma serv_ok_regions:
  assumes "serv_ok st"
  shows "4096 \<le> ib_off (super st)" "ib_off (super st) \<le> db_off (super st)"
    "db_off (super st) \<le> ir_off (super st)" "ir_off (super st) \<le> dr_off (super st)"
    "dr_off (super st) \<le> end_off (super st)" "end_off (super st) \<le> length (img st)"
    "length (img st) < 2 ^ 31"
  using assms by (auto simp: serv_ok_def layout_ok_def end_off_def)

text \<open>The byte offset inside a bitmap of the word that holds the bit of \<open>n\<close>.\<close>

definition word_off :: "u32 \<Rightarrow> nat" where
  "word_off n = unat n div 32 * 4"

lemma bit_word_fits: "n < l * 32768 \<Longrightarrow> n div 32 * 4 + 4 \<le> l * (4096::nat)"
  using less_mult_imp_div_less [of n "l * 1024" 32] by simp

lemma inode_fits:
  assumes "serv_ok st" "unat n < unat (num_inodes (super st))"
  shows "ir_off (super st) + unat n * 128 + 128 \<le> dr_off (super st)"
    and "ib_off (super st) + word_off n + 4 \<le> db_off (super st)"
proof -
  have "Suc (unat n) * 128 \<le> unat (num_inodes (super st)) * 128"
    using assms(2) by (intro mult_le_mono1) simp
  then show "ir_off (super st) + unat n * 128 + 128 \<le> dr_off (super st)"
    using assms(1) by (simp add: serv_ok_def layout_ok_def)
  have "unat n < unat (inode_bitmap_len (super st)) * 32768"
    using assms by (simp add: serv_ok_def layout_ok_def)
  then have "word_off n + 4 \<le> unat (inode_bitmap_len (super st)) * 4096" unfolding word_off_def by (rule bit_word_fits)
  then show "ib_off (super st) + word_off n + 4 \<le> db_off (super st)"
    using assms(1) by (simp add: serv_ok_def layout_ok_def)
qed

lemma dbit_fits:
  assumes "serv_ok st" "unat n < unat (data_region_len (super st))"
  shows "db_off (super st) + word_off n + 4 \<le> ir_off (super st)"
proof -
  have "unat n < unat (data_bitmap_len (super st)) * 32768"
    using assms by (simp add: serv_ok_def layout_ok_def)
  then have "word_off n + 4 \<le> unat (data_bitmap_len (super st)) * 4096" unfolding word_off_def by (rule bit_word_fits)
  then show ?thesis
    using assms(1) by (simp add: serv_ok_def layout_ok_def)
qed

section \<open>Addresses\<close>

lemma unat_block_addr:
  assumes "unat blk * 4096 + unat off < 2 ^ 32"
  shows "unat (blk * UFS_BLOCK_SIZE + off) = unat blk * 4096 + unat off"
  using assms by (simp add: UFS_BLOCK_SIZE_def unat_word_ariths)

lemma unat_bmaddr:
  assumes "unat start * 4096 + word_off n < 2 ^ 32"
  shows "unat (bmaddr start n) = unat start * 4096 + word_off n"
proof -
  have "unat (n div 32 * 4 :: u32) = word_off n"
    using assms by (simp add: unat_word_ariths unat_div word_off_def)
  then show ?thesis
    using assms unat_block_addr [of start "n div 32 * 4"] by (simp add: bmaddr_def)
qed

lemma unat_inode_addr:
  assumes "serv_ok st" "unat n < unat (num_inodes (super st))"
  shows "unat (inode_addr st n) = ir_off (super st) + unat n * 128"
proof -
  have b: "ir_off (super st) + unat n * 128 < 2 ^ 31"
    using inode_fits [OF assms] serv_ok_regions [OF assms(1)] by linarith
  then have "unat (n * 128) = unat n * 128"
    by (simp add: unat_word_ariths)
  then show ?thesis
    using b unat_block_addr [of "inode_region_addr (super st)" "n * 128"]
    by (simp add: inode_addr_def ir_off_def)
qed

section \<open>Primitive accesses inside the image\<close>

lemma fsread_inside:
  assumes "length (img st) < 2 ^ 31" "unat addr + length buf \<le> length (img st)"
  shows "fsread st addr buf =
    (get_at (img st) (unat addr) (length buf), st\<lparr>pos := unat addr + length buf\<rparr>)"
  using assms sint_nonneg_word [of addr] by (simp add: fsread_def Let_def put_at_def)

lemma fswrite_inside:
  assumes "unat addr + length bs \<le> length (img st)"
  shows "fswrite st addr bs = st\<lparr>img := put_at (img st) (unat addr) bs, pos := unat addr + length bs\<rparr>"
  using assms by (auto simp: fswrite_def file_write_def)

lemma length_malloc [simp]: "length (fst (malloc st n)) = n"
  by (simp add: malloc_def)


text \<open>The inode and the bitmap word the server sees at a number inside the image.\<close>

definition inode_at :: "serv \<Rightarrow> u32 \<Rightarrow> inode_t" where
  "inode_at st n = inode_of (get_at (img st) (ir_off (super st) + unat n * 128) 128)"

definition bitword :: "serv \<Rightarrow> nat \<Rightarrow> u32 \<Rightarrow> u32" where
  "bitword st off n = un_le32 (get_at (img st) (off + word_off n) 4)"

text \<open>A number for which \<^verbatim>\<open>read_inode\<close> returns an inode.\<close>

definition inum_ok :: "serv \<Rightarrow> u32 \<Rightarrow> bool" where
  "inum_ok st n \<longleftrightarrow> unat n < unat (num_inodes (super st)) \<and> bitword st (ib_off (super st)) n \<noteq> 0"

lemma mask_nonzero [simp]: "mask n \<noteq> 0"
  by (simp add: mask_def push_bit_eq_mult)

lemma read_inode_inside:
  assumes "serv_ok st" "unat n < unat (num_inodes (super st))" "length buf = 128"
  shows "read_inode st n buf =
    (if bitword st (ib_off (super st)) n = 0
     then (-1, buf, st\<lparr>mallocs := Suc (mallocs st), pos := ib_off (super st) + word_off n + 4\<rparr>)
     else (0, get_at (img st) (ir_off (super st) + unat n * 128) 128,
       st\<lparr>mallocs := Suc (mallocs st), pos := ir_off (super st) + unat n * 128 + 128\<rparr>))"
proof -
  note r = serv_ok_regions [OF assms(1)] inode_fits [OF assms(1,2)]
  have ba: "unat (bmaddr (inode_bitmap_addr (super st)) n) = ib_off (super st) + word_off n"
    using r unat_bmaddr [of "inode_bitmap_addr (super st)" n] by (simp add: ib_off_def)
  let ?st = "st\<lparr>mallocs := Suc (mallocs st)\<rparr>"
  have "fsread ?st (bmaddr (inode_bitmap_addr (super st)) n) (fst (malloc st 4)) =
     (get_at (img st) (ib_off (super st) + word_off n) 4,
      ?st\<lparr>pos := ib_off (super st) + word_off n + 4\<rparr>)" (is "_ = (?ibm, ?st1)")
    using r ba by (subst fsread_inside) auto
  moreover have "fsread ?st1 (inode_addr ?st1 n) buf =
     (get_at (img st) (ir_off (super st) + unat n * 128) 128,
      ?st1\<lparr>pos := ir_off (super st) + unat n * 128 + 128\<rparr>)"
    using r assms unat_inode_addr [OF assms(1,2)] by (subst fsread_inside) (auto simp: inode_addr_def)
  ultimately show ?thesis
    by (simp add: read_inode_def malloc_def bitword_def Let_def)
qed

lemma get_inode_inside:
  assumes "serv_ok st" "inum_ok st n"
  shows "get_inode st n = (inode_at st n,
    st\<lparr>mallocs := mallocs st + 2, pos := ir_off (super st) + unat n * 128 + 128\<rparr>)"
proof -
  let ?st = "st\<lparr>mallocs := Suc (mallocs st)\<rparr>"
  have "serv_ok ?st" using assms(1) by (simp add: serv_ok_def)
  then show ?thesis
    using read_inode_inside [of ?st n "fst (malloc st 128)"] assms(2)
    by (simp add: get_inode_def malloc_def inum_ok_def inode_at_def bitword_def)
qed

lemma write_inode_inside:
  assumes "serv_ok st" "unat n < unat (num_inodes (super st))" "length (idirect nd) = DIRECT_PTRS"
  shows "write_inode st n nd = st\<lparr>img := put_at (img st) (ir_off (super st) + unat n * 128) (inode_bytes nd),
    pos := ir_off (super st) + unat n * 128 + 128\<rparr>"
  using serv_ok_regions [OF assms(1)] inode_fits [OF assms(1,2)] unat_inode_addr [OF assms(1,2)] assms(3)
  by (simp add: write_inode_def fswrite_inside DIRECT_PTRS_def)

lemma set_bit_at_inside:
  assumes "length (img st) < 2 ^ 31" "unat start * 4096 + word_off n + 4 \<le> length (img st)"
  shows "set_bit_at st start n = st\<lparr>mallocs := Suc (mallocs st),
    img := put_at (img st) (unat start * 4096 + word_off n)
             (le32 (bitword st (unat start * 4096) n OR mask n)),
    pos := unat start * 4096 + word_off n + 4\<rparr>"
proof -
  have a: "unat (bmaddr start n) = unat start * 4096 + word_off n"
    using assms by (intro unat_bmaddr) simp
  show ?thesis
    using assms a by (simp add: set_bit_at_def malloc_def fsread_inside fswrite_inside bitword_def)
qed

section \<open>Allocation\<close>

text \<open>
  \<open>bit_of\<close> is the bit of a bitmap that stands for number \<open>n\<close>: bit \<open>31 - n mod 32\<close> of word \<open>n div 32\<close>.
\<close>

definition bit_of :: "serv \<Rightarrow> nat \<Rightarrow> u32 \<Rightarrow> bool" where
  "bit_of st off n = (bitword st off n AND mask n \<noteq> 0)"

text \<open>Two states that differ at most in the bytes of one region, and in the file position and the heap.\<close>

definition only_in :: "nat \<Rightarrow> nat \<Rightarrow> serv \<Rightarrow> serv \<Rightarrow> bool" where
  "only_in lo hi st st' \<longleftrightarrow> super st' = super st \<and> length (img st') = length (img st) \<and>
     (\<forall>off n. off + n \<le> lo \<or> hi \<le> off \<longrightarrow> get_at (img st') off n = get_at (img st) off n)"

lemma only_in_refl [simp]: "only_in lo hi st st"
  by (simp add: only_in_def)

lemma only_in_trans: "only_in lo hi a b \<Longrightarrow> only_in lo hi b c \<Longrightarrow> only_in lo hi a c"
  by (simp add: only_in_def)

lemma only_in_mono: "only_in lo hi a b \<Longrightarrow> lo' \<le> lo \<Longrightarrow> hi \<le> hi' \<Longrightarrow> only_in lo' hi' a b"
  by (auto simp: only_in_def)

lemma only_in_put:
  "super st' = super st \<Longrightarrow> img st' = put_at (img st) off bs \<Longrightarrow> off + length bs \<le> length (img st) \<Longrightarrow>
   lo \<le> off \<Longrightarrow> off + length bs \<le> hi \<Longrightarrow> only_in lo hi st st'"
  by (auto simp: only_in_def intro!: get_put_disjoint)

lemma alloc_dblk_inside:
  assumes "serv_ok st"
  defines "n \<equiv> hghst_alloc_dblk st + 1" and "s \<equiv> super st"
  shows "alloc_dblk st =
    (if unat (hghst_alloc_dblk st) = unat (data_region_len s) - 1 then (-1, st)
     else (data_region_addr s + n,
       st\<lparr>hghst_alloc_dblk := n, mallocs := Suc (mallocs st),
         img := put_at (img st) (db_off s + word_off n) (le32 (bitword st (db_off s) n OR mask n)),
         pos := db_off s + word_off n + 4\<rparr>))"
proof -
  have len: "0 < unat (data_region_len s)" "unat (hghst_alloc_dblk st) < unat (data_region_len s)"
    using assms(1) by (simp_all add: serv_ok_def layout_ok_def s_def)
  have last: "hghst_alloc_dblk st = data_region_len s - 1 \<longleftrightarrow>
      unat (hghst_alloc_dblk st) = unat (data_region_len s) - 1"
    using len by (metis unat_1 unat_eq_zero unat_minus_one word_unat_eq_iff less_irrefl)
  show ?thesis
  proof (cases "unat (hghst_alloc_dblk st) = unat (data_region_len s) - 1")
    case True
    then show ?thesis using last by (simp add: alloc_dblk_def s_def)
  next
    case False
    then have "unat n = Suc (unat (hghst_alloc_dblk st))"
      using len unat_bound [of "data_region_len s"] by (simp add: n_def unat_word_ariths)
    then have "unat n < unat (data_region_len s)"
      using len False by linarith
    note dbit_fits [OF assms(1) this [unfolded s_def]] serv_ok_regions [OF assms(1)]
    then have "set_bit_at (st\<lparr>hghst_alloc_dblk := n\<rparr>) (data_bitmap_addr s) n =
        st\<lparr>hghst_alloc_dblk := n, mallocs := Suc (mallocs st),
         img := put_at (img st) (db_off s + word_off n) (le32 (bitword st (db_off s) n OR mask n)),
         pos := db_off s + word_off n + 4\<rparr>"
      by (subst set_bit_at_inside) (auto simp: db_off_def s_def bitword_def)
    then show ?thesis
      using False last by (simp add: alloc_dblk_def Let_def n_def s_def)
  qed
qed

lemma data_block_bound:
  assumes "serv_ok st"
  shows "unat (data_region_addr (super st)) + unat (data_region_len (super st)) < 2 ^ 19"
  using serv_ok_regions [OF assms] by (simp add: end_off_def dr_off_def)

text \<open>What a successful allocation gives: the next block of the data region.\<close>

lemma alloc_dblk_fresh:
  assumes "serv_ok st" "alloc_dblk st = (b, st')" "b \<noteq> -1"
  shows "unat b = unat (data_region_addr (super st)) + unat (hghst_alloc_dblk st')"
    and "unat (hghst_alloc_dblk st') = Suc (unat (hghst_alloc_dblk st))"
    and "serv_ok st'" "highest_inode st' = highest_inode st"
    and "only_in (db_off (super st)) (ir_off (super st)) st st'"
proof -
  let ?n = "hghst_alloc_dblk st + 1" and ?s = "super st"
  have lt: "unat (hghst_alloc_dblk st) < unat (data_region_len ?s)"
    using assms(1) by (simp add: serv_ok_def)
  have ne: "unat (hghst_alloc_dblk st) \<noteq> unat (data_region_len ?s) - 1"
    using alloc_dblk_inside [OF assms(1)] assms(2,3) by auto
  have st': "b = data_region_addr ?s + ?n" "st' = st\<lparr>hghst_alloc_dblk := ?n, mallocs := Suc (mallocs st),
         img := put_at (img st) (db_off ?s + word_off ?n) (le32 (bitword st (db_off ?s) ?n OR mask ?n)),
         pos := db_off ?s + word_off ?n + 4\<rparr>"
    using alloc_dblk_inside [OF assms(1)] assms(2) ne by simp_all
  have n: "unat ?n = Suc (unat (hghst_alloc_dblk st))"
    using lt data_block_bound [OF assms(1)] by (intro unat_succ) simp
  then show "unat (hghst_alloc_dblk st') = Suc (unat (hghst_alloc_dblk st))" by (simp add: st')
  have fit: "unat ?n < unat (data_region_len ?s)" using n lt ne by linarith
  then show "unat b = unat (data_region_addr (super st)) + unat (hghst_alloc_dblk st')"
    using data_block_bound [OF assms(1)] by (simp add: st' unat_word_ariths n)
  note r = dbit_fits [OF assms(1) fit] serv_ok_regions [OF assms(1)]
  show "serv_ok st'" using assms(1) fit r by (simp add: st' serv_ok_def layout_ok_def)
  show "highest_inode st' = highest_inode st" by (simp add: st')
  show "only_in (db_off (super st)) (ir_off (super st)) st st'"
    using r by (intro only_in_put [where off = "db_off ?s + word_off ?n"]) (auto simp: st')
qed

lemma alloc_dblk_full: "serv_ok st \<Longrightarrow> alloc_dblk st = (-1, st') \<Longrightarrow> st' = st"
proof -
  assume ok: "serv_ok st" and a: "alloc_dblk st = (-1, st')"
  have "unat (data_region_addr (super st) + (hghst_alloc_dblk st + 1)) < 2 ^ 20"
    using data_block_bound [OF ok] ok by (simp add: unat_word_ariths serv_ok_def)
  then have "data_region_addr (super st) + (hghst_alloc_dblk st + 1) \<noteq> -1"
    by (intro small_not_minus_1, elim less_trans) simp
  then show "st' = st"
    using a alloc_dblk_inside [OF ok] by (simp split: if_splits)
qed

section \<open>The blocks of a file\<close>

text \<open>Every block address of a file is unused (-1) or a data block the server has handed out.\<close>

definition blk_ok :: "serv \<Rightarrow> u32 \<Rightarrow> bool" where
  "blk_ok st b \<longleftrightarrow> unat (data_region_addr (super st)) \<le> unat b \<and>
     unat b \<le> unat (data_region_addr (super st)) + unat (hghst_alloc_dblk st)"

definition direct_ok :: "serv \<Rightarrow> u32 list \<Rightarrow> bool" where
  "direct_ok st ds \<longleftrightarrow> (\<forall>b\<in>set ds. b = -1 \<or> blk_ok st b)"

lemma blk_ok_fits:
  assumes "serv_ok st" "blk_ok st b"
  shows "dr_off (super st) \<le> unat b * 4096" "unat b * 4096 + 4096 \<le> end_off (super st)"
  using assms by (simp_all add: blk_ok_def serv_ok_def dr_off_def end_off_def)

text \<open>The relation between the state before and after allocating blocks.\<close>

definition grown :: "serv \<Rightarrow> serv \<Rightarrow> bool" where
  "grown st st' \<longleftrightarrow> only_in (db_off (super st)) (ir_off (super st)) st st' \<and> serv_ok st' \<and>
     highest_inode st' = highest_inode st \<and>
     unat (hghst_alloc_dblk st) \<le> unat (hghst_alloc_dblk st')"

lemma grown_super: "grown st st' \<Longrightarrow> super st' = super st"
  by (simp add: grown_def only_in_def)

lemma grown_trans: "grown a b \<Longrightarrow> grown b c \<Longrightarrow> grown a c"
  using only_in_trans by (fastforce simp: grown_def only_in_def)

lemma grown_blk_ok: "grown st st' \<Longrightarrow> blk_ok st b \<Longrightarrow> blk_ok st' b"
  by (auto simp: blk_ok_def grown_def only_in_def)

lemma alloc_dblk_grown:
  assumes "serv_ok st" "alloc_dblk st = (b, st')"
  shows "grown st st'" and "b \<noteq> -1 \<Longrightarrow> blk_ok st' b \<and> \<not> blk_ok st b"
proof -
  show "grown st st'"
    using alloc_dblk_fresh [OF assms] alloc_dblk_full [OF assms(1)] assms
    by (cases "b = -1") (auto simp: grown_def)
  show "b \<noteq> -1 \<Longrightarrow> blk_ok st' b \<and> \<not> blk_ok st b"
    using alloc_dblk_fresh [OF assms] by (simp add: blk_ok_def only_in_def)
qed

text \<open>The effect of the allocation loop of \<^verbatim>\<open>write_file\<close> on the block addresses.\<close>

definition alloc_post :: "nat \<Rightarrow> serv \<Rightarrow> u32 list \<Rightarrow> serv \<Rightarrow> u32 list \<Rightarrow> bool" where
  "alloc_post d st ds st' ds' \<longleftrightarrow> grown st st' \<and> length ds' = length ds \<and> ds' ! d \<noteq> -1 \<and>
     (\<forall>i < length ds. ds' ! i = ds ! i \<or> ds ! i = -1 \<and> blk_ok st' (ds' ! i) \<and> \<not> blk_ok st (ds' ! i))"

lemma alloc_post_step:
  assumes "serv_ok st" "alloc_dblk st = (b, st1)" "b \<noteq> -1" "ds ! Suc d = -1" "Suc d < length ds"
    "alloc_post d st1 (ds[Suc d := b]) st' ds'"
  shows "alloc_post (Suc d) st ds st' ds'"
proof -
  note g = alloc_dblk_grown [OF assms(1,2)]
  have g': "grown st1 st'" using assms(6) by (simp add: alloc_post_def)
  have new: "blk_ok st' x" "\<not> blk_ok st x" if "blk_ok st1 x \<and> \<not> blk_ok st x \<or> blk_ok st' x \<and> \<not> blk_ok st1 x" for x
    using that grown_blk_ok [OF g(1)] grown_blk_ok [OF g'] by auto
  have "ds' ! i = ds ! i \<or> ds ! i = -1 \<and> blk_ok st' (ds' ! i) \<and> \<not> blk_ok st (ds' ! i)" if "i < length ds" for i
    using assms(4-6) that g(2) [OF assms(3)] new [of "ds' ! i"]
    by (cases "i = Suc d") (auto simp: alloc_post_def)
  moreover have "ds' ! Suc d \<noteq> -1"
    using assms(3,5,6) by (auto simp: alloc_post_def)
  ultimately show ?thesis
    using assms(6) grown_trans [OF g(1) g'] by (simp add: alloc_post_def)
qed

lemma grown_refl: "serv_ok st \<Longrightarrow> grown st st"
  by (simp add: grown_def)

lemma alloc_down_post:
  "serv_ok st \<Longrightarrow> d < length ds \<Longrightarrow> alloc_down d st ds = (Some ds', st') \<Longrightarrow> alloc_post d st ds st' ds'"
proof (induction d arbitrary: st ds)
  case 0
  obtain b st1 where a: "alloc_dblk st = (b, st1)" by fastforce
  show ?case
  proof (cases "ds ! 0 = -1")
    case True
    then have *: "b \<noteq> -1" "ds' = ds[0 := b]" "st' = st1"
      using 0(3) a by (auto simp: alloc_down.simps [of 0] split: if_splits)
    then show ?thesis
      using True 0(2) alloc_dblk_grown [OF 0(1) a] by (auto simp: alloc_post_def nth_list_update)
  next
    case False
    then show ?thesis using 0 by (auto simp: alloc_down.simps [of 0] alloc_post_def grown_refl)
  qed
next
  case (Suc d)
  obtain b st1 where a: "alloc_dblk st = (b, st1)" by fastforce
  show ?case
  proof (cases "ds ! Suc d = -1")
    case True
    then have *: "b \<noteq> -1" "alloc_down d st1 (ds[Suc d := b]) = (Some ds', st')"
      using Suc.prems(3) a by (auto simp: alloc_down.simps [of "Suc d"] split: if_splits)
    have "serv_ok st1" using alloc_dblk_grown(1) [OF Suc.prems(1) a] by (simp add: grown_def)
    then have "alloc_post d st1 (ds[Suc d := b]) st' ds'"
      using Suc.IH [OF _ _ *(2)] Suc.prems(2) by simp
    then show ?thesis
      using alloc_post_step [OF Suc.prems(1) a *(1) True Suc.prems(2)] by blast
  next
    case False
    then show ?thesis using Suc by (auto simp: alloc_down.simps [of "Suc d"] alloc_post_def grown_refl)
  qed
qed

end
