(* ===== verification/Ufs_Files.thy ===== *)
theory Ufs_Files
  imports Ufs_Disk
begin

text \<open>
  File contents in the UFS server: what \<^verbatim>\<open>write_file\<close> stores and \<^verbatim>\<open>read_file\<close> reads back, and which
  parts of the image a write leaves alone.
\<close>

section \<open>The blocks a request touches\<close>

definition blk_of :: "u32 \<Rightarrow> nat" where
  "blk_of offset = unat (offset div UFS_BLOCK_SIZE)"

definition rem_of :: "u32 \<Rightarrow> nat" where
  "rem_of offset = unat (offset mod UFS_BLOCK_SIZE)"

lemma rem_of_less: "rem_of offset < 4096"
  by (simp add: rem_of_def UFS_BLOCK_SIZE_def unat_mod)

lemma unat_offree: "unat (UFS_BLOCK_SIZE - offset mod UFS_BLOCK_SIZE) = 4096 - rem_of offset"
proof -
  have "offset mod UFS_BLOCK_SIZE \<le> UFS_BLOCK_SIZE"
    using rem_of_less [of offset] by (simp add: word_le_nat_alt rem_of_def UFS_BLOCK_SIZE_def)
  then show ?thesis
    by (simp add: unat_sub rem_of_def UFS_BLOCK_SIZE_def)
qed

lemma unat_data_addr:
  assumes "serv_ok st" "blk_ok st b"
  shows "unat (b * UFS_BLOCK_SIZE + offset mod UFS_BLOCK_SIZE) = unat b * 4096 + rem_of offset"
    and "unat (b * UFS_BLOCK_SIZE) = unat b * 4096"
  using blk_ok_fits [OF assms] serv_ok_regions [OF assms(1)] rem_of_less [of offset]
    unat_block_addr [of b "offset mod UFS_BLOCK_SIZE"] unat_block_addr [of b 0]
  by (auto simp: rem_of_def)

lemma read_block_number:
  assumes "blk_of offset < DIRECT_PTRS"
  shows "unat (word_of_int (sint offset div 4096) :: u32) = blk_of offset"
proof -
  have *: "unat offset < 2 ^ 31"
    using assms by (simp add: blk_of_def DIRECT_PTRS_def UFS_BLOCK_SIZE_def unat_div)
  then have "sint offset = int (unat offset)"
    by (rule sint_eq_unat)
  then have "sint offset div 4096 = int (unat offset div 4096)"
    by (simp add: zdiv_int)
  moreover have "unat offset div 4096 < 2 ^ 32"
    using * div_le_dividend [of "unat offset" 4096] by simp
  ultimately show ?thesis
    by (simp add: blk_of_def UFS_BLOCK_SIZE_def unat_div unat_of_nat)
qed

section \<open>What a write does\<close>

lemma layout_ok_length: "layout_ok s im \<Longrightarrow> length im' = length im \<Longrightarrow> layout_ok s im'"
  by (simp add: layout_ok_def)

lemma serv_ok_img: "serv_ok st \<Longrightarrow> length im = length (img st) \<Longrightarrow> serv_ok (st\<lparr>img := im, pos := p\<rparr>)"
  by (simp add: serv_ok_def layout_ok_def)

lemma serv_ok_touch: "serv_ok (st\<lparr>mallocs := m, pos := p\<rparr>) = serv_ok st"
  by (simp add: serv_ok_def)

lemma alloc_post_touch: "alloc_post d (st\<lparr>mallocs := m, pos := p\<rparr>) ds st' ds' = alloc_post d st ds st' ds'"
  by (simp add: alloc_post_def grown_def only_in_def blk_ok_def)

lemma alloc_post_blk_ok:
  assumes "alloc_post d st ds st' ds'" "direct_ok st ds" "i < length ds" "ds' ! i \<noteq> -1"
  shows "blk_ok st' (ds' ! i)"
  using assms grown_blk_ok [of st st' "ds' ! i"] by (force simp: alloc_post_def direct_ok_def)

lemma alloc_post_facts:
  assumes "alloc_post d st ds st' ds'"
  shows "serv_ok st'" "super st' = super st" "length ds' = length ds" "ds' ! d \<noteq> -1" "grown st st'"
  using assms grown_super [of st st'] unfolding alloc_post_def grown_def by blast+

lemma length_set_size [simp]: "idirect (set_size n nd) = idirect nd"
  by (simp add: set_size_def)

definition ino_off :: "serv \<Rightarrow> u32 \<Rightarrow> nat" where
  "ino_off st n = ir_off (super st) + unat n * 128"

text \<open>The image after a write that stays inside one block.\<close>

lemma write_file_one:
  assumes ok: "serv_ok st" "inum_ok st n" "direct_ok st (idirect (inode_at st n))"
    and w: "write_file st n buf offset nbytes ty = Ok (0, st')"
    and fit: "rem_of offset + unat nbytes \<le> 4096"
  shows "\<exists>st1 ds. alloc_post (blk_of offset) st (idirect (inode_at st n)) st1 ds \<and>
    blk_of offset < DIRECT_PTRS \<and> unat nbytes \<le> length buf \<and> itype (inode_at st n) = ty \<and>
    (\<exists>p. st' = st1\<lparr>img := put_at (put_at (put_at (img st1)
       (ino_off st n) (inode_bytes ((inode_at st n)\<lparr>idirect := ds\<rparr>)))
       (unat (ds ! blk_of offset) * 4096 + rem_of offset) (take (unat nbytes) buf))
       (ino_off st n) (inode_bytes (set_size (offset + nbytes) ((inode_at st n)\<lparr>idirect := ds\<rparr>))),
       pos := p\<rparr>)"
proof -
  let ?nd = "inode_at st n" and ?d = "blk_of offset"
  define st0 where "st0 = st\<lparr>mallocs := mallocs st + 2, pos := ir_off (super st) + unat n * 128 + 128\<rparr>"
  have get: "get_inode st n = (?nd, st0)"
    using get_inode_inside [OF ok(1,2)] by (simp add: st0_def)
  have le: "nbytes \<le> UFS_BLOCK_SIZE - offset mod UFS_BLOCK_SIZE"
    using fit by (simp add: word_le_nat_alt unat_offree)
  have d: "?d < DIRECT_PTRS" and ty: "itype ?nd = ty" and buf: "unat nbytes \<le> length buf"
    and st': "\<exists>st1 ds. alloc_down ?d st0 (idirect ?nd) = (Some ds, st1) \<and>
      st' = write_inode (fswrite (write_inode st1 n (?nd\<lparr>idirect := ds\<rparr>))
        (ds ! ?d * UFS_BLOCK_SIZE + offset mod UFS_BLOCK_SIZE) (take (unat nbytes) buf)) n
        (set_size (offset + nbytes) (?nd\<lparr>idirect := ds\<rparr>))"
    using w le by (auto simp: write_file_def get Let_def DIRECT_PTRS_def blk_of_def
        split: if_splits prod.splits option.splits)
  obtain st1 ds where a: "alloc_down ?d st0 (idirect ?nd) = (Some ds, st1)"
    and eq: "st' = write_inode (fswrite (write_inode st1 n (?nd\<lparr>idirect := ds\<rparr>))
        (ds ! ?d * UFS_BLOCK_SIZE + offset mod UFS_BLOCK_SIZE) (take (unat nbytes) buf)) n
        (set_size (offset + nbytes) (?nd\<lparr>idirect := ds\<rparr>))"
    using st' by blast
  have post: "alloc_post ?d st (idirect ?nd) st1 ds"
    using alloc_down_post [OF _ _ a] ok(1) d
    by (simp add: st0_def serv_ok_touch alloc_post_touch inode_at_def)
  have ok1: "serv_ok st1" "super st1 = super st" "length ds = DIRECT_PTRS" "ds ! ?d \<noteq> -1"
    using post by (simp_all add: alloc_post_facts [OF post] inode_at_def)
  have blk: "blk_ok st1 (ds ! ?d)"
    using alloc_post_blk_ok [OF post ok(3)] d ok1 by (simp add: inode_at_def)
  have n: "unat n < unat (num_inodes (super st1))" using ok(2) ok1 by (simp add: inum_ok_def)
  note r = serv_ok_regions [OF ok1(1)] inode_fits [OF ok1(1) n] blk_ok_fits [OF ok1(1) blk]
    unat_data_addr(1) [OF ok1(1) blk, of offset]
  have "write_inode st1 n (?nd\<lparr>idirect := ds\<rparr>) = st1\<lparr>img := put_at (img st1) (ino_off st n)
     (inode_bytes (?nd\<lparr>idirect := ds\<rparr>)), pos := ino_off st n + 128\<rparr>" (is "_ = ?st2")
    using write_inode_inside [OF ok1(1) n] ok1 by (simp add: ino_off_def)
  moreover have "fswrite ?st2 (ds ! ?d * UFS_BLOCK_SIZE + offset mod UFS_BLOCK_SIZE) (take (unat nbytes) buf) =
     ?st2\<lparr>img := put_at (img ?st2) (unat (ds ! ?d) * 4096 + rem_of offset) (take (unat nbytes) buf),
       pos := unat (ds ! ?d) * 4096 + rem_of offset + unat nbytes\<rparr>" (is "_ = ?st3")
    using r fit buf ok1 by (subst fswrite_inside) (auto simp: ino_off_def DIRECT_PTRS_def)
  moreover have "write_inode ?st3 n (set_size (offset + nbytes) (?nd\<lparr>idirect := ds\<rparr>)) =
     ?st3\<lparr>img := put_at (img ?st3) (ino_off st n)
        (inode_bytes (set_size (offset + nbytes) (?nd\<lparr>idirect := ds\<rparr>))), pos := ino_off st n + 128\<rparr>"
    using r fit buf ok1 n
    by (subst write_inode_inside) (auto simp: ino_off_def DIRECT_PTRS_def serv_ok_def elim!: layout_ok_length)
  ultimately show ?thesis
    using post d buf ty by (intro exI [of _ st1] exI [of _ ds]) (auto simp: eq)
qed

text \<open>
  The same image, read back: the bitmaps of inodes, the inode itself, the block that was written,
  and every run of bytes that is neither in the data bitmap, nor in the inode, nor in the run
  written.
\<close>

lemma write_file_image:
  assumes ok: "serv_ok st" "inum_ok st n" "direct_ok st (idirect (inode_at st n))"
    and w: "write_file st n buf offset nbytes ty = Ok (0, st')"
    and fit: "rem_of offset + unat nbytes \<le> 4096"
  shows "\<exists>st1 ds. alloc_post (blk_of offset) st (idirect (inode_at st n)) st1 ds \<and>
    blk_of offset < DIRECT_PTRS \<and> unat nbytes \<le> length buf \<and>
    serv_ok st' \<and> super st' = super st \<and> hghst_alloc_dblk st' = hghst_alloc_dblk st1 \<and>
    inode_at st' n = set_size (offset + nbytes) ((inode_at st n)\<lparr>idirect := ds\<rparr>) \<and>
    get_at (img st') (unat (ds ! blk_of offset) * 4096 + rem_of offset) (unat nbytes) = take (unat nbytes) buf \<and>
    (\<forall>off k. (off + k \<le> db_off (super st) \<or> ir_off (super st) \<le> off) \<longrightarrow>
       (off + k \<le> ino_off st n \<or> ino_off st n + 128 \<le> off) \<longrightarrow>
       (off + k \<le> unat (ds ! blk_of offset) * 4096 + rem_of offset \<or>
        unat (ds ! blk_of offset) * 4096 + rem_of offset + unat nbytes \<le> off) \<longrightarrow>
       get_at (img st') off k = get_at (img st) off k)"
proof -
  let ?nd = "inode_at st n" and ?d = "blk_of offset"
  obtain st1 ds p where post: "alloc_post ?d st (idirect ?nd) st1 ds" and d: "?d < DIRECT_PTRS"
    and buf: "unat nbytes \<le> length buf" and st': "st' = st1\<lparr>img := put_at (put_at (put_at (img st1)
       (ino_off st n) (inode_bytes (?nd\<lparr>idirect := ds\<rparr>)))
       (unat (ds ! ?d) * 4096 + rem_of offset) (take (unat nbytes) buf))
       (ino_off st n) (inode_bytes (set_size (offset + nbytes) (?nd\<lparr>idirect := ds\<rparr>))), pos := p\<rparr>"
    using write_file_one [OF assms] by blast
  note f = alloc_post_facts [OF post]
  have len: "length ds = DIRECT_PTRS" by (simp add: f inode_at_def)
  have blk: "blk_ok st1 (ds ! ?d)"
    using alloc_post_blk_ok [OF post ok(3)] d f(4) by (simp add: inode_at_def)
  have n: "unat n < unat (num_inodes (super st1))" using ok(2) f(2) by (simp add: inum_ok_def)
  note r = serv_ok_regions [OF f(1)] inode_fits [OF f(1) n] blk_ok_fits [OF f(1) blk]
  have r': "ino_off st n + 128 \<le> unat (ds ! ?d) * 4096" "unat (ds ! ?d) * 4096 + 4096 \<le> length (img st1)"
    "ir_off (super st) \<le> ino_off st n" "ino_off st n + 128 \<le> length (img st1)"
    using r by (simp_all add: ino_off_def f(2))
  have ok': "serv_ok st'"
    using f(1) r' buf fit by (auto simp: st' serv_ok_def len DIRECT_PTRS_def elim!: layout_ok_length)
  have ino: "inode_at st' n = set_size (offset + nbytes) (?nd\<lparr>idirect := ds\<rparr>)"
  proof -
    have "get_at (img st') (ino_off st n) 128 = inode_bytes (set_size (offset + nbytes) (?nd\<lparr>idirect := ds\<rparr>))"
      using r' buf fit by (auto simp: st' len DIRECT_PTRS_def intro!: get_put_same)
    then show ?thesis
      using inode_of_bytes' [of "set_size (offset + nbytes) (?nd\<lparr>idirect := ds\<rparr>)"] len
      by (simp add: inode_at_def ino_off_def st' f(2))
  qed
  have data: "get_at (img st') (unat (ds ! ?d) * 4096 + rem_of offset) (unat nbytes) = take (unat nbytes) buf"
    using r' buf fit by (simp add: st' len DIRECT_PTRS_def get_put_disjoint get_put_same)
  have frame: "get_at (img st') off k = get_at (img st) off k"
    if "off + k \<le> db_off (super st) \<or> ir_off (super st) \<le> off"
      "off + k \<le> ino_off st n \<or> ino_off st n + 128 \<le> off"
      "off + k \<le> unat (ds ! ?d) * 4096 + rem_of offset \<or>
       unat (ds ! ?d) * 4096 + rem_of offset + unat nbytes \<le> off" for off k
  proof -
    have "get_at (img st1) off k = get_at (img st) off k"
      using f(5) that(1) unfolding grown_def only_in_def by blast
    then show ?thesis
      using that(2,3) r' buf fit by (elim disjE) (simp_all add: st' len DIRECT_PTRS_def get_put_disjoint)
  qed
  show ?thesis
    using post d buf ok' ino data frame f(2)
    by (intro exI [of _ st1] exI [of _ ds]) (simp add: st')
qed

section \<open>Properties\<close>

text \<open>
  C8: reading back what was written. After a successful write that stays inside one block, a read
  of the same range of the same file succeeds and delivers exactly the bytes written.
\<close>

theorem write_then_read:
  assumes "serv_ok st" "inum_ok st n" "direct_ok st (idirect (inode_at st n))"
    and "write_file st n buf offset nbytes UFS_REGULAR_FILE = Ok (0, st')"
    and "rem_of offset + unat nbytes \<le> 4096" "unat nbytes \<le> length rbuf"
  shows "\<exists>st''. read_file st' n rbuf offset nbytes = Ok (0, put_at rbuf 0 (take (unat nbytes) buf), st'')"
proof -
  let ?d = "blk_of offset"
  obtain st1 ds where post: "alloc_post ?d st (idirect (inode_at st n)) st1 ds" and d: "?d < DIRECT_PTRS"
    and ok': "serv_ok st'" and sup: "super st' = super st" and hgh: "hghst_alloc_dblk st' = hghst_alloc_dblk st1"
    and ino: "inode_at st' n = set_size (offset + nbytes) ((inode_at st n)\<lparr>idirect := ds\<rparr>)"
    and data: "get_at (img st') (unat (ds ! ?d) * 4096 + rem_of offset) (unat nbytes) = take (unat nbytes) buf"
    and frame: "\<forall>off k. (off + k \<le> db_off (super st) \<or> ir_off (super st) \<le> off) \<longrightarrow>
       (off + k \<le> ino_off st n \<or> ino_off st n + 128 \<le> off) \<longrightarrow>
       (off + k \<le> unat (ds ! ?d) * 4096 + rem_of offset \<or>
        unat (ds ! ?d) * 4096 + rem_of offset + unat nbytes \<le> off) \<longrightarrow>
       get_at (img st') off k = get_at (img st) off k"
    using write_file_image [OF assms(1-5)] by blast
  note f = alloc_post_facts [OF post]
  have blk: "blk_ok st' (ds ! ?d)"
    using alloc_post_blk_ok [OF post assms(3)] d f(2,4) sup hgh by (simp add: inode_at_def blk_ok_def)
  have n: "unat n < unat (num_inodes (super st))" using assms(2) by (simp add: inum_ok_def)
  note r = serv_ok_regions [OF assms(1)] inode_fits [OF assms(1) n] serv_ok_regions [OF ok']
    blk_ok_fits [OF ok' blk] unat_data_addr(1) [OF ok' blk, of offset]
  have "bitword st' (ib_off (super st)) n = bitword st (ib_off (super st)) n"
    using r sup by (simp add: bitword_def frame ino_off_def flip: word_off_def)
  then have "inum_ok st' n" using assms(2) by (simp add: inum_ok_def sup)
  then have get: "get_inode st' n = (inode_at st' n,
      st'\<lparr>mallocs := mallocs st' + 2, pos := ir_off (super st') + unat n * 128 + 128\<rparr>)"
    by (rule get_inode_inside [OF ok'])
  have le: "nbytes \<le> UFS_BLOCK_SIZE - offset mod UFS_BLOCK_SIZE"
    using assms(5) by (simp add: word_le_nat_alt unat_offree)
  have "get_at (img st') (unat (ds ! ?d) * 4096 + rem_of offset) (length (take (unat nbytes) rbuf)) = take (unat nbytes) buf"
    using data assms(6) by (simp add: min_absorb2)
  then show ?thesis
    using r le d f(4) assms(5,6)
    by (simp add: read_file_def get ino read_block_number Let_def DIRECT_PTRS_def fsread_inside)
qed

end
