(* ===== verification/Ufs_Dirs.thy ===== *)
theory Ufs_Dirs
  imports Ufs_Files
begin

text \<open>
  Directories in the UFS server: \<^verbatim>\<open>lookup_file\<close> finds the first live entry of a name in the order of the
  blocks, \<^verbatim>\<open>creat_file\<close> makes a name that can then be looked up, and what \<^verbatim>\<open>unlink_file\<close> does to the
  parent directory.
\<close>

section \<open>Lookup as a search\<close>

definition entry_at :: "serv \<Rightarrow> u32 \<Rightarrow> nat \<Rightarrow> byte list" where
  "entry_at st b j = get_at (img st) (unat b * 4096 + 32 * j) 32"

definition matches :: "byte list \<Rightarrow> byte list \<Rightarrow> bool" where
  "matches name e \<longleftrightarrow> cstr e = name \<and> word_at e 28 \<noteq> -1"

definition entry_addr :: "u32 \<Rightarrow> nat \<Rightarrow> u32" where
  "entry_addr b j = b * UFS_BLOCK_SIZE + of_nat j * 32"

lemma name_eq_short: "length name < length de \<Longrightarrow> name_eq de name = Ok (cstr de = name)"
  by (auto simp: name_eq_def dest: arg_cong [of _ _ length])

lemma unat_entry_addr:
  assumes "serv_ok st" "blk_ok st b" "j < 128"
  shows "unat (entry_addr b j) = unat b * 4096 + 32 * j"
    and "unat b * 4096 + 32 * j + 32 \<le> length (img st)"
proof -
  have j: "unat (of_nat j * 32 :: u32) = 32 * j"
    using assms(3) by (simp add: unat_word_ariths unat_of_nat)
  note r = blk_ok_fits [OF assms(1,2)] serv_ok_regions [OF assms(1)]
  then show "unat (entry_addr b j) = unat b * 4096 + 32 * j"
    using assms(3) unat_block_addr [of b "of_nat j * 32"] j by (simp add: entry_addr_def)
  show "unat b * 4096 + 32 * j + 32 \<le> length (img st)"
    using r assms(3) by linarith
qed

lemma blk_ok_touch [simp]: "blk_ok (st\<lparr>pos := p\<rparr>) b = blk_ok st b" "blk_ok (st\<lparr>mallocs := m\<rparr>) b = blk_ok st b"
  by (simp_all add: blk_ok_def)

lemma serv_ok_touch1 [simp]: "serv_ok (st\<lparr>pos := p\<rparr>) = serv_ok st" "serv_ok (st\<lparr>mallocs := m\<rparr>) = serv_ok st"
  by (simp_all add: serv_ok_def)

lemma entry_at_touch [simp]:
  "entry_at (st\<lparr>pos := p\<rparr>) b j = entry_at st b j" "entry_at (st\<lparr>mallocs := m\<rparr>) b j = entry_at st b j"
  by (simp_all add: entry_at_def)

definition find_entry :: "serv \<Rightarrow> u32 \<Rightarrow> byte list \<Rightarrow> nat list \<Rightarrow> (byte list \<times> u32) option" where
  "find_entry st b name js =
     map_option (\<lambda>j. (entry_at st b j, entry_addr b j)) (find (\<lambda>j. matches name (entry_at st b j)) js)"

lemma lookup_entries_find:
  "serv_ok st \<Longrightarrow> blk_ok st b \<Longrightarrow> length name < 32 \<Longrightarrow> \<forall>j\<in>set js. j < 128 \<Longrightarrow> length de = 32 \<Longrightarrow>
   \<exists>p. lookup_entries js st b name de = Ok (find_entry st b name js, st\<lparr>pos := p\<rparr>)"
proof (induction js arbitrary: st de)
  case Nil
  show ?case by (rule exI [of _ "pos st"]) (simp add: find_entry_def)
next
  case (Cons j js)
  have j: "j < 128" using Cons.prems(4) by simp
  note a = unat_entry_addr [OF Cons.prems(1,2) j]
  let ?e = "entry_at st b j" and ?st = "st\<lparr>pos := unat b * 4096 + 32 * j + 32\<rparr>"
  have len: "length ?e = 32" using a(2) by (simp add: entry_at_def)
  have rd: "fsread st (entry_addr b j) de = (?e, ?st)"
    using a serv_ok_regions(7) [OF Cons.prems(1)] Cons.prems(5)
    by (subst fsread_inside) (auto simp: entry_at_def)
  have ne: "name_eq ?e name = Ok (cstr ?e = name)"
    using len Cons.prems(3) by (intro name_eq_short) simp
  show ?case
  proof (cases "matches name ?e")
    case True
    then show ?thesis
      using rd ne by (intro exI [of _ "unat b * 4096 + 32 * j + 32"])
        (simp add: find_entry_def matches_def flip: entry_addr_def)
  next
    case False
    obtain p where "lookup_entries js ?st b name ?e = Ok (find_entry ?st b name js, ?st\<lparr>pos := p\<rparr>)"
      using Cons.IH [of ?st ?e] Cons.prems len by auto
    moreover have "lookup_entries (j # js) st b name de = lookup_entries js ?st b name ?e"
      using rd ne False by (auto simp: matches_def simp flip: entry_addr_def)
    ultimately show ?thesis
      using False by (intro exI [of _ p]) (simp add: find_entry_def)
  qed
qed

fun find_in_blocks :: "serv \<Rightarrow> u32 list \<Rightarrow> byte list \<Rightarrow> (byte list \<times> u32) option" where
  "find_in_blocks st [] name = None"
| "find_in_blocks st (b # bs) name =
     (case find_entry st b name [0..<128] of Some r \<Rightarrow> Some r | None \<Rightarrow> find_in_blocks st bs name)"

lemma find_entry_touch [simp]:
  "find_entry (st\<lparr>pos := p\<rparr>) b name js = find_entry st b name js"
  "find_entry (st\<lparr>mallocs := m\<rparr>) b name js = find_entry st b name js"
  by (simp_all add: find_entry_def)

lemma find_in_blocks_touch [simp]:
  "find_in_blocks (st\<lparr>pos := p\<rparr>) bs name = find_in_blocks st bs name"
  "find_in_blocks (st\<lparr>mallocs := m\<rparr>) bs name = find_in_blocks st bs name"
  by (induction bs) (auto split: option.splits)

lemma snd_malloc [simp]: "snd (malloc st n) = st\<lparr>mallocs := Suc (mallocs st)\<rparr>"
  by (simp add: malloc_def)

lemma lookup_blocks_find:
  "serv_ok st \<Longrightarrow> \<forall>i\<in>set is. i < DIRECT_PTRS \<and> blk_ok st (idirect nd ! i) \<Longrightarrow> length name < 32 \<Longrightarrow>
   \<exists>p m. lookup_blocks is st nd name = Ok (find_in_blocks st (map ((!) (idirect nd)) is) name,
     st\<lparr>mallocs := m, pos := p\<rparr>)"
proof (induction "is" arbitrary: st)
  case Nil
  show ?case by (intro exI [of _ "pos st"] exI [of _ "mallocs st"]) simp
next
  case (Cons i "is")
  let ?b = "idirect nd ! i" and ?st = "st\<lparr>mallocs := Suc (mallocs st)\<rparr>"
  obtain p where e: "lookup_entries [0..<128] ?st ?b name (fst (malloc st 32)) =
      Ok (find_entry st ?b name [0..<128], ?st\<lparr>pos := p\<rparr>)"
    using lookup_entries_find [of ?st ?b name "[0..<128]" "fst (malloc st 32)"] Cons.prems by auto
  have i: "i < DIRECT_PTRS" using Cons.prems(2) by simp
  show ?case
  proof (cases "find_entry st ?b name [0..<128]")
    case None
    obtain p' m' where "lookup_blocks is (?st\<lparr>pos := p\<rparr>) nd name =
        Ok (find_in_blocks st (map ((!) (idirect nd)) is) name, ?st\<lparr>pos := p\<rparr>\<lparr>mallocs := m', pos := p'\<rparr>)"
      using Cons.IH [of "?st\<lparr>pos := p\<rparr>"] Cons.prems by auto
    then show ?thesis
      using i e None by (intro exI [of _ p'] exI [of _ m']) (simp add: Let_def split_beta del: upt_rec_numeral)
  next
    case (Some r)
    then show ?thesis
      using i e by (intro exI [of _ p] exI [of _ "Suc (mallocs st)"])
        (simp add: Let_def split_beta del: upt_rec_numeral)
  qed
qed

text \<open>The blocks a directory's size says are in use, and a directory that can be searched.\<close>

definition dir_blocks :: "inode_t \<Rightarrow> u32 list" where
  "dir_blocks nd = take (unat (mxb nd)) (idirect nd)"

definition dir_ok :: "serv \<Rightarrow> inode_t \<Rightarrow> bool" where
  "dir_ok st nd \<longleftrightarrow> itype nd = UFS_DIRECTORY \<and> unat (mxb nd) \<le> DIRECT_PTRS \<and>
     length (idirect nd) = DIRECT_PTRS \<and> (\<forall>b\<in>set (dir_blocks nd). blk_ok st b)"

lemma lookup_file_find:
  assumes "serv_ok st" "inum_ok st p" "dir_ok st (inode_at st p)" "length name < 32"
  shows "\<exists>q m. lookup_file st p name =
    Ok (find_in_blocks st (dir_blocks (inode_at st p)) name, st\<lparr>mallocs := m, pos := q\<rparr>)"
proof -
  let ?nd = "inode_at st p"
  define st0 where "st0 = st\<lparr>mallocs := mallocs st + 2, pos := ir_off (super st) + unat p * 128 + 128\<rparr>"
  have get: "get_inode st p = (?nd, st0)"
    using get_inode_inside [OF assms(1,2)] by (simp add: st0_def)
  have blocks: "map ((!) (idirect ?nd)) [0..<unat (mxb ?nd)] = dir_blocks ?nd"
    using assms(3) by (simp add: dir_ok_def dir_blocks_def list_eq_iff_nth_eq)
  have "blk_ok st (idirect ?nd ! i)" if "i < unat (mxb ?nd)" for i
  proof -
    have "idirect ?nd ! i \<in> set (dir_blocks ?nd)"
      using that unfolding blocks [symmetric] by simp
    then show ?thesis using assms(3) by (simp add: dir_ok_def)
  qed
  then obtain q m where "lookup_blocks [0..<unat (mxb ?nd)] st0 ?nd name =
      Ok (find_in_blocks st0 (map ((!) (idirect ?nd)) [0..<unat (mxb ?nd)]) name, st0\<lparr>mallocs := m, pos := q\<rparr>)"
    using lookup_blocks_find [of st0 "[0..<unat (mxb ?nd)]" ?nd name] assms
    by (auto simp: st0_def dir_ok_def)
  then show ?thesis
    using assms(3) get blocks
    by (intro exI [of _ q] exI [of _ m]) (simp add: lookup_file_def dir_ok_def st0_def)
qed

section \<open>A new inode\<close>

definition empty_inode :: "u32 \<Rightarrow> inode_t" where
  "empty_inode ty = \<lparr> itype = ty, isize = 0, idirect = replicate DIRECT_PTRS (-1) \<rparr>"

text \<open>The relation between the states before and after making inode \<open>n\<close>.\<close>

definition inode_made :: "serv \<Rightarrow> u32 \<Rightarrow> u32 \<Rightarrow> serv \<Rightarrow> bool" where
  "inode_made st ty n st' \<longleftrightarrow> unat n = Suc (unat (highest_inode st)) \<and> serv_ok st' \<and>
     super st' = super st \<and> hghst_alloc_dblk st' = hghst_alloc_dblk st \<and> highest_inode st' = n \<and>
     inum_ok st' n \<and> inode_at st' n = empty_inode ty \<and>
     (\<forall>m. m \<noteq> n \<longrightarrow> inum_ok st m \<longrightarrow> inum_ok st' m \<and> inode_at st' m = inode_at st m) \<and>
     (\<forall>off k. dr_off (super st) \<le> off \<longrightarrow> get_at (img st') off k = get_at (img st) off k)"

lemma quads_apart: "a * 4 \<noteq> b * 4 \<Longrightarrow> a * 4 + 4 \<le> b * 4 \<or> b * 4 + 4 \<le> a * (4::nat)"
  by presburger

lemma bitword_set:
  assumes "off + word_off n + 4 \<le> length (img st)" "off + word_off m + 4 \<le> length (img st)"
    and "img st' = put_at (img st) (off + word_off n) (le32 (bitword st off n OR mask n))"
  shows "bitword st' off m = (if word_off m = word_off n then bitword st off m OR mask n else bitword st off m)"
proof (cases "word_off m = word_off n")
  case True
  then show ?thesis
    using assms by (simp add: bitword_def get_put_same flip: word_off_def)
next
  case False
  then have "word_off m + 4 \<le> word_off n \<or> word_off n + 4 \<le> word_off m"
    unfolding word_off_def by (rule quads_apart)
  then show ?thesis
    using assms False by (elim disjE) (simp_all add: bitword_def get_put_disjoint flip: word_off_def)
qed

lemma or_nonzero: "a \<noteq> 0 \<or> b \<noteq> 0 \<Longrightarrow> (a :: u32) OR b \<noteq> 0"
  by (auto simp: or_eq_0_iff)

lemma new_inode_made:
  assumes "serv_ok st" "Suc (unat (highest_inode st)) < unat (num_inodes (super st))"
  shows "\<exists>n st'. new_inode st ty = (n, st') \<and> inode_made st ty n st'"
proof -
  let ?n = "highest_inode st + 1" and ?s = "super st"
  have n: "unat ?n = Suc (unat (highest_inode st))"
    using assms(2) unat_bound [of "num_inodes ?s"] by (intro unat_succ) linarith
  then have lt: "unat ?n < unat (num_inodes ?s)" using assms(2) by simp
  have ne: "highest_inode st \<noteq> num_inodes ?s - 1"
    using n lt by auto
  note r = serv_ok_regions [OF assms(1)] inode_fits [OF assms(1) lt]
  define st1 where "st1 = st\<lparr>highest_inode := ?n, mallocs := Suc (mallocs st),
    img := put_at (img st) (ib_off ?s + word_off ?n) (le32 (bitword st (ib_off ?s) ?n OR mask ?n)),
    pos := ib_off ?s + word_off ?n + 4\<rparr>"
  have set_bit: "set_bit_at (st\<lparr>highest_inode := ?n\<rparr>) (inode_bitmap_addr ?s) ?n = st1"
    using r by (subst set_bit_at_inside) (auto simp: ib_off_def bitword_def st1_def)
  have ok1: "serv_ok st1" using assms(1) r lt by (simp add: st1_def serv_ok_def layout_ok_def)
  define st2 where "st2 = st1\<lparr>img := put_at (img st1) (ir_off ?s + unat ?n * 128) (inode_bytes (empty_inode ty)),
    pos := ir_off ?s + unat ?n * 128 + 128\<rparr>"
  have new: "new_inode st ty = (?n, st2)"
    using ne set_bit write_inode_inside [OF ok1, of ?n "empty_inode ty"] lt
    by (simp add: new_inode_def Let_def st1_def st2_def empty_inode_def)
  have len: "length (inode_bytes (empty_inode ty)) = 128" by (simp add: empty_inode_def DIRECT_PTRS_def)
  have bits: "bitword st2 (ib_off ?s) m =
      (if word_off m = word_off ?n then bitword st (ib_off ?s) m OR mask ?n else bitword st (ib_off ?s) m)"
    if "unat m < unat (num_inodes ?s)" for m
  proof -
    note rm = inode_fits [OF assms(1) that]
    have "bitword st2 (ib_off ?s) m = bitword st1 (ib_off ?s) m"
      using r rm len by (simp add: bitword_def st2_def st1_def get_put_disjoint flip: word_off_def)
    also have "\<dots> = (if word_off m = word_off ?n then bitword st (ib_off ?s) m OR mask ?n
        else bitword st (ib_off ?s) m)"
      using r rm by (intro bitword_set) (auto simp: st1_def)
    finally show ?thesis .
  qed
  have other: "inum_ok st2 m \<and> inode_at st2 m = inode_at st m" if "m \<noteq> ?n" "inum_ok st m" for m
  proof -
    have lm: "unat m < unat (num_inodes ?s)" using that(2) by (simp add: inum_ok_def)
    note rm = inode_fits [OF assms(1) lm]
    have "unat m \<noteq> unat ?n" using that(1) unfolding word_unat_eq_iff .
    then have "ir_off ?s + unat m * 128 + 128 \<le> ir_off ?s + unat ?n * 128 \<or>
        ir_off ?s + unat ?n * 128 + 128 \<le> ir_off ?s + unat m * 128" by linarith
    then have "get_at (img st2) (ir_off ?s + unat m * 128) 128 = get_at (img st) (ir_off ?s + unat m * 128) 128"
      using r rm len by (elim disjE) (simp_all add: st2_def st1_def get_put_disjoint)
    then show ?thesis
      using that(2) bits [OF lm] by (auto simp: inum_ok_def inode_at_def st2_def st1_def or_nonzero)
  qed
  have "get_at (img st2) (ir_off ?s + unat ?n * 128) 128 = inode_bytes (empty_inode ty)"
    using r len by (auto simp: st2_def st1_def intro!: get_put_same)
  then have own: "inum_ok st2 ?n" "inode_at st2 ?n = empty_inode ty"
    using bits [OF lt] lt inode_of_bytes' [of "empty_inode ty"]
    by (auto simp: inum_ok_def inode_at_def st2_def st1_def or_nonzero empty_inode_def)
  have "serv_ok st2" using ok1 r len by (simp add: st2_def st1_def serv_ok_def layout_ok_def)
  moreover have "get_at (img st2) off k = get_at (img st) off k" if "dr_off ?s \<le> off" for off k
    using r len that by (simp add: st2_def st1_def get_put_disjoint)
  ultimately show ?thesis
    using new n other own by (auto simp: inode_made_def st2_def st1_def)
qed

section \<open>Adding an entry\<close>

lemma unat_mxb:
  assumes "unat (isize nd) < 2 ^ 30"
  shows "unat (mxb nd) = (unat (isize nd) + 4095) div 4096"
proof -
  have "sint (isize nd) = int (unat (isize nd))" using assms by (intro sint_eq_unat) simp
  moreover have "- ((- int k) div 4096) = int ((k + 4095) div 4096)" for k
    by (simp add: zdiv_int)
  ultimately have "mxb nd = of_nat ((unat (isize nd) + 4095) div 4096)"
    unfolding mxb_def by (simp only: of_int_of_nat_eq)
  moreover have "(unat (isize nd) + 4095) div 4096 < 2 ^ 32"
    using assms by (intro le_less_trans [OF div_le_dividend]) simp
  ultimately show ?thesis by (simp add: unat_of_nat)
qed

lemma blk_of_unat: "blk_of offset = unat offset div 4096" "rem_of offset = unat offset mod 4096"
  by (simp_all add: blk_of_def rem_of_def UFS_BLOCK_SIZE_def unat_div unat_mod)

text \<open>When at most one block has to be allocated and there is one, the write goes through.\<close>

lemma alloc_down_ready:
  assumes "serv_ok st" "Suc (unat (hghst_alloc_dblk st)) < unat (data_region_len (super st))"
    and "d < length ds" "\<forall>i<d. ds ! i \<noteq> -1"
  shows "\<exists>ds' st'. alloc_down d st ds = (Some ds', st')"
proof (cases "ds ! d = -1")
  case True
  obtain b st1 where a: "alloc_dblk st = (b, st1)" by fastforce
  have ne: "unat (hghst_alloc_dblk st) \<noteq> unat (data_region_len (super st)) - 1"
    using assms(2) by linarith
  have b: "b \<noteq> -1"
  proof
    assume "b = -1"
    then have "st1 = st" using a alloc_dblk_full [OF assms(1)] by simp
    moreover have "hghst_alloc_dblk st1 = hghst_alloc_dblk st + 1"
      using a alloc_dblk_inside [OF assms(1)] ne by auto
    ultimately show False by simp
  qed
  show ?thesis
  proof (cases d)
    case 0
    then show ?thesis using True a b by (simp add: alloc_down.simps [of 0])
  next
    case (Suc d')
    have "ds ! d' \<noteq> -1" using assms(4) Suc by simp
    then have "alloc_down d' st1 (ds[d := b]) = (Some (ds[d := b]), st1)"
      using Suc by (simp add: alloc_down.simps [of d'])
    then show ?thesis using True a b Suc by (simp add: alloc_down.simps [of "Suc d'"])
  qed
next
  case False
  then show ?thesis by (simp add: alloc_down.simps [of d])
qed

lemma write_file_succeeds:
  assumes "serv_ok st" "inum_ok st n" "Suc (unat (hghst_alloc_dblk st)) < unat (data_region_len (super st))"
    and "blk_of offset < DIRECT_PTRS" "\<forall>i<blk_of offset. idirect (inode_at st n) ! i \<noteq> -1"
    and "rem_of offset + unat nbytes \<le> 4096" "unat nbytes \<le> length buf" "itype (inode_at st n) = ty"
  shows "\<exists>st'. write_file st n buf offset nbytes ty = Ok (0, st')"
proof -
  define st0 where "st0 = st\<lparr>mallocs := mallocs st + 2, pos := ir_off (super st) + unat n * 128 + 128\<rparr>"
  have get: "get_inode st n = (inode_at st n, st0)"
    using get_inode_inside [OF assms(1,2)] by (simp add: st0_def)
  have le: "nbytes \<le> UFS_BLOCK_SIZE - offset mod UFS_BLOCK_SIZE"
    using assms(6) by (simp add: word_le_nat_alt unat_offree)
  obtain ds st1 where "alloc_down (blk_of offset) st0 (idirect (inode_at st n)) = (Some ds, st1)"
    using alloc_down_ready [of st0 "blk_of offset" "idirect (inode_at st n)"] assms(1,3-5)
    by (auto simp: st0_def inode_at_def)
  then show ?thesis
    using assms(4,7,8) le by (simp add: write_file_def get Let_def blk_of_def DIRECT_PTRS_def)
qed

text \<open>The 32 bytes of a new entry.\<close>

definition made_entry :: "byte list \<Rightarrow> u32 \<Rightarrow> byte list \<Rightarrow> byte list" where
  "made_entry g n name = put_at (put_at g 28 (le32 n)) 0 (name @ [0])"

lemma made_entry:
  assumes "length g = 32" "length name < 28" "0 \<notin> set name"
  shows "length (made_entry g n name) = 32" "cstr (made_entry g n name) = name" "word_at (made_entry g n name) 28 = n"
proof -
  show "length (made_entry g n name) = 32" using assms by (simp add: made_entry_def)
  have "takeWhile (\<lambda>b. b \<noteq> 0) (name @ 0 # zs) = name" for zs
    using assms(3) by (induction name) auto
  then show "cstr (made_entry g n name) = name"
    by (simp add: cstr_def made_entry_def put_at_def)
  show "word_at (made_entry g n name) 28 = n"
    using assms(1,2) by (simp add: word_at_def made_entry_def get_put_disjoint get_put_same)
qed

lemma blocks_apart: "b \<noteq> c \<Longrightarrow> unat (b :: u32) * 4096 + 4096 \<le> unat c * 4096 \<or> unat c * 4096 + 4096 \<le> unat b * 4096"
proof -
  assume "b \<noteq> c"
  then have "unat b \<noteq> unat c" unfolding word_unat_eq_iff .
  then show ?thesis by linarith
qed


text \<open>
  The entries of the directories after an entry was written: all of them but the one slot are as
  before.
\<close>

lemma entry_after_write:
  assumes ok: "serv_ok st" "blk_ok st b" "j < 128" "inum_ok st p"
    and frame: "\<forall>off k. (off + k \<le> db_off (super st) \<or> ir_off (super st) \<le> off) \<longrightarrow>
       (off + k \<le> ino_off st p \<or> ino_off st p + 128 \<le> off) \<longrightarrow>
       (off + k \<le> unat c * 4096 + r \<or> unat c * 4096 + r + 32 \<le> off) \<longrightarrow>
       get_at (img st') off k = get_at (img st) off k"
    and r: "r = 32 * i" "i < 128" and ne: "b \<noteq> c \<or> j \<noteq> i"
  shows "entry_at st' b j = entry_at st b j"
proof -
  have lt: "unat p < unat (num_inodes (super st))" using ok(4) by (simp add: inum_ok_def)
  have "unat b * 4096 + 32 * j + 32 \<le> unat c * 4096 + r \<or> unat c * 4096 + r + 32 \<le> unat b * 4096 + 32 * j"
  proof (cases "b = c")
    case True
    then show ?thesis using ne r by auto
  next
    case False
    then show ?thesis using blocks_apart [OF False] r ok(3) by auto
  qed
  then show ?thesis
    unfolding entry_at_def
    using frame [rule_format, of "unat b * 4096 + 32 * j" 32]
      inode_fits [OF ok(1) lt] blk_ok_fits [OF ok(1,2)] serv_ok_regions [OF ok(1)]
    by (auto simp: ino_off_def)
qed

lemma find_first: "\<forall>i<k. \<not> P i \<Longrightarrow> P k \<Longrightarrow> k < n \<Longrightarrow> find P [0..<n] = Some k"
  by (auto simp: find_Some_iff intro!: exI [of _ k])

lemma find_in_blocks_append:
  "find_in_blocks st (xs @ ys) name =
     (case find_in_blocks st xs name of Some r \<Rightarrow> Some r | None \<Rightarrow> find_in_blocks st ys name)"
  by (induction xs) (auto split: option.splits)

lemma find_in_blocks_None:
  "find_in_blocks st bs name = None \<longleftrightarrow> (\<forall>b\<in>set bs. \<forall>j<128. \<not> matches name (entry_at st b j))"
  by (induction bs) (auto simp: find_entry_def find_None_iff find_Some_iff split: option.splits)


lemma slot_of:
  assumes "s mod 32 = 0"
  shows "s mod 4096 = 32 * (s mod 4096 div 32)" "s = 4096 * (s div 4096) + 32 * (s mod 4096 div (32::nat))"
proof -
  have "s mod 4096 mod 32 = 0" using assms by (simp add: mod_mod_cancel)
  then show "s mod 4096 = 32 * (s mod 4096 div 32)"
    using mult_div_mod_eq [of 32 "s mod 4096"] by linarith
  then show "s = 4096 * (s div 4096) + 32 * (s mod 4096 div 32)"
    using mult_div_mod_eq [of 4096 s] by linarith
qed

lemma blk_ok_not_minus_1: "serv_ok st \<Longrightarrow> blk_ok st b \<Longrightarrow> b \<noteq> -1"
  using blk_ok_fits [of st b] serv_ok_regions [of st] by (intro small_not_minus_1) auto

text \<open>The directory a name can be added to: searchable, no block used twice, and room for one more entry.\<close>

definition dir_room :: "serv \<Rightarrow> inode_t \<Rightarrow> bool" where
  "dir_room st nd \<longleftrightarrow> dir_ok st nd \<and> direct_ok st (idirect nd) \<and> distinct (filter (\<lambda>b. b \<noteq> -1) (idirect nd)) \<and>
     unat (isize nd) < 30 * 4096 \<and> unat (isize nd) mod 32 = 0 \<and>
     Suc (unat (hghst_alloc_dblk st)) < unat (data_region_len (super st))"

text \<open>Position of the new entry: block \<open>d\<close>, slot \<open>i\<close>.\<close>

lemma dir_room_slot:
  assumes "serv_ok st" "dir_room st nd"
  defines "d \<equiv> blk_of (isize nd)" and "i \<equiv> unat (isize nd) mod 4096 div 32"
  shows "d < DIRECT_PTRS" "rem_of (isize nd) = 32 * i" "i < 128"
    and "\<forall>k<d. blk_ok st (idirect nd ! k)"
    and "dir_blocks nd = take d (idirect nd) @ (if i = 0 then [] else [idirect nd ! d])"
    and "\<And>ds. length ds = DIRECT_PTRS \<Longrightarrow>
      dir_blocks (set_size (isize nd + 32) (nd\<lparr>idirect := ds\<rparr>)) = take d ds @ [ds ! d] \<and>
      unat (mxb (set_size (isize nd + 32) (nd\<lparr>idirect := ds\<rparr>))) = Suc d"
proof -
  let ?z = "unat (isize nd)"
  have z: "?z < 30 * 4096" "?z mod 32 = 0" and len: "length (idirect nd) = DIRECT_PTRS"
    using assms(2) by (simp_all add: dir_room_def dir_ok_def)
  have d: "d = ?z div 4096" by (simp add: d_def blk_of_unat)
  then show dl: "d < DIRECT_PTRS" using z(1) by (simp add: DIRECT_PTRS_def less_mult_imp_div_less)
  have split: "?z = 4096 * d + 32 * i" using slot_of [OF z(2)] by (simp add: d i_def)
  show "rem_of (isize nd) = 32 * i" using slot_of [OF z(2)] by (simp add: blk_of_unat i_def)
  show i: "i < 128" unfolding i_def by (simp add: less_mult_imp_div_less)
  have mx: "unat (mxb nd) = (if i = 0 then d else Suc d)"
    using z(1) i by (subst unat_mxb) (auto simp: split)
  then show blocks: "dir_blocks nd = take d (idirect nd) @ (if i = 0 then [] else [idirect nd ! d])"
    using dl len by (simp add: dir_blocks_def take_Suc_conv_app_nth)
  show "\<forall>k<d. blk_ok st (idirect nd ! k)"
  proof (intro allI impI)
    fix k assume "k < d"
    then have "take d (idirect nd) ! k \<in> set (take d (idirect nd))"
      using dl len by (intro nth_mem) simp
    then show "blk_ok st (idirect nd ! k)"
      using assms(2) blocks \<open>k < d\<close> by (simp add: dir_room_def dir_ok_def)
  qed
  fix ds :: "u32 list"
  assume "length ds = DIRECT_PTRS"
  have "unat (isize nd + 32) = ?z + 32" using z(1) by (simp add: unat_word_ariths)
  then have "isize (set_size (isize nd + 32) (nd\<lparr>idirect := ds\<rparr>)) = isize nd + 32"
    by (simp add: set_size_def word_less_nat_alt)
  then have "unat (mxb (set_size (isize nd + 32) (nd\<lparr>idirect := ds\<rparr>))) = Suc d"
    using z(1) i \<open>unat (isize nd + 32) = ?z + 32\<close> by (subst unat_mxb) (auto simp: split)
  then show "dir_blocks (set_size (isize nd + 32) (nd\<lparr>idirect := ds\<rparr>)) = take d ds @ [ds ! d] \<and>
      unat (mxb (set_size (isize nd + 32) (nd\<lparr>idirect := ds\<rparr>))) = Suc d"
    using dl \<open>length ds = DIRECT_PTRS\<close> by (simp add: dir_blocks_def take_Suc_conv_app_nth)
qed


text \<open>
  The search in the directory after the write: the blocks before \<open>d\<close> hold no match, and in block
  \<open>c\<close> the first match is slot \<open>i\<close>.
\<close>

lemma search_after_write:
  assumes "\<forall>b\<in>set bs. \<forall>j<128. \<not> matches name (entry_at st' b j)"
    and "\<forall>j<i. \<not> matches name (entry_at st' c j)" "i < 128" "matches name (entry_at st' c i)"
  shows "find_in_blocks st' (bs @ [c]) name = Some (entry_at st' c i, entry_addr c i)"
proof -
  have "find_in_blocks st' bs name = None" using assms(1) by (simp add: find_in_blocks_None)
  moreover have "find (\<lambda>j. matches name (entry_at st' c j)) [0..<128] = Some i"
    using assms(2-4) by (intro find_first) auto
  ultimately show ?thesis
    by (simp add: find_in_blocks_append find_entry_def)
qed

lemma distinct_filter_nth:
  "distinct (filter P xs) \<Longrightarrow> i < length xs \<Longrightarrow> j < length xs \<Longrightarrow> P (xs ! i) \<Longrightarrow> xs ! i = xs ! j \<Longrightarrow> i = j"
proof (induction xs arbitrary: i j)
  case (Cons x xs)
  then show ?case
    by (cases i; cases j) (auto simp: nth_mem split: if_splits)
qed simp

lemma alloc_post_keep:
  assumes "alloc_post d st ds st' ds'" "k < length ds" "ds ! k \<noteq> -1 \<or> blk_ok st (ds' ! k)"
  shows "ds' ! k = ds ! k"
  using assms unfolding alloc_post_def by blast

lemma early_blocks:
  assumes "serv_ok st" "dir_room st nd" "alloc_post (blk_of (isize nd)) st (idirect nd) st1 ds"
    and k: "k < blk_of (isize nd)"
  shows "ds ! k = idirect nd ! k" "blk_ok st (ds ! k)" "ds ! k \<noteq> ds ! blk_of (isize nd)"
proof -
  let ?d = "blk_of (isize nd)"
  note slot = dir_room_slot [OF assms(1,2)]
  have len: "length (idirect nd) = DIRECT_PTRS" using assms(2) by (simp add: dir_room_def dir_ok_def)
  have ok_k: "blk_ok st (idirect nd ! k)" "idirect nd ! k \<noteq> -1"
    using slot(4) k blk_ok_not_minus_1 [OF assms(1)] by blast+
  then show *: "ds ! k = idirect nd ! k"
    using alloc_post_keep [OF assms(3)] k slot(1) len by simp
  then show "blk_ok st (ds ! k)" using ok_k by simp
  show "ds ! k \<noteq> ds ! ?d"
  proof
    assume same: "ds ! k = ds ! ?d"
    then have eq: "ds ! ?d = idirect nd ! ?d"
      using alloc_post_keep [OF assms(3)] ok_k(1) * slot(1) len by simp
    have "k = ?d"
    proof (rule distinct_filter_nth)
      show "distinct (filter (\<lambda>b. b \<noteq> -1) (idirect nd))" using assms(2) by (simp add: dir_room_def)
      show "idirect nd ! k \<noteq> -1" by (rule ok_k(2))
      show "idirect nd ! k = idirect nd ! ?d" by (rule trans [OF * [symmetric] trans [OF same eq]])
    qed (use k slot(1) len in simp_all)
    then show False using k by simp
  qed
qed

lemma add_entry_finds:
  assumes ok: "serv_ok st" "inum_ok st p" "dir_room st (inode_at st p)"
    and name: "length name < 28" "0 \<notin> set name"
    and absent: "find_in_blocks st (dir_blocks (inode_at st p)) name = None"
    and n: "n \<noteq> -1" and g: "length g = 32"
    and w: "write_file st p (made_entry g n name) (isize (inode_at st p)) 32 UFS_DIRECTORY = Ok (0, st')"
  shows "serv_ok st' \<and> inum_ok st' p \<and> dir_ok st' (inode_at st' p) \<and>
    (\<exists>e a. find_in_blocks st' (dir_blocks (inode_at st' p)) name = Some (e, a) \<and> word_at e 28 = n)"
proof -
  let ?nd = "inode_at st p"
  let ?d = "blk_of (isize ?nd)" and ?i = "unat (isize ?nd) mod 4096 div 32"
  note slot = dir_room_slot [OF ok(1,3)] and e = made_entry [OF g name, of n]
  have dok: "direct_ok st (idirect ?nd)" "itype ?nd = UFS_DIRECTORY" "length (idirect ?nd) = DIRECT_PTRS"
    using ok(3) by (simp_all add: dir_room_def dir_ok_def)
  have fits: "rem_of (isize ?nd) + unat (32::u32) \<le> 4096" using slot(2,3) by simp
  obtain st1 ds where post: "alloc_post ?d st (idirect ?nd) st1 ds"
    and ok': "serv_ok st'" and sup: "super st' = super st" and hgh: "hghst_alloc_dblk st' = hghst_alloc_dblk st1"
    and ino: "inode_at st' p = set_size (isize ?nd + 32) (?nd\<lparr>idirect := ds\<rparr>)"
    and data: "get_at (img st') (unat (ds ! ?d) * 4096 + rem_of (isize ?nd)) 32 = made_entry g n name"
    and frame: "\<forall>off k. (off + k \<le> db_off (super st) \<or> ir_off (super st) \<le> off) \<longrightarrow>
       (off + k \<le> ino_off st p \<or> ino_off st p + 128 \<le> off) \<longrightarrow>
       (off + k \<le> unat (ds ! ?d) * 4096 + rem_of (isize ?nd) \<or>
        unat (ds ! ?d) * 4096 + rem_of (isize ?nd) + 32 \<le> off) \<longrightarrow>
       get_at (img st') off k = get_at (img st) off k"
    using write_file_image [OF ok(1,2) dok(1) w fits] e(1) by auto
  note f = alloc_post_facts [OF post]
  have len: "length ds = DIRECT_PTRS" using f(3) dok(3) by simp
  let ?c = "ds ! ?d"
  have blk': "blk_ok st' b = blk_ok st1 b" for b by (simp add: blk_ok_def sup hgh f(2))
  have c: "blk_ok st' ?c"
    using alloc_post_blk_ok [OF post dok(1)] slot(1) dok(3) f(4) by (simp add: blk')
  note early = early_blocks [OF ok(1,3) post]
  note entry = entry_after_write [OF ok(1) _ _ ok(2) frame slot(2,3)]
  have part1: "\<forall>b\<in>set (take ?d ds). \<forall>j<128. \<not> matches name (entry_at st' b j)"
  proof (intro ballI allI impI)
    fix b j assume "b \<in> set (take ?d ds)" and j: "j < (128::nat)"
    then obtain k where k: "k < ?d" "b = ds ! k" by (auto simp: in_set_conv_nth)
    have "entry_at st' b j = entry_at st b j"
      using entry [of b j] early [OF k(1)] k(2) j by simp
    moreover have "b \<in> set (dir_blocks ?nd)"
      using k early(1) [OF k(1)] slot(1,5) dok(3) by (auto simp: in_set_conv_nth)
    ultimately show "\<not> matches name (entry_at st' b j)"
      using absent j by (simp add: find_in_blocks_None)
  qed
  have part2: "\<forall>j<?i. \<not> matches name (entry_at st' ?c j)"
  proof (intro allI impI)
    fix j assume j: "j < ?i"
    then have mem: "idirect ?nd ! ?d \<in> set (dir_blocks ?nd)" using slot(5) by simp
    then have bok: "blk_ok st (idirect ?nd ! ?d)" using ok(3) by (simp add: dir_room_def dir_ok_def)
    then have "?c = idirect ?nd ! ?d"
      using alloc_post_keep [OF post] slot(1) dok(3) blk_ok_not_minus_1 [OF ok(1) bok] by simp
    then show "\<not> matches name (entry_at st' ?c j)"
      using entry [of ?c j] bok mem absent j slot(3) by (simp add: find_in_blocks_None)
  qed
  have here: "entry_at st' ?c ?i = made_entry g n name"
    using data slot(2) by (simp add: entry_at_def)
  then have "matches name (entry_at st' ?c ?i)" using e n by (simp add: matches_def)
  then have find: "find_in_blocks st' (dir_blocks (inode_at st' p)) name = Some (entry_at st' ?c ?i, entry_addr ?c ?i)"
    using search_after_write [OF part1 part2 slot(3)] slot(6) [OF len] by (simp add: ino)
  have lt: "unat p < unat (num_inodes (super st))" using ok(2) by (simp add: inum_ok_def)
  have "bitword st' (ib_off (super st)) p = bitword st (ib_off (super st)) p"
    using frame inode_fits [OF ok(1) lt] serv_ok_regions [OF ok(1)] blk_ok_fits [OF ok' c] sup
    by (simp add: bitword_def ino_off_def flip: word_off_def)
  then have "inum_ok st' p" using ok(2) by (simp add: inum_ok_def sup)
  moreover have "\<forall>b\<in>set (take ?d ds @ [?c]). blk_ok st' b"
    using early(2) c grown_blk_ok [OF f(5)] by (auto simp: in_set_conv_nth blk')
  then have "dir_ok st' (inode_at st' p)"
    using slot(6) [OF len] dok(2) len slot(1) by (simp add: dir_ok_def ino set_size_def)
  ultimately show ?thesis
    using ok' find here e(3) by auto
qed

section \<open>Properties\<close>

lemma touch_facts:
  assumes "st' = st\<lparr>mallocs := m, pos := q\<rparr>"
  shows "serv_ok st' = serv_ok st" "inum_ok st' n = inum_ok st n" "inode_at st' n = inode_at st n"
    "dir_room st' nd = dir_room st nd" "dir_ok st' nd = dir_ok st nd" "blk_ok st' b = blk_ok st b"
    "find_in_blocks st' bs name = find_in_blocks st bs name" "highest_inode st' = highest_inode st"
    "super st' = super st" "img st' = img st" "hghst_alloc_dblk st' = hghst_alloc_dblk st"
  by (simp_all add: assms serv_ok_def inum_ok_def bitword_def inode_at_def dir_room_def dir_ok_def direct_ok_def
      blk_ok_def)

lemma inode_made_dir:
  assumes "serv_ok st" "inode_made st ty n st'" "inum_ok st p" "p \<noteq> n" "dir_room st (inode_at st p)"
  shows "serv_ok st'" "inum_ok st' p" "inode_at st' p = inode_at st p" "dir_room st' (inode_at st p)"
    "find_in_blocks st' (dir_blocks (inode_at st p)) name = find_in_blocks st (dir_blocks (inode_at st p)) name"
proof -
  show *: "serv_ok st'" "inum_ok st' p" "inode_at st' p = inode_at st p"
    using assms by (auto simp: inode_made_def)
  have blk: "blk_ok st' b = blk_ok st b" for b using assms(2) by (simp add: inode_made_def blk_ok_def)
  then show "dir_room st' (inode_at st p)"
    using assms(2,5) by (simp add: inode_made_def dir_room_def dir_ok_def direct_ok_def)
  have "entry_at st' b j = entry_at st b j" if "blk_ok st b" for b j
    using assms(2) blk_ok_fits [OF assms(1) that] by (simp add: inode_made_def entry_at_def)
  moreover have "\<forall>b\<in>set bs. blk_ok st b \<Longrightarrow> (\<And>b j. blk_ok st b \<Longrightarrow> entry_at st' b j = entry_at st b j) \<Longrightarrow>
      find_in_blocks st' bs name = find_in_blocks st bs name" for bs
    by (induction bs) (auto simp: find_entry_def split: option.splits)
  ultimately show "find_in_blocks st' (dir_blocks (inode_at st p)) name = find_in_blocks st (dir_blocks (inode_at st p)) name"
    using assms(5) by (simp add: dir_room_def dir_ok_def)
qed

lemma add_entry_ok:
  assumes "serv_ok st" "inum_ok st p" "dir_room st (inode_at st p)" "length name < 28" "0 \<notin> set name"
    and "find_in_blocks st (dir_blocks (inode_at st p)) name = None" "n \<noteq> -1"
  shows "\<exists>st'. add_entry st p n name = Ok (0, st') \<and> serv_ok st' \<and> inum_ok st' p \<and> dir_ok st' (inode_at st' p) \<and>
    (\<exists>e a. find_in_blocks st' (dir_blocks (inode_at st' p)) name = Some (e, a) \<and> word_at e 28 = n)"
proof -
  let ?nd = "inode_at st p"
  define st0 where "st0 = st\<lparr>mallocs := mallocs st + 3, pos := ir_off (super st) + unat p * 128 + 128\<rparr>"
  define g where "g = map (garbage st (mallocs st + 2)) [0..<32]"
  note t = touch_facts [OF st0_def] and slot = dir_room_slot [OF assms(1,3)]
  have g: "length g = 32" by (simp add: g_def)
  note e = made_entry [OF g assms(4,5), of n]
  have "\<exists>st'. write_file st0 p (made_entry g n name) (isize ?nd) 32 UFS_DIRECTORY = Ok (0, st')"
    using assms(1-3) slot e(1) blk_ok_not_minus_1 [OF assms(1)]
    by (intro write_file_succeeds) (auto simp: t dir_room_def dir_ok_def)
  then obtain st' where w: "write_file st0 p (made_entry g n name) (isize ?nd) 32 UFS_DIRECTORY = Ok (0, st')"
    by blast
  have "malloc (st\<lparr>mallocs := mallocs st + 2, pos := ir_off (super st) + unat p * 128 + 128\<rparr>) 32 = (g, st0)"
    by (simp add: malloc_def g_def st0_def)
  then have "add_entry st p n name = Ok (0, st')"
    using get_inode_inside [OF assms(1,2)] w assms(4) g by (simp add: add_entry_def Let_def made_entry_def)
  then show ?thesis
    using add_entry_finds [of st0 p name n g st'] assms w g by (simp add: t)
qed

lemma find_in_blocks_Some:
  assumes "find_in_blocks st bs name = Some (e, a)"
  shows "\<exists>b\<in>set bs. \<exists>j<128. e = entry_at st b j \<and> a = entry_addr b j \<and> matches name e"
  using assms
proof (induction bs)
  case (Cons b bs)
  show ?case
  proof (cases "find_entry st b name [0..<128]")
    case None
    then show ?thesis using Cons by auto
  next
    case (Some r)
    then obtain j where "find (\<lambda>j. matches name (entry_at st b j)) [0..<128] = Some j"
        "r = (entry_at st b j, entry_addr b j)"
      by (auto simp: find_entry_def)
    then show ?thesis
      using Some Cons.prems by (auto simp: find_Some_iff)
  qed
qed simp

lemma entry_addr_parts:
  assumes "serv_ok st" "blk_ok st b" "j < 128"
  shows "entry_addr b j div UFS_BLOCK_SIZE = b" "entry_addr b j mod UFS_BLOCK_SIZE = of_nat (32 * j)"
proof -
  note a = unat_entry_addr(1) [OF assms]
  have "unat (entry_addr b j div UFS_BLOCK_SIZE) = unat b"
    using assms(3) by (simp add: unat_div a UFS_BLOCK_SIZE_def)
  then show "entry_addr b j div UFS_BLOCK_SIZE = b" by (simp only: word_unat_eq_iff)
  have "unat (entry_addr b j mod UFS_BLOCK_SIZE) = 32 * j"
    using assms(3) by (simp add: unat_mod a UFS_BLOCK_SIZE_def)
  moreover have "unat (of_nat (32 * j) :: u32) = 32 * j"
    using assms(3) by (simp add: unat_word_ariths unat_of_nat)
  ultimately show "entry_addr b j mod UFS_BLOCK_SIZE = of_nat (32 * j)" by (simp only: word_unat_eq_iff)
qed

text \<open>The state after the removed entry and then the parent's inode have been written.\<close>

lemma unlink_image:
  assumes ok: "serv_ok st" "inum_ok st p" "blk_ok st b" "j < 128" "length de = 32" "length (idirect nd) = DIRECT_PTRS"
  defines "st1 \<equiv> fswrite st (entry_addr b j) de"
  shows "serv_ok st1" "inum_ok st1 p" "inode_at st1 p = inode_at st p"
    and "serv_ok (write_inode (st1\<lparr>mallocs := m, pos := q\<rparr>) p nd)"
    and "inode_at (write_inode (st1\<lparr>mallocs := m, pos := q\<rparr>) p nd) p = nd"
    and "entry_at (write_inode (st1\<lparr>mallocs := m, pos := q\<rparr>) p nd) b j = de"
proof -
  have lt: "unat p < unat (num_inodes (super st))" using ok(2) by (simp add: inum_ok_def)
  note r = serv_ok_regions [OF ok(1)] inode_fits [OF ok(1) lt] blk_ok_fits [OF ok(1,3)] unat_entry_addr [OF ok(1,3,4)]
  have len: "length (inode_bytes nd) = 128" using ok(6) by (simp add: DIRECT_PTRS_def)
  have st1: "st1 = st\<lparr>img := put_at (img st) (unat b * 4096 + 32 * j) de, pos := unat b * 4096 + 32 * j + 32\<rparr>"
    using r ok(5) by (simp add: st1_def fswrite_inside)
  have same: "get_at (img st1) off k = get_at (img st) off k" if "off + k \<le> dr_off (super st)" for off k
    using that r ok(5) by (simp add: st1 get_put_disjoint)
  show ok1: "serv_ok st1" using ok(1,5) r by (simp add: st1 serv_ok_def layout_ok_def)
  show "inum_ok st1 p" "inode_at st1 p = inode_at st p"
    using ok(2) same r by (simp_all add: inum_ok_def bitword_def inode_at_def st1 flip: word_off_def)
  let ?st2 = "st1\<lparr>mallocs := m, pos := q\<rparr>"
  have w: "write_inode ?st2 p nd = ?st2\<lparr>img := put_at (img st1) (ir_off (super st) + unat p * 128) (inode_bytes nd),
      pos := ir_off (super st) + unat p * 128 + 128\<rparr>"
    using write_inode_inside [of ?st2 p nd] ok1 lt ok(6) by (simp add: serv_ok_touch st1)
  show "serv_ok (write_inode ?st2 p nd)"
    using ok1 r len ok(5) unfolding w by (simp add: serv_ok_def layout_ok_def st1)
  have "get_at (put_at (img st1) (ir_off (super st) + unat p * 128) (inode_bytes nd)) (ir_off (super st) + unat p * 128) 128
      = inode_bytes nd"
    using r len ok(5) by (intro get_put_same) (simp_all add: st1)
  then show "inode_at (write_inode ?st2 p nd) p = nd"
    using inode_of_bytes' [OF ok(6)] unfolding w by (simp add: inode_at_def st1)
  show "entry_at (write_inode ?st2 p nd) b j = de"
    using r len ok(4,5) unfolding w by (simp add: entry_at_def st1 get_put_disjoint get_put_same)
qed

text \<open>A name that can be created, and a name that is there with inode number \<open>n\<close>.\<close>

definition can_creat :: "serv \<Rightarrow> u32 \<Rightarrow> byte list \<Rightarrow> bool" where
  "can_creat st p name \<longleftrightarrow> serv_ok st \<and> inum_ok st p \<and> unat p \<le> unat (highest_inode st) \<and>
     dir_room st (inode_at st p) \<and> length name < 28 \<and> 0 \<notin> set name \<and>
     Suc (unat (highest_inode st)) < unat (num_inodes (super st)) \<and>
     find_in_blocks st (dir_blocks (inode_at st p)) name = None"

definition has_name :: "serv \<Rightarrow> u32 \<Rightarrow> byte list \<Rightarrow> u32 \<Rightarrow> bool" where
  "has_name st p name n \<longleftrightarrow> serv_ok st \<and> inum_ok st p \<and> dir_ok st (inode_at st p) \<and> length name < 32 \<and>
     (\<exists>e a. find_in_blocks st (dir_blocks (inode_at st p)) name = Some (e, a) \<and> word_at e 28 = n)"

lemma has_name_lookup:
  assumes "has_name st p name n"
  shows "\<exists>st' e a. lookup_file st p name = Ok (Some (e, a), st') \<and> word_at e 28 = n"
proof -
  obtain e a where "find_in_blocks st (dir_blocks (inode_at st p)) name = Some (e, a)" "word_at e 28 = n"
    using assms by (auto simp: has_name_def)
  then show ?thesis
    using lookup_file_find [of st p name] assms by (auto simp: has_name_def)
qed

lemma creat_new:
  assumes "can_creat st p name"
  shows "\<exists>st'. creat_file st p UFS_REGULAR_FILE name = Ok (0, st') \<and>
    has_name st' p name (highest_inode st + 1)"
proof -
  have assms: "serv_ok st" "inum_ok st p" "unat p \<le> unat (highest_inode st)" "dir_room st (inode_at st p)"
    "length name < 28" "0 \<notin> set name" "Suc (unat (highest_inode st)) < unat (num_inodes (super st))"
    "find_in_blocks st (dir_blocks (inode_at st p)) name = None"
    using assms by (simp_all add: can_creat_def)
  let ?nd = "inode_at st p"
  define st0 where "st0 = st\<lparr>mallocs := mallocs st + 2, pos := ir_off (super st) + unat p * 128 + 128\<rparr>"
  note t0 = touch_facts [OF st0_def]
  have get: "get_inode st p = (?nd, st0)"
    using get_inode_inside [OF assms(1,2)] by (simp add: st0_def)
  have dir: "dir_ok st ?nd" using assms(4) by (simp add: dir_room_def)
  obtain q m where l: "lookup_file st0 p name = Ok (None, st0\<lparr>mallocs := m, pos := q\<rparr>)"
    using lookup_file_find [of st0 p name] assms dir by (auto simp: t0)
  define st1 where "st1 = st0\<lparr>mallocs := m, pos := q\<rparr>"
  note t1 = touch_facts [OF st1_def]
  obtain n st2 where new: "new_inode st1 UFS_REGULAR_FILE = (n, st2)" "inode_made st1 UFS_REGULAR_FILE n st2"
    using new_inode_made [of st1 UFS_REGULAR_FILE] assms(1,7) by (auto simp: t0 t1)
  have n: "unat n = Suc (unat (highest_inode st))" using new(2) by (simp add: inode_made_def t0 t1)
  then have "n = highest_inode st + 1"
    using assms(7) unat_bound [of "num_inodes (super st)"] by (intro word_unat_eq_iff [THEN iffD2]) (simp add: unat_succ)
  moreover have "unat (num_inodes (super st)) * 128 < 2 ^ 31"
    using assms(1) by (auto simp: serv_ok_def layout_ok_def end_off_def)
  then have n1: "n \<noteq> -1" using n assms(7) by (intro small_not_minus_1) simp
  have "p \<noteq> n" using n assms(3) by auto
  have m1: "serv_ok st1" "inum_ok st1 p" "dir_room st1 (inode_at st1 p)"
    "find_in_blocks st1 (dir_blocks (inode_at st1 p)) name = None"
    using assms by (simp_all add: t0 t1)
  note made = inode_made_dir [OF m1(1) new(2) m1(2) \<open>p \<noteq> n\<close> m1(3)]
  obtain st3 e a where add: "add_entry st2 p n name = Ok (0, st3)" "serv_ok st3" "inum_ok st3 p" "dir_ok st3 (inode_at st3 p)"
    "find_in_blocks st3 (dir_blocks (inode_at st3 p)) name = Some (e, a)" "word_at e 28 = n"
    using add_entry_ok [of st2 p name n] made m1 assms(5,6) n1 by auto
  have "creat_file st p UFS_REGULAR_FILE name = Ok (0, st3)"
    using get l new(1) n1 add(1) dir
    by (simp add: creat_file_def dir_ok_def flip: st1_def) (simp add: UFS_REGULAR_FILE_def UFS_DIRECTORY_def)
  then show ?thesis
    using add assms(5) \<open>n = highest_inode st + 1\<close> by (auto simp: has_name_def)
qed


lemma creat_existing_touch:
  assumes "has_name st p name n"
  shows "\<exists>m q. creat_file st p ty name = Ok (0, st\<lparr>mallocs := m, pos := q\<rparr>)"
proof -
  have ok: "serv_ok st" "inum_ok st p" "dir_ok st (inode_at st p)" "length name < 32"
    using assms by (simp_all add: has_name_def)
  define st0 where "st0 = st\<lparr>mallocs := mallocs st + 2, pos := ir_off (super st) + unat p * 128 + 128\<rparr>"
  note t0 = touch_facts [OF st0_def]
  have get: "get_inode st p = (inode_at st p, st0)"
    using get_inode_inside [OF ok(1,2)] by (simp add: st0_def)
  obtain r q m where "lookup_file st0 p name = Ok (Some r, st0\<lparr>mallocs := m, pos := q\<rparr>)"
    using lookup_file_find [of st0 p name] ok assms by (auto simp: t0 has_name_def)
  then show ?thesis
    using get ok(3) by (auto simp: creat_file_def dir_ok_def st0_def)
qed

text \<open>
  C27: creating a name that exists. The request is answered with 0 and the image does not change.
\<close>

theorem creat_existing:
  assumes "has_name st p name n"
  shows "\<exists>st'. creat_file st p ty name = Ok (0, st') \<and> img st' = img st \<and>
    highest_inode st' = highest_inode st \<and> hghst_alloc_dblk st' = hghst_alloc_dblk st"
  using creat_existing_touch [OF assms, of ty] by auto

text \<open>
  C28: what removing a name does to the parent directory. The entry, in slot \<open>j\<close> of block \<open>b\<close>, is
  cleared; but the loop over the parent's blocks assigns instead of comparing, so the parent's
  first block address becomes \<open>b\<close>, whichever block the entry was in, and the parent's size is cut
  to the offset of the removed entry in its block, although entries behind it may be live.
\<close>

theorem unlink_file_effect:
  assumes "serv_ok st" "inum_ok st p" "dir_ok st (inode_at st p)" "length name < 32"
    and "find_in_blocks st (dir_blocks (inode_at st p)) name = Some (e, a)"
    and "inum_ok st (word_at e 28)"
    and "\<not> (itype (inode_at st (word_at e 28)) = UFS_DIRECTORY \<and> 64 < isize (inode_at st (word_at e 28)))"
  shows "\<exists>st' b j. unlink_file st p name = Ok (0, st') \<and>
    b \<in> set (dir_blocks (inode_at st p)) \<and> j < 128 \<and> e = entry_at st b j \<and>
    entry_at st' b j = put_at (put_at e 0 [0]) 28 (le32 (-1)) \<and>
    inode_at st' p = (inode_at st p)\<lparr>idirect := (idirect (inode_at st p))[0 := b],
      isize := min (of_nat (32 * j)) (isize (inode_at st p))\<rparr>"
proof -
  let ?nd = "inode_at st p" and ?i = "word_at e 28"
  obtain b j where bj: "b \<in> set (dir_blocks ?nd)" "j < 128" "e = entry_at st b j" "a = entry_addr b j" "matches name e"
    using find_in_blocks_Some [OF assms(5)] by blast
  have blk: "blk_ok st b" using bj(1) assms(3) by (simp add: dir_ok_def)
  have len: "length (idirect ?nd) = DIRECT_PTRS" by (simp add: inode_at_def)
  note parts = entry_addr_parts [OF assms(1) blk bj(2)]
  have le: "length e = 32" using unat_entry_addr(2) [OF assms(1) blk bj(2)] by (simp add: bj(3) entry_at_def)
  let ?de = "put_at (put_at e 0 [0]) 28 (le32 (-1))"
  have "length ?de = 32" using le by simp
  obtain q m where l: "lookup_file st p name = Ok (Some (e, a), st\<lparr>mallocs := m, pos := q\<rparr>)"
    using lookup_file_find [OF assms(1-4)] assms(5) by auto
  define st1 where "st1 = st\<lparr>mallocs := m, pos := q\<rparr>"
  note t1 = touch_facts [OF st1_def]
  define st2 where "st2 = st1\<lparr>mallocs := mallocs st1 + 2, pos := ir_off (super st1) + unat ?i * 128 + 128\<rparr>"
  note t2 = touch_facts [OF st2_def]
  have get2: "get_inode st1 ?i = (inode_at st ?i, st2)"
    using get_inode_inside [of st1 ?i] assms(1,6) by (simp add: st2_def t1)
  define st3 where "st3 = fswrite st2 (entry_addr b j) ?de"
  note u = unlink_image [of st2 p b j ?de, folded st3_def]
  have u1: "serv_ok st3" "inum_ok st3 p" "inode_at st3 p = ?nd"
    using u(1-3) [of ?nd] assms(1,2) blk bj(2) \<open>length ?de = 32\<close> len by (simp_all add: t1 t2)
  define st4 where "st4 = st3\<lparr>mallocs := mallocs st3 + 2, pos := ir_off (super st3) + unat p * 128 + 128\<rparr>"
  have get3: "get_inode st3 p = (?nd, st4)"
    using get_inode_inside [OF u1(1,2)] u1(3) by (simp add: st4_def)
  have ne: "?i \<noteq> -1" using bj(5) by (simp add: matches_def)
  have "b \<noteq> 0" using blk_ok_fits(1) [OF assms(1) blk] serv_ok_regions [OF assms(1)] by auto
  moreover have "idirect ?nd ! 0 \<noteq> -1"
  proof -
    have "idirect ?nd ! 0 \<in> set (dir_blocks ?nd)"
      using bj(1) len by (cases "idirect ?nd"; cases "unat (mxb ?nd)") (auto simp: dir_blocks_def DIRECT_PTRS_def)
    then show ?thesis using assms(1,3) blk_ok_not_minus_1 by (auto simp: dir_ok_def)
  qed
  ultimately have loop: "unlink_loop 0 b (idirect ?nd) = Ok (0, (idirect ?nd)[0 := b])"
    using len by (simp add: unlink_loop.simps [of 0] DIRECT_PTRS_def)
  let ?nd' = "?nd\<lparr>isize := min (of_nat (32 * j)) (isize ?nd), idirect := (idirect ?nd)[0 := b]\<rparr>"
  have "unlink_file st p name = Ok (0, write_inode st4 p ?nd')"
    using l get2 assms(7) ne get3 loop parts
    by (simp add: unlink_file_def Let_def bj(4) min_def flip: st1_def st3_def)
  moreover have "inode_at (write_inode st4 p ?nd') p = ?nd'" "entry_at (write_inode st4 p ?nd') b j = ?de"
    using u(5,6) [of ?nd'] assms(1,2) blk bj(2) \<open>length ?de = 32\<close> len by (simp_all add: t1 t2 st4_def)
  ultimately show ?thesis
    using bj by (intro exI [of _ "write_inode st4 p ?nd'"] exI [of _ b] exI [of _ j]) simp
qed

end
