(* ===== verification/Ufs_Mkfs.thy ===== *)
theory Ufs_Mkfs
  imports Ufs_Dirs
begin

text \<open>
  \<^verbatim>\<open>mkfs\<close> writes a well-formed image: a server started on it has the layout the file operations
  rely on, and a root directory with exactly the names \<^verbatim>\<open>.\<close> and \<^verbatim>\<open>..\<close>. With this image the file
  operations' properties are instantiated.
\<close>

section \<open>The super block\<close>

definition ceil_div :: "nat \<Rightarrow> nat \<Rightarrow> nat" where
  "ceil_div n k = n div k + (if n mod k \<noteq> 0 then 1 else 0)"

lemma ceil_div_mult: "0 < k \<Longrightarrow> n \<le> ceil_div n k * k"
proof -
  assume "0 < k"
  then show ?thesis
    using dividend_less_div_times [of k n] div_mult_mod_eq [of n k]
    by (cases "n mod k = 0") (simp_all add: ceil_div_def)
qed

lemma ceil_div_le: "n \<le> m * k \<Longrightarrow> 0 < k \<Longrightarrow> ceil_div n k \<le> m"
proof -
  assume n: "n \<le> m * k" and k: "0 < k"
  show ?thesis
  proof (cases "n mod k = 0")
    case True
    then show ?thesis using div_le_mono [OF n, of k] k by (simp add: ceil_div_def)
  next
    case False
    then have "n \<noteq> m * k" by auto
    then have "n div k < m" using n by (simp add: less_mult_imp_div_less)
    then show ?thesis by (simp add: ceil_div_def)
  qed
qed

lemma unat_blocks_for:
  assumes "unat n < 2 ^ 31" "0 < k"
  shows "unat (blocks_for n (int k)) = ceil_div (unat n) k"
proof -
  have s: "sint n = int (unat n)" using assms(1) by (rule sint_eq_unat)
  have "cdiv (int m) (int k) + (if cmod (int m) (int k) \<noteq> 0 then 1 else 0) = int (ceil_div m k)" for m
    using assms(2) by (simp add: cdiv_nonneg cmod_nonneg ceil_div_def flip: zdiv_int zmod_int)
  then have "blocks_for n (int k) = of_nat (ceil_div (unat n) k)"
    unfolding blocks_for_def s by (simp only: of_int_of_nat_eq)
  moreover have "ceil_div (unat n) k \<le> unat n"
    using assms(2) by (intro ceil_div_le) auto
  ultimately show ?thesis
    using assms(1) by (simp add: unat_of_nat)
qed

lemma mkfs_super_fields:
  assumes "unat ni \<le> 2 ^ 18" "unat nd \<le> 2 ^ 18"
  defines "s \<equiv> mkfs_super ni nd"
  shows "unat (inode_bitmap_addr s) = 1" "unat (inode_bitmap_len s) = ceil_div (unat ni) 32768"
    "unat (data_bitmap_addr s) = 1 + ceil_div (unat ni) 32768"
    "unat (data_bitmap_len s) = ceil_div (unat nd) 32768"
    "unat (inode_region_addr s) = 1 + ceil_div (unat ni) 32768 + ceil_div (unat nd) 32768"
    "unat (inode_region_len s) = ceil_div (unat ni * 128) 4096"
    "unat (data_region_addr s) = 1 + ceil_div (unat ni) 32768 + ceil_div (unat nd) 32768 + ceil_div (unat ni * 128) 4096"
    "data_region_len s = nd" "num_inodes s = ni"
    "ceil_div (unat ni) 32768 \<le> 8" "ceil_div (unat nd) 32768 \<le> 8" "ceil_div (unat ni * 128) 4096 \<le> 2 ^ 13"
proof -
  show le: "ceil_div (unat ni) 32768 \<le> 8" "ceil_div (unat nd) 32768 \<le> 8" "ceil_div (unat ni * 128) 4096 \<le> 2 ^ 13"
    using assms(1,2) by (auto intro!: ceil_div_le)
  have m: "unat (ni * 128) = unat ni * 128" using assms(1) by (simp add: unat_word_ariths)
  have b: "unat (blocks_for ni 32768) = ceil_div (unat ni) 32768"
    "unat (blocks_for nd 32768) = ceil_div (unat nd) 32768"
    "unat (blocks_for (ni * 128) 4096) = ceil_div (unat ni * 128) 4096"
    using unat_blocks_for [of ni 32768] unat_blocks_for [of nd 32768] unat_blocks_for [of "ni * 128" 4096] assms(1,2) m
    by simp_all
  show "unat (inode_bitmap_addr s) = 1" "unat (inode_bitmap_len s) = ceil_div (unat ni) 32768"
    "unat (data_bitmap_len s) = ceil_div (unat nd) 32768" "unat (inode_region_len s) = ceil_div (unat ni * 128) 4096"
    "data_region_len s = nd" "num_inodes s = ni"
    using b by (simp_all add: s_def mkfs_super_def Let_def)
  show "unat (data_bitmap_addr s) = 1 + ceil_div (unat ni) 32768"
    "unat (inode_region_addr s) = 1 + ceil_div (unat ni) 32768 + ceil_div (unat nd) 32768"
    "unat (data_region_addr s) = 1 + ceil_div (unat ni) 32768 + ceil_div (unat nd) 32768 + ceil_div (unat ni * 128) 4096"
    using b le by (simp_all add: s_def mkfs_super_def Let_def unat_word_ariths)
qed

section \<open>The image\<close>

lemma file_write_zeros:
  assumes "length (s @ replicate m 0) \<le> p"
  shows "file_write (s @ replicate m 0) p (replicate 4096 0) = s @ replicate (p + 4096 - length s) 0"
proof -
  let ?n = "p + 4096 - length (s @ replicate m 0)"
  have "(s @ replicate m 0) @ replicate ?n 0 = s @ replicate (p + 4096 - length s) 0"
    using assms by (simp add: replicate_add [symmetric])
  then have "file_write (s @ replicate m 0) p (replicate 4096 0) =
      put_at (s @ replicate (p + 4096 - length s) 0) p (replicate 4096 0)"
    using assms by (simp add: file_write_def)
  also have "\<dots> = s @ replicate (p + 4096 - length s) 0"
    using assms by (simp add: put_at_def flip: replicate_add)
  finally show ?thesis .
qed

lemma zero_blocks_append: "zero_blocks (xs @ ys) im = andThen (zero_blocks xs im) (zero_blocks ys)"
  by (induction xs arbitrary: im) (auto simp: andThen_assoc intro!: andThen_cong)

lemma zero_blocks_image:
  assumes "length s \<le> 4096"
  shows "Suc k * 4096 < 2 ^ 31 \<Longrightarrow> \<exists>m. zero_blocks [1..<Suc k] s = Ok (s @ replicate m 0) \<and>
    length s + m \<le> Suc k * 4096 \<and> (0 < k \<longrightarrow> length s + m = Suc k * 4096)"
proof (induction k)
  case 0
  then show ?case using assms by (intro exI [of _ 0]) simp
next
  case (Suc k)
  then obtain m where m: "zero_blocks [1..<Suc k] s = Ok (s @ replicate m 0)" "length s + m \<le> Suc k * 4096"
    by auto
  have a: "unat (of_nat (Suc k) * UFS_BLOCK_SIZE :: u32) = Suc k * 4096"
    using Suc.prems by (simp add: UFS_BLOCK_SIZE_def unat_word_ariths unat_of_nat)
  have "\<not> sint (of_nat (Suc k) * UFS_BLOCK_SIZE :: u32) < 0"
    using Suc.prems by (intro sint_nonneg_word) (simp add: a del: of_nat_Suc)
  then have "pwrite_block (s @ replicate m 0) (of_nat (Suc k)) (replicate 4096 0) =
      Ok (s @ replicate (Suc k * 4096 + 4096 - length s) 0)"
    using m(2) a by (simp add: pwrite_block_def Let_def file_write_zeros del: of_nat_Suc)
  moreover have "[1..<Suc (Suc k)] = [1..<Suc k] @ [Suc k]" by simp
  ultimately have "zero_blocks [1..<Suc (Suc k)] s = Ok (s @ replicate (Suc k * 4096 + 4096 - length s) 0)"
    using m(1) by (simp only: zero_blocks_append andThen.simps zero_blocks.simps)
  then show ?case
    using assms by (intro exI [of _ "Suc k * 4096 + 4096 - length s"]) (simp del: of_nat_Suc upt_Suc)
qed

lemma pwrite_block_inside:
  assumes "unat blk * 4096 + length bs \<le> length im" "length im < 2 ^ 31" "bs \<noteq> []"
  shows "pwrite_block im blk bs = Ok (put_at im (unat blk * 4096) bs)"
proof -
  have a: "unat (blk * UFS_BLOCK_SIZE) = unat blk * 4096"
    using assms unat_block_addr [of blk 0] by simp
  then have "\<not> sint (blk * UFS_BLOCK_SIZE) < 0" using assms by (intro sint_nonneg_word) simp
  then show ?thesis using a assms by (simp add: pwrite_block_def file_write_def Let_def)
qed

section \<open>The root directory's block\<close>

definition set_free :: "byte list \<Rightarrow> nat list \<Rightarrow> byte list" where
  "set_free db is = fold (\<lambda>i db. put_at db (32 * i + 28) (le32 (-1))) is db"

lemma set_free:
  "length db = 4096 \<Longrightarrow> \<forall>i\<in>set is. i < 128 \<Longrightarrow>
   length (set_free db is) = 4096 \<and>
   (\<forall>off n. (\<forall>i\<in>set is. off + n \<le> 32 * i + 28 \<or> 32 * i + 32 \<le> off) \<longrightarrow> get_at (set_free db is) off n = get_at db off n) \<and>
   (\<forall>i\<in>set is. word_at (set_free db is) (32 * i + 28) = -1)"
proof (induction "is" rule: rev_induct)
  case (snoc k "is")
  have eq: "set_free db (is @ [k]) = put_at (set_free db is) (32 * k + 28) (le32 (-1))"
    by (simp add: set_free_def)
  have k: "k < 128" and IH: "length (set_free db is) = 4096"
    "\<And>off n. \<forall>i\<in>set is. off + n \<le> 32 * i + 28 \<or> 32 * i + 32 \<le> off \<Longrightarrow> get_at (set_free db is) off n = get_at db off n"
    "\<And>i. i \<in> set is \<Longrightarrow> word_at (set_free db is) (32 * i + 28) = -1"
    using snoc by auto
  have other: "get_at (set_free db (is @ [k])) off n = get_at (set_free db is) off n"
    if "off + n \<le> 32 * k + 28 \<or> 32 * k + 32 \<le> off" for off n
    using that k IH(1) by (auto simp: eq intro!: get_put_disjoint)
  have own: "word_at (set_free db (is @ [k])) (32 * k + 28) = -1"
    using k IH(1) by (simp add: eq word_at_def get_put_same)
  have "word_at (set_free db (is @ [k])) (32 * i + 28) = -1" if "i \<in> set is" "i \<noteq> k" for i
  proof -
    have "32 * i + 28 + 4 \<le> 32 * k + 28 \<or> 32 * k + 32 \<le> 32 * i + 28" using that(2) by arith
    then show ?thesis using other IH(3) [OF that(1)] by (simp add: word_at_def)
  qed
  moreover have "length (set_free db (is @ [k])) = 4096" using k IH(1) by (simp add: eq)
  ultimately show ?case using other own IH(2) by auto
qed (simp add: set_free_def)

lemma new_dir_block:
  assumes "length db = 4096"
  shows "length (new_dir_block db n p) = 4096"
    and "cstr (get_at (new_dir_block db n p) 0 32) = [46]" "word_at (new_dir_block db n p) 28 = n"
    and "cstr (get_at (new_dir_block db n p) 32 32) = [46, 46]" "word_at (new_dir_block db n p) 60 = p"
    and "2 \<le> j \<Longrightarrow> j < 128 \<Longrightarrow> word_at (new_dir_block db n p) (32 * j + 28) = -1"
proof -
  let ?d1 = "put_at db 0 [46, 0]"
  let ?d2 = "put_at ?d1 28 (le32 n)"
  let ?d3 = "put_at ?d2 32 [46, 46, 0]"
  let ?d = "put_at ?d3 60 (le32 p)"
  define js where "js = [2..<128::nat]"
  have js: "set js = {2..<128}" unfolding js_def by (rule set_upt)
  have eq: "new_dir_block db n p = set_free ?d js"
    by (simp only: new_dir_block_def set_free_def js_def Let_def)
  have len: "length ?d = 4096" using assms by simp
  note sf = set_free [OF len, of js, unfolded js]
  have free: "length (set_free ?d js) = 4096"
    "\<And>off n. off + n \<le> 92 \<Longrightarrow> get_at (set_free ?d js) off n = get_at ?d off n"
    "\<And>i. 2 \<le> i \<Longrightarrow> i < 128 \<Longrightarrow> word_at (set_free ?d js) (32 * i + 28) = -1"
    using sf by simp_all
  show "length (new_dir_block db n p) = 4096" using free(1) by (simp only: eq)
  show "2 \<le> j \<Longrightarrow> j < 128 \<Longrightarrow> word_at (new_dir_block db n p) (32 * j + 28) = -1" using free(3) by (simp only: eq)
  have w: "word_at (new_dir_block db n p) 28 = un_le32 (get_at ?d 28 4)"
    "word_at (new_dir_block db n p) 60 = un_le32 (get_at ?d 60 4)"
    using free(2) by (simp_all add: eq word_at_def)
  show "word_at (new_dir_block db n p) 28 = n" "word_at (new_dir_block db n p) 60 = p"
    using assms by (simp_all add: w get_put_disjoint get_put_same)
  have 1: "get_at (new_dir_block db n p) 0 2 = [46, 0]" "get_at (new_dir_block db n p) 32 3 = [46, 46, 0]"
    using free(2) assms by (simp_all add: eq get_put_disjoint get_put_same)
  have 2: "get_at xs off 32 = get_at xs off k @ get_at xs (off + k) (32 - k)" if "k \<le> 32" for xs :: "byte list" and off k
    using get_at_append [of xs off k "32 - k"] that by simp
  show "cstr (get_at (new_dir_block db n p) 0 32) = [46]" "cstr (get_at (new_dir_block db n p) 32 32) = [46, 46]"
    using 2 [of 2 "new_dir_block db n p" 0] 2 [of 3 "new_dir_block db n p" 32] 1 by (simp_all add: cstr_def)
qed

section \<open>The image as a whole\<close>

lemma length_first_bit_block: "length first_bit_block = 4096"
  by (simp add: first_bit_block_def)

lemma length_root_inode: "length (inode_bytes (root_inode s)) = 128"
  by (simp add: root_inode_def DIRECT_PTRS_def)

text \<open>The four blocks written after the zeroing, in an image \<open>im\<close> that starts with the super block.\<close>

lemma not_small_int: "32 \<le> unat (w :: u32) \<Longrightarrow> unat w \<le> 2 ^ 18 \<Longrightarrow> \<not> sint w < 32"
proof -
  assume w: "32 \<le> unat w" "unat w \<le> 2 ^ 18"
  have "sint w = int (unat w)" by (rule sint_eq_unat) (rule le_less_trans [OF w(2)], simp)
  then show ?thesis using w(1) by linarith
qed

lemma four_blocks:
  fixes s :: super_t
  assumes "1 * 4096 \<le> a1" "a1 + 4096 \<le> a2" "a2 + 4096 \<le> a3" "a3 + 4096 \<le> a4" "a4 + 4096 \<le> length im"
    and "length b1 = 4096" "length b2 = 4096" "length b3 = 4096" "length b4 = 4096"
  defines "im' \<equiv> put_at (put_at (put_at (put_at im a1 b1) a2 b2) a3 b3) a4 b4"
  shows "length im' = length im" "get_at im' 0 40 = get_at im 0 40"
    "get_at im' a1 4 = get_at b1 0 4" "get_at im' a3 128 = get_at b3 0 128" "get_at im' a4 4096 = b4"
proof -
  show "length im' = length im" "get_at im' 0 40 = get_at im 0 40" "get_at im' a4 4096 = b4"
    using assms(1-9) by (simp_all add: im'_def get_put_disjoint get_put_same)
  have "get_at im' a1 4 = get_at (put_at im a1 b1) a1 4"
    using assms(1-9) by (simp add: im'_def get_put_disjoint)
  then show "get_at im' a1 4 = get_at b1 0 4"
    using assms(1-9) get_put_inside [of a1 b1 im a1 4] by simp
  have "get_at im' a3 128 = get_at (put_at (put_at (put_at im a1 b1) a2 b2) a3 b3) a3 128"
    using assms(1-9) by (simp add: im'_def get_put_disjoint)
  then show "get_at im' a3 128 = get_at b3 0 128"
    using assms(1-9) get_put_inside [of a3 b3 "put_at (put_at im a1 b1) a2 b2" a3 128] by simp
qed

lemma mkfs_image:
  assumes n: "32 \<le> unat ni" "unat ni \<le> 2 ^ 18" "32 \<le> unat nd" "unat nd \<le> 2 ^ 18"
    and len: "length itable = 4096" "length parent = 4096"
  defines "s \<equiv> mkfs_super ni nd"
  shows "\<exists>im. mkfs itable parent ni nd = Ok im \<and> length im = end_off s \<and> get_at im 0 40 = super_bytes s \<and>
    get_at im (ib_off s) 4 = le32 (push_bit 31 1) \<and> get_at im (ir_off s) 128 = inode_bytes (root_inode s) \<and>
    get_at im (dr_off s) 4096 = new_dir_block parent 0 0"
proof -
  note f = mkfs_super_fields [OF n(2,4), folded s_def]
  have pos: "1 \<le> ceil_div (unat ni) 32768" "1 \<le> ceil_div (unat nd) 32768" "1 \<le> ceil_div (unat ni * 128) 4096"
    using ceil_div_mult [of 32768 "unat ni"] ceil_div_mult [of 32768 "unat nd"] ceil_div_mult [of 4096 "unat ni * 128"] n
    by (auto simp: Suc_le_eq intro!: gr0I)
  define total where "total = 1 + inode_bitmap_len s + data_bitmap_len s + inode_region_len s + data_region_len s"
  have t: "unat total = unat (data_region_addr s) + unat nd"
    using f n by (simp add: total_def unat_word_ariths)
  then have "unat total < 2 ^ 31" using f n by simp
  then have st: "nat (sint total) = unat total" by (simp only: sint_eq_unat nat_int)
  have tb: "unat total * 4096 = end_off s" using t by (simp add: end_off_def dr_off_def f(8) algebra_simps)
  have lt: "end_off s < 2 ^ 31" using f n by (simp add: end_off_def dr_off_def)
  have "1 < unat total" using t n by simp
  then obtain k where k: "unat total = Suc k" "0 < k" by (cases "unat total") auto
  obtain m where z: "zero_blocks [1..<Suc k] (super_bytes s) = Ok (super_bytes s @ replicate m 0)"
    "40 + m = Suc k * 4096"
    using zero_blocks_image [of "super_bytes s" k] k lt tb by auto
  define im0 where "im0 = super_bytes s @ replicate m (0::byte)"
  have l0: "length im0 = end_off s" using z(2) tb k by (simp add: im0_def)
  have offs: "1 * 4096 \<le> ib_off s" "ib_off s + 4096 \<le> db_off s" "db_off s + 4096 \<le> ir_off s"
    "ir_off s + 4096 \<le> dr_off s" "dr_off s + 4096 \<le> end_off s"
    using pos f n by (simp_all add: offs_def)
  let ?b3 = "put_at itable 0 (inode_bytes (root_inode s))" and ?b4 = "new_dir_block parent 0 0"
  have l: "length ?b3 = 4096" "length ?b4 = 4096"
    using len new_dir_block(1) by (simp_all add: root_inode_def DIRECT_PTRS_def)
  have le: "dr_off s + 4096 \<le> length im0" using offs(5) l0 by simp
  note four = four_blocks [OF offs(1-4) le length_first_bit_block length_first_bit_block l]
  have sup: "get_at im0 0 40 = super_bytes s" by (simp add: im0_def get_at_def)
  have bit: "get_at first_bit_block 0 4 = le32 (push_bit 31 1)" by (simp add: first_bit_block_def get_at_def)
  have ino: "get_at ?b3 0 128 = inode_bytes (root_inode s)"
    using len(1) length_root_inode [of s] by (intro get_put_same) (simp_all del: length_inode_bytes)
  define im where "im = put_at (put_at (put_at (put_at im0 (ib_off s) first_bit_block) (db_off s) first_bit_block)
    (ir_off s) ?b3) (dr_off s) ?b4"
  have big: "\<not> sint ni < 32" "\<not> sint nd < 32" by (rule not_small_int [OF n(1,2)], rule not_small_int [OF n(3,4)])
  have fw: "file_write [] 0 (super_bytes s) = super_bytes s"
    using length_super_bytes [of s] by (auto simp: file_write_def put_at_def)
  have w: "pwrite_block im1 blk bs = Ok (put_at im1 (unat blk * 4096) bs)"
    if "unat blk * 4096 + 4096 \<le> end_off s" "length im1 = end_off s" "length bs = 4096" for im1 blk bs
    using that lt by (intro pwrite_block_inside) auto
  have "mkfs itable parent ni nd = Ok im"
    using z(1) [folded im0_def] k(1) big fw offs l0 l length_first_bit_block unfolding mkfs_def Let_def s_def [symmetric] total_def [symmetric] st
    by (simp add: w im_def offs_def del: upt_Suc)
  then show ?thesis
    using trans [OF four(1) l0] trans [OF four(2) sup] trans [OF four(3) bit] trans [OF four(4) ino] four(5)
    unfolding im_def by blast
qed

section \<open>A server on a new image\<close>

lemma initialize_serv_image:
  assumes "get_at im 0 40 = super_bytes s"
  shows "initialize_serv g (Some im) = \<lparr> img = im, pos = 40, super = s, highest_inode = 0,
    hghst_alloc_dblk = 0, garbage = g, mallocs = 0 \<rparr>"
proof -
  have "40 \<le> length im" using arg_cong [OF assms, of length] by simp
  then show ?thesis
    using assms super_of_bytes [of s "[]"]
    by (simp add: initialize_serv_def fsread_def Let_def put_at_def)
qed

lemma mkfs_layout:
  assumes "32 \<le> unat ni" "unat ni \<le> 2 ^ 18" "32 \<le> unat nd" "unat nd \<le> 2 ^ 18" "length im = end_off (mkfs_super ni nd)"
  shows "layout_ok (mkfs_super ni nd) im"
proof -
  note f = mkfs_super_fields [OF assms(2,4)]
  have "unat ni \<le> ceil_div (unat ni) 32768 * 32768" "unat nd \<le> ceil_div (unat nd) 32768 * 32768"
    "unat ni * 128 \<le> ceil_div (unat ni * 128) 4096 * 4096"
    by (simp_all add: ceil_div_mult)
  moreover have "end_off (mkfs_super ni nd) < 2 ^ 31"
    using f assms(4) by (simp add: offs_def)
  ultimately show ?thesis
    using f assms(1,3,5) by (simp add: layout_ok_def offs_def)
qed

lemma mkfs_server:
  assumes n: "32 \<le> unat ni" "unat ni \<le> 2 ^ 18" "32 \<le> unat nd" "unat nd \<le> 2 ^ 18"
    and len: "length itable = 4096" "length parent = 4096"
  defines "s \<equiv> mkfs_super ni nd"
  shows "\<exists>im. mkfs itable parent ni nd = Ok im \<and> (\<exists>st. initialize_serv g (Some im) = st \<and>
    serv_ok st \<and> inum_ok st 0 \<and> inode_at st 0 = root_inode s \<and> super st = s \<and> highest_inode st = 0 \<and>
    hghst_alloc_dblk st = 0 \<and> get_at (img st) (dr_off s) 4096 = new_dir_block parent 0 0)"
proof -
  obtain im where im: "mkfs itable parent ni nd = Ok im" "length im = end_off s" "get_at im 0 40 = super_bytes s"
    "get_at im (ib_off s) 4 = le32 (push_bit 31 1)" "get_at im (ir_off s) 128 = inode_bytes (root_inode s)"
    "get_at im (dr_off s) 4096 = new_dir_block parent 0 0"
    using mkfs_image [OF n len] by (auto simp: s_def)
  let ?st = "initialize_serv g (Some im)"
  note st = initialize_serv_image [OF im(3), of g]
  have "serv_ok ?st"
    using mkfs_layout [OF n im(2) [unfolded s_def]] n mkfs_super_fields(8,9) [OF n(2,4)]
    by (simp add: st serv_ok_def s_def)
  moreover have "inum_ok ?st 0"
    using im(4) n mkfs_super_fields(9) [OF n(2,4)]
    by (simp add: st inum_ok_def bitword_def word_off_def s_def push_bit_eq_mult)
  moreover have "inode_at ?st 0 = root_inode s"
    using im(5) inode_of_bytes' [of "root_inode s"] by (simp add: st inode_at_def root_inode_def DIRECT_PTRS_def)
  ultimately show ?thesis
    using im(1,6) by (auto simp: st)
qed

lemma root_directory:
  assumes ok: "serv_ok st" "super st = s" "hghst_alloc_dblk st = 0" "1 < unat (data_region_len s)"
  shows "dir_room st (root_inode s)" and "dir_blocks (root_inode s) = [data_region_addr s]"
proof -
  have size: "unat (isize (root_inode s)) = 64" by (simp add: root_inode_def)
  then have mx: "unat (mxb (root_inode s)) = 1" by (subst unat_mxb) auto
  have blk: "blk_ok st (data_region_addr s)" using ok by (simp add: blk_ok_def)
  show blocks: "dir_blocks (root_inode s) = [data_region_addr s]"
    using mx by (simp add: dir_blocks_def root_inode_def)
  have "data_region_addr s \<noteq> -1" using blk_ok_not_minus_1 [OF ok(1) blk] .
  then show "dir_room st (root_inode s)"
    using ok size mx blk blocks
    by (simp add: dir_room_def dir_ok_def direct_ok_def) (simp add: root_inode_def DIRECT_PTRS_def)
qed

lemma root_entries:
  assumes blk: "get_at (img st) (dr_off s) 4096 = new_dir_block parent 0 0" and len: "length parent = 4096"
  shows "(\<exists>j<128. matches name (entry_at st (data_region_addr s) j)) \<longleftrightarrow> name = [46] \<or> name = [46, 46]"
    and "j < 128 \<Longrightarrow> matches name (entry_at st (data_region_addr s) j) \<Longrightarrow> word_at (entry_at st (data_region_addr s) j) 28 = 0"
proof -
  let ?B = "new_dir_block parent 0 0"
  note B = new_dir_block [OF len, where n = 0 and p = 0]
  have e: "entry_at st (data_region_addr s) j = get_at ?B (32 * j) 32" if "j < 128" for j
    using that blk [symmetric] by (simp add: entry_at_def dr_off_def get_at_get_at)
  have w: "word_at (get_at ?B (32 * j) 32) 28 = word_at ?B (32 * j + 28)" for j
    by (simp add: word_at_def get_at_get_at)
  have m: "matches name (entry_at st (data_region_addr s) j) \<longleftrightarrow> j = 0 \<and> name = [46] \<or> j = 1 \<and> name = [46, 46]"
    if j: "j < 128" for j
  proof -
    consider "j = 0" | "j = 1" | "2 \<le> j" by linarith
    then show ?thesis
      by cases (use B B(6) [where j = j] j w [of j] in \<open>auto simp: matches_def e\<close>)
  qed
  then show "(\<exists>j<128. matches name (entry_at st (data_region_addr s) j)) \<longleftrightarrow> name = [46] \<or> name = [46, 46]"
    by (auto intro: exI [of _ 0] exI [of _ 1])
  assume j: "j < 128" and "matches name (entry_at st (data_region_addr s) j)"
  then have "j = 0 \<or> j = 1" using m by blast
  then show "word_at (entry_at st (data_region_addr s) j) 28 = 0"
    using B w [of 0] w [of 1] by (auto simp: e)
qed

section \<open>Bits of the bitmaps\<close>

definition bit_ix :: "u32 \<Rightarrow> nat" where
  "bit_ix n = 31 - unat n mod 32"

lemma bit_of_iff: "bit_of st off n \<longleftrightarrow> bit (bitword st off n) (bit_ix n)"
  by (simp add: bit_of_def mask_def bit_ix_def bit_iff_and_push_bit_not_eq_0)

lemma bit_or_mask: "bit (w OR mask n) (bit_ix m) \<longleftrightarrow> bit w (bit_ix m) \<or> bit_ix m = bit_ix n"
  by (auto simp: bit_or_iff mask_def bit_exp_iff possible_bit_word bit_ix_def)

lemma same_bit: "word_off m = word_off n \<Longrightarrow> bit_ix m = bit_ix n \<Longrightarrow> m = n"
proof -
  assume "word_off m = word_off n" "bit_ix m = bit_ix n"
  then have "unat m div 32 = unat n div 32" "unat m mod 32 = unat n mod 32"
    using mod_less_divisor [of 32 "unat m"] mod_less_divisor [of 32 "unat n"]
    by (simp_all add: word_off_def bit_ix_def)
  then have "unat m = unat n" by (metis div_mult_mod_eq)
  then show "m = n" by (simp only: word_unat_eq_iff)
qed

section \<open>Properties\<close>



text \<open>
  C31: \<^verbatim>\<open>read_inode\<close> accepts numbers that are not allocated. If any inode whose bit is in the same bitmap
  word is allocated, the call returns 0 and fills the caller's buffer, whether or not the bit of
  the number asked for is set.
\<close>

theorem read_inode_accepts_neighbours:
  assumes "serv_ok st" "unat n < unat (num_inodes (super st))" "length buf = 128"
    and "unat m div 32 = unat n div 32" "bit_of st (ib_off (super st)) m"
  shows "\<exists>st'. read_inode st n buf = (0, get_at (img st) (ir_off (super st) + unat n * 128) 128, st')"
proof -
  have "bitword st (ib_off (super st)) n = bitword st (ib_off (super st)) m"
    using assms(4) by (simp add: bitword_def word_off_def)
  then have "bitword st (ib_off (super st)) n \<noteq> 0"
    using assms(5) by (auto simp: bit_of_def)
  then show ?thesis
    using read_inode_inside [OF assms(1-3)] by simp
qed

text \<open>
  C32: \<^verbatim>\<open>mkfs\<close> followed by a start of the server. The image is written, the server accepts requests on the
  root directory, and a lookup there finds inode 0 for \<^verbatim>\<open>.\<close> and \<^verbatim>\<open>..\<close> and nothing for any other name.
\<close>

theorem mkfs_then_lookup:
  assumes "32 \<le> unat ni" "unat ni \<le> 2 ^ 18" "32 \<le> unat nd" "unat nd \<le> 2 ^ 18"
    and "length itable = 4096" "length parent = 4096" "length name < 32"
  shows "\<exists>im r st'. mkfs itable parent ni nd = Ok im \<and>
    lookup_file (initialize_serv g (Some im)) 0 name = Ok (r, st') \<and>
    (case r of Some (e, a) \<Rightarrow> (name = [46] \<or> name = [46, 46]) \<and> word_at e 28 = 0
     | None \<Rightarrow> name \<noteq> [46] \<and> name \<noteq> [46, 46])"
proof -
  let ?s = "mkfs_super ni nd"
  obtain im st where im: "mkfs itable parent ni nd = Ok im" "initialize_serv g (Some im) = st"
    "serv_ok st" "inum_ok st 0" "inode_at st 0 = root_inode ?s" "super st = ?s" "hghst_alloc_dblk st = 0"
    "get_at (img st) (dr_off ?s) 4096 = new_dir_block parent 0 0"
    using mkfs_server [OF assms(1-6), of g] by blast
  note root = root_directory [OF im(3,6,7)] and ent = root_entries [OF im(8) assms(6)]
  have nd: "1 < unat (data_region_len ?s)" using assms(3) mkfs_super_fields(8) [OF assms(2,4)] by simp
  have dir: "dir_ok st (inode_at st 0)" using root(1) [OF nd] by (simp add: im(5) dir_room_def)
  obtain q m where l: "lookup_file st 0 name =
      Ok (find_in_blocks st [data_region_addr ?s] name, st\<lparr>mallocs := m, pos := q\<rparr>)"
    using lookup_file_find [OF im(3,4) dir assms(7)] root(2) [OF nd] by (auto simp: im(5))
  have "case find_in_blocks st [data_region_addr ?s] name of
      Some (e, a) \<Rightarrow> (name = [46] \<or> name = [46, 46]) \<and> word_at e 28 = 0
    | None \<Rightarrow> name \<noteq> [46] \<and> name \<noteq> [46, 46]"
  proof (cases "find_in_blocks st [data_region_addr ?s] name")
    case None
    then have "\<not> (\<exists>j<128. matches name (entry_at st (data_region_addr ?s) j))"
      unfolding find_in_blocks_None by simp
    then show ?thesis using None ent(1) [of name] by auto
  next
    case (Some r)
    then obtain e a where r: "r = (e, a)" by fastforce
    then obtain j where "j < 128" "e = entry_at st (data_region_addr ?s) j" "matches name e"
      using find_in_blocks_Some [of st "[data_region_addr ?s]" name e a] Some by auto
    then show ?thesis using Some r ent(1) [of name] ent(2) [of j name] by auto
  qed
  then show ?thesis using im(1,2) l by auto
qed

section \<open>The properties at a concrete image\<close>

text \<open>A server started on the image of \<^verbatim>\<open>mkfs -i 32 -d 32\<close>.\<close>

definition new_server :: serv where
  "new_server = initialize_serv (\<lambda>_ _. 7)
     (case mkfs (replicate 4096 0) (replicate 4096 0) 32 32 of Ok im \<Rightarrow> Some im | _ \<Rightarrow> None)"

lemma new_server:
  "serv_ok new_server" "inum_ok new_server 0" "inode_at new_server 0 = root_inode (mkfs_super 32 32)"
  "super new_server = mkfs_super 32 32" "highest_inode new_server = 0" "hghst_alloc_dblk new_server = 0"
  "get_at (img new_server) (dr_off (mkfs_super 32 32)) 4096 = new_dir_block (replicate 4096 0) 0 0"
proof -
  obtain im st where "mkfs (replicate 4096 0) (replicate 4096 0) 32 32 = Ok im"
    "initialize_serv (\<lambda>_ _. 7) (Some im) = st" "serv_ok st" "inum_ok st 0"
    "inode_at st 0 = root_inode (mkfs_super 32 32)" "super st = mkfs_super 32 32" "highest_inode st = 0"
    "hghst_alloc_dblk st = 0" "get_at (img st) (dr_off (mkfs_super 32 32)) 4096 = new_dir_block (replicate 4096 0) 0 0"
    using mkfs_server [of 32 32 "replicate 4096 0" "replicate 4096 0" "\<lambda>_ _. 7"] by auto
  then show "serv_ok new_server" "inum_ok new_server 0" "inode_at new_server 0 = root_inode (mkfs_super 32 32)"
    "super new_server = mkfs_super 32 32" "highest_inode new_server = 0" "hghst_alloc_dblk new_server = 0"
    "get_at (img new_server) (dr_off (mkfs_super 32 32)) 4096 = new_dir_block (replicate 4096 0) 0 0"
    by (simp_all add: new_server_def)
qed

lemma new_server_super: "unat (num_inodes (super new_server)) = 32" "unat (data_region_len (super new_server)) = 32"
  using mkfs_super_fields(8,9) [of 32 32] by (simp_all add: new_server)

lemma new_server_root:
  "dir_room new_server (inode_at new_server 0)"
  "dir_blocks (inode_at new_server 0) = [data_region_addr (mkfs_super 32 32)]"
  using root_directory [OF new_server(1,4,6)] new_server_super(2) by (simp_all add: new_server)

lemmas new_server_entries = root_entries [OF new_server(7) length_replicate]

lemma new_server_dot:
  "\<exists>e a. find_in_blocks new_server (dir_blocks (inode_at new_server 0)) [46] = Some (e, a) \<and> word_at e 28 = 0"
proof (cases "find_in_blocks new_server (dir_blocks (inode_at new_server 0)) [46]")
  case None
  then show ?thesis
    using new_server_entries(1) [of "[46]"] unfolding new_server_root(2) find_in_blocks_None by auto
next
  case (Some r)
  then obtain e a where r: "r = (e, a)" by fastforce
  then obtain j where "j < 128" "e = entry_at new_server (data_region_addr (mkfs_super 32 32)) j" "matches [46] e"
    using find_in_blocks_Some [OF Some [unfolded r]] unfolding new_server_root(2) by auto
  then have "word_at e 28 = 0" using new_server_entries(2) by simp
  then show ?thesis using Some r by simp
qed

theorem mkfs_then_lookup_witness:
  "\<exists>im e a st'. mkfs (replicate 4096 0) (replicate 4096 0) 32 40 = Ok im \<and>
     lookup_file (initialize_serv (\<lambda>_ _. 1) (Some im)) 0 [46] = Ok (Some (e, a), st') \<and> word_at e 28 = 0"
proof -
  obtain im r st' where "mkfs (replicate 4096 0) (replicate 4096 0) 32 40 = Ok im"
    "lookup_file (initialize_serv (\<lambda>_ _. 1) (Some im)) 0 [46] = Ok (r, st')"
    "case r of Some (e, a) \<Rightarrow> ([46] = [46::byte] \<or> [46] = [46::byte, 46]) \<and> word_at e 28 = 0
     | None \<Rightarrow> [46] \<noteq> [46::byte] \<and> [46] \<noteq> [46::byte, 46]"
    using mkfs_then_lookup [of 32 40 "replicate 4096 0" "replicate 4096 0" "[46]" "\<lambda>_ _. 1"] by auto
  then show ?thesis by (cases r) auto
qed


theorem creat_existing_witness:
  "\<exists>st'. creat_file new_server 0 UFS_DIRECTORY [46] = Ok (0, st') \<and> img st' = img new_server"
proof -
  have "has_name new_server 0 [46] 0"
    using new_server_dot new_server(1,2) new_server_root(1) by (simp add: has_name_def dir_room_def)
  then show ?thesis
    using creat_existing [of new_server 0 "[46]" 0 UFS_DIRECTORY] by auto
qed

theorem unlink_file_effect_witness:
  "\<exists>st' b j. unlink_file new_server 0 [46] = Ok (0, st') \<and>
     idirect (inode_at st' 0) = (idirect (inode_at new_server 0))[0 := b] \<and>
     isize (inode_at st' 0) = min (of_nat (32 * j)) 64"
proof -
  obtain e a where e: "find_in_blocks new_server (dir_blocks (inode_at new_server 0)) [46] = Some (e, a)"
    "word_at e 28 = 0"
    using new_server_dot by blast
  have "dir_ok new_server (inode_at new_server 0)" using new_server_root(1) by (simp add: dir_room_def)
  moreover have size: "isize (inode_at new_server 0) = 64" by (simp add: new_server(3) root_inode_def)
  ultimately obtain st' b j where st': "unlink_file new_server 0 [46] = Ok (0, st')"
    "inode_at st' 0 = (inode_at new_server 0)\<lparr>idirect := (idirect (inode_at new_server 0))[0 := b],
      isize := min (of_nat (32 * j)) 64\<rparr>"
    using unlink_file_effect [OF new_server(1,2) _ _ e(1)] e(2) new_server(2) by auto
  then show ?thesis
    by (intro exI [of _ st'] exI [of _ b] exI [of _ j]) simp
qed


theorem read_inode_accepts_neighbours_witness:
  "fst (read_inode new_server 5 (replicate 128 0)) = 0"
proof -
  have "bitword new_server (ib_off (super new_server)) 0 \<noteq> 0"
    using new_server(2) by (simp add: inum_ok_def)
  then obtain k where "bit (bitword new_server (ib_off (super new_server)) 0) k"
    by (auto simp: bit_eq_iff)
  then have k: "k < 32" "bit (bitword new_server (ib_off (super new_server)) 0) k"
    using bit_imp_le_length [of "bitword new_server (ib_off (super new_server)) 0" k] by auto
  define m :: u32 where "m = of_nat (31 - k)"
  have m: "unat m = 31 - k" by (simp add: m_def unat_of_nat)
  then have "bit_of new_server (ib_off (super new_server)) m"
    using k by (simp add: bit_of_iff bit_ix_def bitword_def word_off_def)
  then show ?thesis
    using read_inode_accepts_neighbours [OF new_server(1), of 5 "replicate 128 0" m] m new_server_super
    by auto
qed

theorem write_then_read_witness:
  "\<exists>st st' st''. write_file st 1 [104, 105] 0 2 UFS_REGULAR_FILE = Ok (0, st') \<and>
     read_file st' 1 [0, 0] 0 2 = Ok (0, [104, 105], st'')"
proof -
  obtain n st where "inode_made new_server UFS_REGULAR_FILE n st"
    using new_inode_made [OF new_server(1), of UFS_REGULAR_FILE] new_server_super by (auto simp: new_server(5))
  then have st: "serv_ok st" "inum_ok st n" "inode_at st n = empty_inode UFS_REGULAR_FILE" "unat n = 1"
    "super st = super new_server" "hghst_alloc_dblk st = 0"
    by (simp_all add: inode_made_def new_server(5,6))
  have n: "n = 1" using st(4) by (simp add: word_unat_eq_iff)
  have rem: "rem_of 0 = 0" "blk_of 0 = 0" by (simp_all add: rem_of_def blk_of_def)
  have dok: "direct_ok st (idirect (inode_at st 1))"
    using st(3) by (simp add: n direct_ok_def empty_inode_def)
  obtain st' where w: "write_file st 1 [104, 105] 0 2 UFS_REGULAR_FILE = Ok (0, st')"
    using write_file_succeeds [of st 1 0 2 "[104, 105]" UFS_REGULAR_FILE] st rem new_server_super
    by (auto simp: n empty_inode_def DIRECT_PTRS_def)
  obtain st'' where "read_file st' 1 [0, 0] 0 2 = Ok (0, put_at [0, 0] 0 (take (unat (2::u32)) [104, 105]), st'')"
    using write_then_read [of st 1 "[104, 105]" 0 2 st' "[0, 0]"] st dok w rem by (auto simp: n)
  then show ?thesis using w by (auto simp: put_at_def)
qed

end
