(* ===== verification/Ufs_Client.thy ===== *)
theory Ufs_Client
  imports Ufs_Mkfs
begin

text \<open>
  The client library \<^verbatim>\<open>mfs.c\<close>: each \<^verbatim>\<open>MFS_\<close> call builds a message, and \<^verbatim>\<open>Server_To_Client\<close> sends it again and
  again until a reply arrives. The network, with the server behind it, is a parameter \<open>net\<close>: a
  function that takes the message sent and the state of the outside world to what the client sees
  (nothing before the timeout, an unsuccessful read, or a reply) and the new state. A call that
  waits forever has the value \<open>None\<close>.

  At the end the library is put together with the server of theory \<open>Ufs\<close> over a network that loses
  requests and replies.
\<close>

section \<open>The library\<close>

record mfs_client =
  my_serv :: "string option"
  working :: bool
  prt :: int

datatype net_event = Timeout | Read_Failed | Got message_t

definition UDP_FillSockAddr :: "(string \<Rightarrow> bool) \<Rightarrow> string option \<Rightarrow> int" where
  "UDP_FillSockAddr gethostbyname hostname =
     (case hostname of None \<Rightarrow> 0 | Some h \<Rightarrow> if gethostbyname h then 0 else -1)"

text \<open>The loop of \<^verbatim>\<open>Server_To_Client\<close>. The variable \<^verbatim>\<open>timeout\<close> is counted down but never read.\<close>

partial_function (option) retry ::
  "('s \<Rightarrow> message_t \<Rightarrow> net_event \<times> 's) \<Rightarrow> message_t \<Rightarrow> 's \<Rightarrow> (message_t \<times> 's) option" where
  "retry net send s =
     (case net s send of (Got r, s') \<Rightarrow> Some (r, s') | (Timeout, s') \<Rightarrow> retry net send s'
      | (Read_Failed, s') \<Rightarrow> retry net send s')"

definition Server_To_Client ::
  "(string \<Rightarrow> bool) \<Rightarrow> ('s \<Rightarrow> message_t \<Rightarrow> net_event \<times> 's) \<Rightarrow> mfs_client \<Rightarrow> message_t \<Rightarrow> 's \<Rightarrow>
   (message_t option \<times> 's) option" where
  "Server_To_Client gethostbyname net c send s =
     (if UDP_FillSockAddr gethostbyname (my_serv c) < 0 then Some (None, s)
      else map_option (\<lambda>(r, s). (Some r, s)) (retry net send s))"

definition MFS_Init :: "mfs_client \<Rightarrow> string \<Rightarrow> int \<Rightarrow> int \<times> mfs_client" where
  "MFS_Init c hostname port = (0, c\<lparr>prt := port, working := True, my_serv := Some hostname\<rparr>)"

text \<open>
  \<^verbatim>\<open>strcpy(send.name, name)\<close>: a name of 28 characters, which the library lets through, puts its
  terminating zero into the field behind \<^verbatim>\<open>name\<close>.
\<close>

definition put_name :: "message_t \<Rightarrow> byte list \<Rightarrow> message_t" where
  "put_name m name =
     (let bs = put_at (m_name m @ le32 (m_offset m)) 0 (name @ [0])
      in m\<lparr>m_name := take 28 bs, m_offset := un_le32 (drop 28 bs)\<rparr>)"

text \<open>What the calls share: the test of \<^verbatim>\<open>working\<close>, the exchange, and the reply (\<open>None\<close>: return -1).\<close>

definition exchange ::
  "(string \<Rightarrow> bool) \<Rightarrow> ('s \<Rightarrow> message_t \<Rightarrow> net_event \<times> 's) \<Rightarrow> mfs_client \<Rightarrow> message_t \<Rightarrow> 's \<Rightarrow>
   (message_t option \<times> 's) option" where
  "exchange gethostbyname net c send s =
     (if \<not> working c then Some (None, s) else Server_To_Client gethostbyname net c send s)"

definition reply_code :: "(message_t option \<times> 's) option \<Rightarrow> (u32 \<times> 's) option" where
  "reply_code x = map_option (\<lambda>(r, s). (case r of None \<Rightarrow> -1 | Some m \<Rightarrow> m_node_num m, s)) x"

definition bad_name :: "byte list option \<Rightarrow> bool" where
  "bad_name name = (case name of None \<Rightarrow> True | Some nm \<Rightarrow> 28 < length nm)"

definition MFS_Lookup ::
  "(string \<Rightarrow> bool) \<Rightarrow> ('s \<Rightarrow> message_t \<Rightarrow> net_event \<times> 's) \<Rightarrow> mfs_client \<Rightarrow> message_t \<Rightarrow> u32 \<Rightarrow> byte list option \<Rightarrow> 's \<Rightarrow>
   (u32 \<times> 's) option" where
  "MFS_Lookup gethostbyname net c m0 pinum name s =
     (if bad_name name then Some (-1, s)
      else let send = (put_name (m0\<lparr>m_node_num := pinum\<rparr>) (the name))\<lparr>m_msg := op_code MFS_LOOKUP\<rparr>
           in reply_code (exchange gethostbyname net c send s))"

definition MFS_Stat ::
  "(string \<Rightarrow> bool) \<Rightarrow> ('s \<Rightarrow> message_t \<Rightarrow> net_event \<times> 's) \<Rightarrow> mfs_client \<Rightarrow> message_t \<Rightarrow> u32 \<Rightarrow> u32 \<times> u32 \<Rightarrow> 's \<Rightarrow>
   (u32 \<times> (u32 \<times> u32) \<times> 's) option" where
  "MFS_Stat gethostbyname net c m0 inum m s =
     map_option (\<lambda>(r, s). case r of None \<Rightarrow> (-1, m, s)
         | Some rx \<Rightarrow> if m_node_num rx = -1 then (-1, m, s) else (0, (m_st_type rx, m_st_size rx), s))
       (exchange gethostbyname net c (m0\<lparr>m_msg := op_code MFS_STAT, m_node_num := inum\<rparr>) s)"

definition MFS_Write ::
  "(string \<Rightarrow> bool) \<Rightarrow> ('s \<Rightarrow> message_t \<Rightarrow> net_event \<times> 's) \<Rightarrow> mfs_client \<Rightarrow> message_t \<Rightarrow> u32 \<Rightarrow> byte list \<Rightarrow> u32 \<Rightarrow> u32 \<Rightarrow> 's \<Rightarrow>
   (u32 \<times> 's) option outcome" where
  "MFS_Write gethostbyname net c m0 inum buffer offset nbytes s =
     (if sint offset < 0 \<or> 4096 < sint nbytes then Ok (Some (-1, s))
      else if length buffer < 4096 then Fault ''buffer''
      else Ok (reply_code (exchange gethostbyname net c
             (m0\<lparr>m_buf := take 4096 buffer, m_nbytes := nbytes, m_msg := op_code MFS_WRITE,
                m_offset := offset, m_node_num := inum\<rparr>) s)))"

definition MFS_Read ::
  "(string \<Rightarrow> bool) \<Rightarrow> ('s \<Rightarrow> message_t \<Rightarrow> net_event \<times> 's) \<Rightarrow> mfs_client \<Rightarrow> message_t \<Rightarrow> u32 \<Rightarrow> byte list \<Rightarrow> u32 \<Rightarrow> u32 \<Rightarrow> 's \<Rightarrow>
   (u32 \<times> byte list \<times> 's) option outcome" where
  "MFS_Read gethostbyname net c m0 inum buffer offset nbytes s =
     (if sint offset < 0 \<or> 4096 < sint nbytes then Ok (Some (-1, buffer, s))
      else case exchange gethostbyname net c
             (m0\<lparr>m_nbytes := nbytes, m_node_num := inum, m_msg := op_code MFS_READ, m_offset := offset\<rparr>) s of
        None \<Rightarrow> Ok None
      | Some (None, s) \<Rightarrow> Ok (Some (-1, buffer, s))
      | Some (Some rx, s) \<Rightarrow>
          if m_node_num rx = 0
          then if length buffer < nat (sint nbytes) then Fault ''buffer''
               else Ok (Some (0, put_at buffer 0 (take (nat (sint nbytes)) (m_buf rx)), s))
          else Ok (Some (m_node_num rx, buffer, s)))"

definition MFS_Creat ::
  "(string \<Rightarrow> bool) \<Rightarrow> ('s \<Rightarrow> message_t \<Rightarrow> net_event \<times> 's) \<Rightarrow> mfs_client \<Rightarrow> message_t \<Rightarrow> u32 \<Rightarrow> u32 \<Rightarrow> byte list option \<Rightarrow> 's \<Rightarrow>
   (u32 \<times> 's) option" where
  "MFS_Creat gethostbyname net c m0 pinum ty name s =
     (if bad_name name then Some (-1, s)
      else let send = put_name (m0\<lparr>m_mtype := ty, m_msg := op_code MFS_CREAT, m_node_num := pinum\<rparr>) (the name)
           in reply_code (exchange gethostbyname net c send s))"

definition MFS_Unlink ::
  "(string \<Rightarrow> bool) \<Rightarrow> ('s \<Rightarrow> message_t \<Rightarrow> net_event \<times> 's) \<Rightarrow> mfs_client \<Rightarrow> message_t \<Rightarrow> u32 \<Rightarrow> byte list option \<Rightarrow> 's \<Rightarrow>
   (u32 \<times> 's) option" where
  "MFS_Unlink gethostbyname net c m0 pinum name s =
     (if bad_name name then Some (-1, s)
      else let send = (put_name (m0\<lparr>m_msg := op_code MFS_UNLINK\<rparr>) (the name))\<lparr>m_node_num := pinum\<rparr>
           in reply_code (exchange gethostbyname net c send s))"

text \<open>\<^verbatim>\<open>MFS_Shutdown\<close> does not test \<^verbatim>\<open>working\<close>.\<close>

definition MFS_Shutdown ::
  "(string \<Rightarrow> bool) \<Rightarrow> ('s \<Rightarrow> message_t \<Rightarrow> net_event \<times> 's) \<Rightarrow> mfs_client \<Rightarrow> message_t \<Rightarrow> 's \<Rightarrow> (u32 \<times> 's) option" where
  "MFS_Shutdown gethostbyname net c m0 s =
     map_option (\<lambda>(r, s). (case r of None \<Rightarrow> -1 | Some _ \<Rightarrow> 0, s))
       (Server_To_Client gethostbyname net c (m0\<lparr>m_msg := op_code MFS_SHUTDOWN\<rparr>) s)"

section \<open>A network that loses packets\<close>

text \<open>
  The fate of each attempt: the request is lost, the server's reply is lost, or both arrive. The
  list gives the fates of the next attempts; behind its end nothing is lost. A request that makes
  the server fault is never answered.
\<close>

datatype fate = Request_Lost | Reply_Lost | Delivered

type_synonym world = "serv \<times> message_t \<times> fate list"

definition lossy :: "world \<Rightarrow> message_t \<Rightarrow> net_event \<times> world" where
  "lossy w pk =
     (case w of (st, rx, fates) \<Rightarrow>
        (case fates of
           Request_Lost # fs \<Rightarrow> (Timeout, st, rx, fs)
         | Reply_Lost # fs \<Rightarrow> (case handle st rx pk of Ok (rx, st) \<Rightarrow> (Timeout, st, rx, fs) | _ \<Rightarrow> (Timeout, st, rx, fs))
         | _ \<Rightarrow> (case handle st rx pk of Ok (rx, st) \<Rightarrow> (Got rx, st, rx, drop 1 fates) | _ \<Rightarrow> (Timeout, st, rx, []))))"

section \<open>Creating a file over the network\<close>

lemma msg_name_put_name:
  assumes "length (m_name m) = 28" "length name < 28" "0 \<notin> set name"
  shows "msg_name ((put_name m name)) = name"
proof -
  have "take 28 (put_at (m_name m @ le32 (m_offset m)) 0 (name @ [0])) = name @ 0 # drop (Suc (length name)) (m_name m)"
    using assms(1,2) by (simp add: put_at_def take_Cons')
  moreover have "takeWhile (\<lambda>b. b \<noteq> 0) (name @ 0 # zs) = name" for zs
    using assms(3) by (induction name) auto
  ultimately show ?thesis
    by (simp add: msg_name_def put_name_def cstr_def Let_def)
qed

lemma handle_creat:
  assumes "m_msg pk = op_code MFS_CREAT" "creat_file st (m_node_num pk) (m_mtype pk) (msg_name pk) = Ok (rc, st')"
  shows "handle st rx pk = Ok (feedback rx rc, st')"
  using assms by (simp add: handle_def op_code_def)

text \<open>One attempt of a creation, in a state where the name can be created or has been created as \<open>n\<close>.\<close>

definition creating :: "u32 \<Rightarrow> byte list \<Rightarrow> u32 \<Rightarrow> serv \<Rightarrow> bool" where
  "creating p name n st \<longleftrightarrow> can_creat st p name \<and> n = highest_inode st + 1 \<or> has_name st p name n"

lemma creating_step:
  assumes "creating p name n st" "m_msg pk = op_code MFS_CREAT" "m_node_num pk = p"
    "m_mtype pk = UFS_REGULAR_FILE" "msg_name pk = name"
  shows "\<exists>st'. handle st rx pk = Ok (feedback rx 0, st') \<and> has_name st' p name n"
proof (cases "has_name st p name n")
  case True
  then obtain m q where "creat_file st p UFS_REGULAR_FILE name = Ok (0, st\<lparr>mallocs := m, pos := q\<rparr>)"
    using creat_existing_touch by blast
  moreover have "has_name (st\<lparr>mallocs := m, pos := q\<rparr>) p name n"
    using True by (simp add: has_name_def touch_facts [OF refl])
  ultimately show ?thesis
    using handle_creat [of pk st 0 _ rx] assms by auto
next
  case False
  then have "can_creat st p name" "n = highest_inode st + 1"
    using assms(1) by (auto simp: creating_def)
  then show ?thesis
    using creat_new [of st p name] handle_creat [of pk st 0 _ rx] assms by auto
qed

lemma lossy_simps:
  "lossy (st, rx, Request_Lost # fs) pk = (Timeout, st, rx, fs)"
  "handle st rx pk = Ok (rx', st') \<Longrightarrow> lossy (st, rx, Reply_Lost # fs) pk = (Timeout, st', rx', fs)"
  "handle st rx pk = Ok (rx', st') \<Longrightarrow> lossy (st, rx, Delivered # fs) pk = (Got rx', st', rx', fs)"
  "handle st rx pk = Ok (rx', st') \<Longrightarrow> lossy (st, rx, []) pk = (Got rx', st', rx', [])"
  by (simp_all add: lossy_def)

lemma retry_creat:
  assumes "creating p name n st" "m_msg pk = op_code MFS_CREAT" "m_node_num pk = p"
    "m_mtype pk = UFS_REGULAR_FILE" "msg_name pk = name"
  shows "\<exists>st' rx' fs r. retry lossy pk (st, rx, fates) = Some (r, st', rx', fs) \<and> m_node_num r = 0 \<and> has_name st' p name n"
  using assms(1)
proof (induction fates arbitrary: st rx)
  case Nil
  then obtain st' where "handle st rx pk = Ok (feedback rx 0, st')" "has_name st' p name n"
    using creating_step assms by blast
  then show ?case
    by (subst retry.simps) (simp add: lossy_simps feedback_def)
next
  case (Cons f fs)
  obtain st' where st': "handle st rx pk = Ok (feedback rx 0, st')" "has_name st' p name n"
    using creating_step assms Cons.prems by blast
  then have "creating p name n st'" by (simp add: creating_def)
  show ?case
  proof (cases f)
    case Request_Lost
    then show ?thesis
      using Cons.IH [OF Cons.prems] by (subst retry.simps) (simp add: lossy_simps)
  next
    case Reply_Lost
    then show ?thesis
      using Cons.IH [OF \<open>creating p name n st'\<close>] st' by (subst retry.simps) (simp add: lossy_simps)
  next
    case Delivered
    then show ?thesis
      using st' by (subst retry.simps) (simp add: lossy_simps feedback_def)
  qed
qed


definition blank_message :: message_t where
  "blank_message = \<lparr> m_buf = replicate 4096 0, m_name = replicate 28 0, m_offset = 0, m_nbytes = 0,
     m_mtype = 0, m_node_num = 0, m_msg = 0, m_st_type = 0, m_st_size = 0 \<rparr>"


end
