(* ===== verification/Xv6_Pipe.thy ===== *)
theory Xv6_Pipe
  imports Prelude
begin

text \<open>
  The pipe of xv6 (\<^verbatim>\<open>src/xv6/base/pipe.c\<close>): a ring buffer with two 32-bit counters that run freely and
  wrap around. A call runs under the pipe's lock from where it is to its return or to the \<^verbatim>\<open>sleep\<close> in
  its loop, which gives the lock up; when the process is woken the call goes on from there. The
  result of such a run therefore says where the call stands (\<open>Returned\<close> or \<open>Asleep\<close>) and which
  channels were woken on the way.
\<close>

section \<open>The code\<close>

definition PIPESIZE :: nat where "PIPESIZE = 512"

record pipe =
  data :: "byte list"
  nread :: u32
  nwrite :: u32
  readopen :: bool
  writeopen :: bool

datatype chan = Nread | Nwrite

datatype call = Returned int | Asleep chan

definition pipe_init :: "byte list \<Rightarrow> pipe" where
  "pipe_init page = \<lparr> data = page, nread = 0, nwrite = 0, readopen = True, writeopen = True \<rparr>"

text \<open>\<open>pipeclose\<close> also says whether the pipe's page is freed.\<close>

definition pipeclose :: "pipe \<Rightarrow> bool \<Rightarrow> pipe \<times> chan list \<times> bool" where
  "pipeclose p writable =
     (let (p, woken) = (if writable then (p\<lparr>writeopen := False\<rparr>, [Nread]) else (p\<lparr>readopen := False\<rparr>, [Nwrite]))
      in (p, woken, \<not> readopen p \<and> \<not> writeopen p))"

definition put_byte :: "pipe \<Rightarrow> byte \<Rightarrow> pipe" where
  "put_byte p b = p\<lparr>data := (data p)[unat (nwrite p) mod PIPESIZE := b], nwrite := nwrite p + 1\<rparr>"

text \<open>
  \<open>pipewrite\<close> from index \<open>i\<close> of the caller's buffer on: the pipe, the index reached, the channels woken
  and where the call stands.
\<close>

function pipewrite :: "pipe \<Rightarrow> bool \<Rightarrow> byte list \<Rightarrow> nat \<Rightarrow> nat \<Rightarrow> pipe \<times> nat \<times> chan list \<times> call" where
  "pipewrite p killed addr i n =
     (if i < n
      then if nwrite p = nread p + of_nat PIPESIZE
           then if \<not> readopen p \<or> killed then (p, i, [], Returned (-1))
                else (p, i, [Nread], Asleep Nwrite)
           else pipewrite (put_byte p (addr ! i)) killed addr (Suc i) n
      else (p, i, [Nread], Returned (int n)))"
  by pat_completeness auto
termination
  by (relation "measure (\<lambda>(p, k, a, i, n). n - i)") auto

declare pipewrite.simps [simp del]

definition get_byte :: "pipe \<Rightarrow> byte \<times> pipe" where
  "get_byte p = (data p ! (unat (nread p) mod PIPESIZE), p\<lparr>nread := nread p + 1\<rparr>)"

fun read_loop :: "pipe \<Rightarrow> nat \<Rightarrow> pipe \<times> byte list" where
  "read_loop p 0 = (p, [])"
| "read_loop p (Suc n) =
     (if nread p = nwrite p then (p, [])
      else let (b, p) = get_byte p; (p, bs) = read_loop p n in (p, b # bs))"

definition piperead :: "pipe \<Rightarrow> bool \<Rightarrow> nat \<Rightarrow> pipe \<times> byte list \<times> chan list \<times> call" where
  "piperead p killed n =
     (if nread p = nwrite p \<and> writeopen p
      then if killed then (p, [], [], Returned (-1)) else (p, [], [], Asleep Nread)
      else let (p, bs) = read_loop p n in (p, bs, [Nwrite], Returned (int (length bs))))"

section \<open>The abstract queue\<close>

text \<open>
  What a bounded byte queue promises: putting an item in appends it while there is room, taking one
  out removes the front one.
\<close>

locale bounded_queue =
  fixes valid :: "'q \<Rightarrow> bool" and items :: "'q \<Rightarrow> 'a list" and cap :: nat
    and enq :: "'q \<Rightarrow> 'a \<Rightarrow> 'q" and deq :: "'q \<Rightarrow> 'a \<times> 'q"
  assumes enq_items: "valid q \<Longrightarrow> length (items q) < cap \<Longrightarrow> items (enq q x) = items q @ [x]"
    and enq_valid: "valid q \<Longrightarrow> length (items q) < cap \<Longrightarrow> valid (enq q x)"
    and deq_items: "valid q \<Longrightarrow> items q \<noteq> [] \<Longrightarrow> items q = fst (deq q) # items (snd (deq q))"
    and deq_valid: "valid q \<Longrightarrow> items q \<noteq> [] \<Longrightarrow> valid (snd (deq q))"
begin

lemma enq_all:
  "valid q \<Longrightarrow> length (items q) + length xs \<le> cap \<Longrightarrow>
   valid (foldl enq q xs) \<and> items (foldl enq q xs) = items q @ xs"
  by (induction xs arbitrary: q) (auto simp: enq_items enq_valid)

lemma deq_front: "valid q \<Longrightarrow> items q = x # xs \<Longrightarrow> fst (deq q) = x \<and> items (snd (deq q)) = xs \<and> valid (snd (deq q))"
  using deq_items [of q] deq_valid [of q] by auto

text \<open>First in, first out: after putting \<open>xs\<close> into an empty queue, the first item out is the first of \<open>xs\<close>.\<close>

lemma fifo: "valid q \<Longrightarrow> items q = [] \<Longrightarrow> length (x # xs) \<le> cap \<Longrightarrow>
  fst (deq (foldl enq q (x # xs))) = x \<and> items (snd (deq (foldl enq q (x # xs)))) = xs"
  using enq_all [of q "x # xs"] deq_front [of "foldl enq q (x # xs)" x xs] by simp

end

definition pipe_len :: "pipe \<Rightarrow> nat" where
  "pipe_len p = unat (nwrite p - nread p)"

definition pipe_ok :: "pipe \<Rightarrow> bool" where
  "pipe_ok p \<longleftrightarrow> length (data p) = PIPESIZE \<and> pipe_len p \<le> PIPESIZE"

definition contents :: "pipe \<Rightarrow> byte list" where
  "contents p = map (\<lambda>k. data p ! (unat (nread p + of_nat k) mod PIPESIZE)) [0..<pipe_len p]"

lemma length_contents [simp]: "length (contents p) = pipe_len p"
  by (simp add: contents_def)

lemma unat_add_mod: "unat (a + b :: u32) mod PIPESIZE = (unat a + unat b) mod PIPESIZE"
proof -
  have "(512::nat) dvd 4294967296" by (rule dvdI [of _ _ 8388608]) simp
  then show ?thesis by (simp add: unat_word_ariths PIPESIZE_def mod_mod_cancel)
qed

lemma full_iff: "nwrite p = nread p + of_nat PIPESIZE \<longleftrightarrow> pipe_len p = PIPESIZE"
proof -
  have "nwrite p = nread p + of_nat PIPESIZE \<longleftrightarrow> nwrite p - nread p = of_nat PIPESIZE"
    by (auto simp: algebra_simps)
  also have "\<dots> \<longleftrightarrow> unat (nwrite p - nread p) = unat (of_nat PIPESIZE :: u32)"
    by (simp only: word_unat_eq_iff)
  also have "unat (of_nat PIPESIZE :: u32) = PIPESIZE"
    by (simp add: PIPESIZE_def)
  finally show ?thesis by (simp add: pipe_len_def)
qed

lemma empty_iff: "nread p = nwrite p \<longleftrightarrow> pipe_len p = 0"
  by (auto simp: pipe_len_def unat_eq_0)

lemma pipe_len_put: "pipe_len p < PIPESIZE \<Longrightarrow> pipe_len (put_byte p b) = Suc (pipe_len p)"
proof -
  assume a: "pipe_len p < PIPESIZE"
  have eq: "nwrite (put_byte p b) - nread (put_byte p b) = (nwrite p - nread p) + 1"
    by (simp add: put_byte_def)
  show ?thesis
    using a unfolding pipe_len_def eq by (simp add: unat_word_ariths(1) PIPESIZE_def)
qed

lemma pipe_len_get: "0 < pipe_len p \<Longrightarrow> pipe_len (snd (get_byte p)) = pipe_len p - 1"
proof -
  assume a: "0 < pipe_len p"
  have eq: "nwrite (snd (get_byte p)) - nread (snd (get_byte p)) = (nwrite p - nread p) - 1"
    by (simp add: get_byte_def)
  have "nwrite p - nread p \<noteq> 0" using a by (auto simp: pipe_len_def)
  then show ?thesis
    unfolding pipe_len_def eq by (rule unat_minus_one)
qed

lemma ring_slots_differ:
  assumes "j < k" "k < j + PIPESIZE"
  shows "j mod PIPESIZE \<noteq> k mod PIPESIZE"
proof
  assume "j mod PIPESIZE = k mod PIPESIZE"
  then have "PIPESIZE dvd k - j" using assms by (metis mod_eq_dvd_iff_nat less_imp_le)
  then show False using assms by (auto dest: dvd_imp_le)
qed

text \<open>Writing appends to the queue, reading takes from its front.\<close>

lemma contents_put:
  assumes "pipe_ok p" "pipe_len p < PIPESIZE"
  shows "contents (put_byte p b) = contents p @ [b]" "pipe_ok (put_byte p b)"
proof -
  show "pipe_ok (put_byte p b)"
    using assms pipe_len_put [OF assms(2)] by (simp add: pipe_ok_def) (simp add: put_byte_def)
  let ?slot = "unat (nwrite p) mod PIPESIZE"
  have w: "unat (nwrite p) mod PIPESIZE = (unat (nread p) + pipe_len p) mod PIPESIZE"
    using unat_add_mod [of "nread p" "nwrite p - nread p"] by (simp add: pipe_len_def)
  have slot: "?slot < length (data p)" using assms(1) by (simp add: pipe_ok_def PIPESIZE_def)
  have ix: "unat (nread p + of_nat k) mod PIPESIZE = (unat (nread p) + k) mod PIPESIZE" if "k \<le> pipe_len p" for k
    using that assms(2) unat_add_mod [of "nread p" "of_nat k"] by (simp add: unat_of_nat PIPESIZE_def)
  have old: "(data p)[?slot := b] ! (unat (nread p + of_nat k) mod PIPESIZE) =
      data p ! (unat (nread p + of_nat k) mod PIPESIZE)" if "k < pipe_len p" for k
    using that ring_slots_differ [of "unat (nread p) + k" "unat (nread p) + pipe_len p"] assms(2) ix w by simp
  show "contents (put_byte p b) = contents p @ [b]"
    using pipe_len_put [OF assms(2)] old ix [of "pipe_len p"] w slot
    by (simp add: contents_def) (simp add: put_byte_def)
qed

lemma contents_get:
  assumes "pipe_ok p" "0 < pipe_len p"
  shows "contents p = fst (get_byte p) # contents (snd (get_byte p))" "pipe_ok (snd (get_byte p))"
proof -
  show "pipe_ok (snd (get_byte p))"
    using assms pipe_len_get [OF assms(2)] by (auto simp: pipe_ok_def) (simp add: get_byte_def)
  have "[0..<pipe_len p] = 0 # map Suc [0..<pipe_len p - 1]"
    using assms(2) by (simp add: upt_conv_Cons map_Suc_upt)
  then show "contents p = fst (get_byte p) # contents (snd (get_byte p))"
    unfolding contents_def pipe_len_get [OF assms(2)] by (simp add: get_byte_def add.assoc)
qed

lemma get_byte_flags [simp]:
  "readopen (snd (get_byte p)) = readopen p" "writeopen (snd (get_byte p)) = writeopen p"
  by (simp_all add: get_byte_def)

lemma put_byte_flags [simp]: "readopen (put_byte p b) = readopen p" "writeopen (put_byte p b) = writeopen p"
  by (simp_all add: put_byte_def)


interpretation pipeq: bounded_queue pipe_ok contents PIPESIZE put_byte get_byte
proof unfold_locales
  fix p :: pipe and b
  assume "pipe_ok p" "length (contents p) < PIPESIZE"
  then show "contents (put_byte p b) = contents p @ [b]" "pipe_ok (put_byte p b)"
    using contents_put by simp_all
next
  fix p :: pipe
  assume "pipe_ok p" "contents p \<noteq> []"
  then show "contents p = fst (get_byte p) # contents (snd (get_byte p))" "pipe_ok (snd (get_byte p))"
    using contents_get [of p] by (auto simp: length_0_conv [symmetric] simp del: length_0_conv)
qed

section \<open>What a run of each call does\<close>

lemma put_byte_all_flags [simp]:
  "readopen (foldl put_byte p bs) = readopen p" "writeopen (foldl put_byte p bs) = writeopen p"
  by (induction bs arbitrary: p) simp_all

text \<open>A run of \<^verbatim>\<open>pipewrite\<close> puts in as many bytes as there is room for.\<close>

lemma pipewrite_run:
  "pipe_ok p \<Longrightarrow> i \<le> n \<Longrightarrow> n \<le> length addr \<Longrightarrow>
   pipewrite p killed addr i n =
     (let room = PIPESIZE - pipe_len p; j = min n (i + room); p' = foldl put_byte p (get_at addr i (j - i))
      in if j = n then (p', n, [Nread], Returned (int n))
         else if \<not> readopen p \<or> killed then (p', j, [], Returned (-1))
         else (p', j, [Nread], Asleep Nwrite))"
proof (induction p killed addr i n rule: pipewrite.induct)
  case (1 p killed addr i n)
  consider (out) "i = n" | (full) "i < n" "pipe_len p = PIPESIZE" | (room) "i < n" "pipe_len p < PIPESIZE"
    using 1(2,3) by (fastforce simp: pipe_ok_def)
  then show ?case
  proof cases
    case out
    then show ?thesis by (simp add: pipewrite.simps [of p])
  next
    case full
    then show ?thesis by (simp add: pipewrite.simps [of p] full_iff)
  next
    case room
    let ?p = "put_byte p (addr ! i)"
    have len: "pipe_len ?p = Suc (pipe_len p)" using room(2) by (rule pipe_len_put)
    have step: "pipewrite p killed addr i n = pipewrite ?p killed addr (Suc i) n"
      using room by (simp add: pipewrite.simps [of p] full_iff)
    have ok: "pipe_ok ?p" using contents_put(2) [OF 1(2) room(2)] .
    have IH: "pipewrite ?p killed addr (Suc i) n =
      (let room = PIPESIZE - pipe_len ?p; j = min n (Suc i + room); p' = foldl put_byte ?p (get_at addr (Suc i) (j - Suc i))
       in if j = n then (p', n, [Nread], Returned (int n))
          else if \<not> readopen ?p \<or> killed then (p', j, [], Returned (-1))
          else (p', j, [Nread], Asleep Nwrite))"
      using 1(1) [OF room(1) _ ok] 1(4) room by (simp add: full_iff)
    let ?j = "min n (i + (PIPESIZE - pipe_len p))"
    have j: "min n (Suc i + (PIPESIZE - pipe_len ?p)) = ?j" "Suc i \<le> ?j"
      using room len by auto
    have ga: "get_at addr i (?j - i) = addr ! i # get_at addr (Suc i) (?j - Suc i)"
      using get_at_Cons [of i addr "?j - Suc i"] j(2) 1(4) room(1) by (simp add: Suc_diff_Suc)
    show ?thesis
      unfolding step IH Let_def j(1) ga foldl_Cons put_byte_flags by (rule refl)
  qed
qed

lemma read_loop_run:
  "pipe_ok p \<Longrightarrow> pipe_ok (fst (read_loop p n)) \<and> contents p = snd (read_loop p n) @ contents (fst (read_loop p n)) \<and>
   length (snd (read_loop p n)) = min n (pipe_len p) \<and>
   readopen (fst (read_loop p n)) = readopen p \<and> writeopen (fst (read_loop p n)) = writeopen p"
proof (induction n arbitrary: p)
  case (Suc n)
  show ?case
  proof (cases "nread p = nwrite p")
    case True
    then show ?thesis using Suc.prems by (simp add: empty_iff)
  next
    case False
    then have pos: "0 < pipe_len p" by (simp add: empty_iff)
    note g = contents_get [OF Suc.prems pos]
    show ?thesis
      using False Suc.IH [OF g(2)] g(1) pos pipe_len_get [OF pos] by (auto simp: split_beta Let_def)
  qed
qed simp

section \<open>Properties\<close>

text \<open>
  Readers and writers in any order. A state is the pipe with the bytes written to it and the bytes
  read from it so far; a step is one run of a call, or a close.
\<close>

inductive pipe_step :: "pipe \<times> byte list \<times> byte list \<Rightarrow> pipe \<times> byte list \<times> byte list \<Rightarrow> bool" where
  write_run: "\<lbrakk>writeopen p; i \<le> n; n \<le> length addr; pipewrite p killed addr i n = (p', j, woken, c)\<rbrakk> \<Longrightarrow>
    pipe_step (p, W, R) (p', W @ get_at addr i (j - i), R)"
| read_run: "\<lbrakk>readopen p; piperead p killed n = (p', bs, woken, c)\<rbrakk> \<Longrightarrow>
    pipe_step (p, W, R) (p', W, R @ bs)"
| close_end: "pipeclose p writable = (p', woken, freed) \<Longrightarrow> pipe_step (p, W, R) (p', W, R)"

inductive_cases pipe_stepE: "pipe_step (p, W, R) s'"

lemma foldl_put_byte_contents:
  assumes "pipe_ok p" "pipe_len p + length bs \<le> PIPESIZE"
  shows "pipe_ok (foldl put_byte p bs)" "contents (foldl put_byte p bs) = contents p @ bs"
  using pipeq.enq_all [of p bs] assms by simp_all

lemma write_run_queue:
  assumes "pipe_ok p" "i \<le> n" "n \<le> length addr" "pipewrite p killed addr i n = (p', j, woken, c)"
  shows "pipe_ok p' \<and> contents p' = contents p @ get_at addr i (j - i)"
proof -
  let ?j = "min n (i + (PIPESIZE - pipe_len p))"
  have *: "j = ?j" "p' = foldl put_byte p (get_at addr i (?j - i))"
    using assms(4) unfolding pipewrite_run [OF assms(1-3)] by (auto simp: Let_def split: if_splits)
  have le: "pipe_len p + length (get_at addr i (?j - i)) \<le> PIPESIZE"
    using assms(1) by (auto simp: pipe_ok_def)
  show ?thesis
    unfolding * using foldl_put_byte_contents [OF assms(1) le] by blast
qed

lemma read_run_queue:
  assumes "pipe_ok p" "piperead p killed n = (p', bs, woken, c)"
  shows "pipe_ok p' \<and> contents p = bs @ contents p'"
  using assms read_loop_run [OF assms(1), of n] by (auto simp: piperead_def split_beta Let_def split: if_splits)

lemma pipe_step_queue:
  assumes "pipe_step (p, W, R) (p', W', R')" "pipe_ok p" "W = R @ contents p"
  shows "pipe_ok p' \<and> W' = R' @ contents p'"
  using assms(1)
proof (rule pipe_stepE)
  fix i n addr killed q j woken c
  assume "(p', W', R') = (q, W @ get_at addr i (j - i), R)" "i \<le> n" "n \<le> length addr"
    "pipewrite p killed addr i n = (q, j, woken, c)"
  then show ?thesis using write_run_queue [OF assms(2)] assms(3) by fastforce
next
  fix killed n q bs woken c
  assume "(p', W', R') = (q, W, R @ bs)" "piperead p killed n = (q, bs, woken, c)"
  then show ?thesis using read_run_queue [OF assms(2)] assms(3) by fastforce
next
  fix writable q woken freed
  assume "(p', W', R') = (q, W, R)" "pipeclose p writable = (q, woken, freed)"
  then have "p' = p\<lparr>writeopen := False\<rparr> \<or> p' = p\<lparr>readopen := False\<rparr>" "W' = W" "R' = R"
    by (auto simp: pipeclose_def split: if_splits)
  then show ?thesis
    using assms(2,3) by (auto simp: pipe_ok_def pipe_len_def contents_def)
qed

text \<open>
  C11: a pipe is a first-in first-out channel. However runs of writes, reads and closes follow one
  another, and however often the counters wrap around, the bytes written so far are the bytes read
  so far followed by what is in the buffer, and the buffer never holds more than \<^verbatim>\<open>PIPESIZE\<close> bytes.
\<close>

theorem pipe_fifo:
  assumes "pipe_step\<^sup>*\<^sup>* (pipe_init page, [], []) (p, W, R)" "length page = PIPESIZE"
  shows "W = R @ contents p \<and> length (contents p) \<le> PIPESIZE"
proof -
  have "pipe_ok p \<and> W = R @ contents p"
    using assms(1)
  proof (induction "(p, W, R)" arbitrary: p W R rule: rtranclp_induct)
    case base
    then show ?case using assms(2) by (simp add: pipe_init_def pipe_ok_def pipe_len_def contents_def)
  next
    case (step s)
    obtain q W' R' where s: "s = (q, W', R')" by (cases s)
    then have "pipe_ok q \<and> W' = R' @ contents q" by (rule step.hyps(3))
    then show ?case using step.hyps(2) pipe_step_queue [of q W' R' p W R] s by blast
  qed
  then show ?thesis by (simp add: pipe_ok_def)
qed

theorem pipe_fifo_witness:
  "\<exists>p. pipe_step\<^sup>*\<^sup>* (pipe_init (replicate 512 0), [], []) (p, [7, 8], [7]) \<and> [7, 8] = [7] @ contents p"
proof -
  let ?p0 = "pipe_init (replicate 512 0)"
  have ok: "pipe_ok ?p0" by (simp add: pipe_init_def pipe_ok_def pipe_len_def PIPESIZE_def)
  have "writeopen ?p0" "pipe_len ?p0 = 0" by (simp_all add: pipe_init_def pipe_len_def)
  then have "pipe_step (?p0, [], []) (foldl put_byte ?p0 [7, 8], [7, 8], [])"
    using pipe_step.write_run [of ?p0 0 2 "[7, 8]" False "foldl put_byte ?p0 [7, 8]" 2 "[Nread]" "Returned 2" "[]" "[]"]
      pipewrite_run [OF ok, of 0 2 "[7, 8]" False]
    by (simp add: PIPESIZE_def get_at_def numeral_2_eq_2)
  moreover define p1 where "p1 = foldl put_byte ?p0 [7, 8]"
  have p1: "pipe_ok p1" "contents p1 = [7, 8]" "readopen p1"
    using foldl_put_byte_contents [OF ok, of "[7, 8]"] \<open>pipe_len ?p0 = 0\<close> unfolding p1_def
    by (simp_all add: PIPESIZE_def contents_def pipe_init_def)
  obtain p2 bs woken c where r: "piperead p1 False 1 = (p2, bs, woken, c)" by (metis prod_cases4)
  have "\<not> (nread p1 = nwrite p1)" using p1(2) length_contents [of p1] by (simp add: empty_iff)
  then have "length bs = 1"
    using r read_loop_run [OF p1(1), of 1] length_contents [of p1] p1(2)
    by (auto simp: piperead_def split_beta Let_def)
  then have "bs = [7]"
    using read_run_queue [OF p1(1) r] p1(2) by (cases bs) auto
  then have "pipe_step (p1, [7, 8], []) (p2, [7, 8], [7])"
    using pipe_step.read_run [OF p1(3) r, of "[7, 8]" "[]"] by simp
  ultimately have "pipe_step\<^sup>*\<^sup>* (?p0, [], []) (p2, [7, 8], [7])"
    by (simp add: p1_def)
  then show ?thesis
    using pipe_fifo [of "replicate 512 0" p2 "[7, 8]" "[7]"] by (auto simp: PIPESIZE_def)
qed

text \<open>
  C33: end of file and blocking. A read of a positive number of bytes delivers all of the smaller of
  the number asked for and the number buffered; it returns 0 only when the buffer is empty and the
  write end is closed; it sleeps only when the buffer is empty and the write end is open.
\<close>

theorem piperead_result:
  assumes "pipe_ok p" "piperead p killed n = (p', bs, woken, c)" "0 < n"
  shows "(c = Returned 0 \<longleftrightarrow> contents p = [] \<and> \<not> writeopen p) \<and>
    (c = Asleep Nread \<longleftrightarrow> contents p = [] \<and> writeopen p \<and> \<not> killed) \<and>
    (c = Returned (-1) \<longleftrightarrow> contents p = [] \<and> writeopen p \<and> killed) \<and>
    bs = take n (contents p)"
proof -
  have e: "contents p = [] \<longleftrightarrow> nread p = nwrite p"
    by (simp add: empty_iff length_0_conv [symmetric] del: length_0_conv)
  note r = read_loop_run [OF assms(1), of n]
  show ?thesis
  proof (cases "nread p = nwrite p \<and> writeopen p")
    case True
    then show ?thesis using assms(2) e by (auto simp: piperead_def split: if_splits)
  next
    case False
    then have *: "bs = snd (read_loop p n)" "c = Returned (int (length bs))"
      using assms(2) by (auto simp: piperead_def split_beta Let_def split: if_splits)
    have "take (min n (pipe_len p)) (contents p) = bs"
      using r * by (metis append_eq_conv_conj)
    moreover have "take (min n (pipe_len p)) (contents p) = take n (contents p)"
      by (metis length_contents min.commute take_all_iff take_take order_refl)
    ultimately have "bs = take n (contents p)" by simp
    then show ?thesis
      using * e False assms(3) r by (auto simp: empty_iff)
  qed
qed

theorem piperead_result_witness:
  "snd (snd (snd (piperead \<lparr> data = replicate 512 0, nread = 5, nwrite = 5, readopen = True, writeopen = False \<rparr> False 3)))
     = Returned 0"
proof -
  let ?p = "\<lparr> data = replicate 512 0, nread = 5, nwrite = 5, readopen = True, writeopen = False \<rparr> :: pipe"
  obtain p' bs woken c where r: "piperead ?p False 3 = (p', bs, woken, c)" by (metis prod_cases4)
  have "pipe_ok ?p" by (simp add: pipe_ok_def pipe_len_def PIPESIZE_def)
  then show ?thesis
    using piperead_result [OF _ r] r by (simp add: contents_def pipe_len_def)
qed

text \<open>
  C34: a writer that has been killed and cannot fit all its bytes returns -1 with the pipe filled up
  but without waking the readers that sleep on the empty pipe.
\<close>

theorem pipewrite_killed_no_wakeup:
  assumes "pipe_ok p" "pipe_len p < PIPESIZE" "i + (PIPESIZE - pipe_len p) < n" "n \<le> length addr"
  shows "\<exists>p'. pipewrite p True addr i n = (p', i + (PIPESIZE - pipe_len p), [], Returned (-1)) \<and>
    length (contents p') = PIPESIZE"
proof -
  let ?bs = "get_at addr i (PIPESIZE - pipe_len p)"
  have len: "pipe_len p + length ?bs = PIPESIZE" using assms by (simp add: pipe_ok_def)
  then have "contents (foldl put_byte p ?bs) = contents p @ ?bs"
    using foldl_put_byte_contents [OF assms(1), of ?bs] by simp
  then have "length (contents (foldl put_byte p ?bs)) = PIPESIZE"
    using len by (simp only: length_append length_contents)
  moreover have "pipewrite p True addr i n = (foldl put_byte p ?bs, i + (PIPESIZE - pipe_len p), [], Returned (-1))"
    using assms pipewrite_run [OF assms(1), of i n addr True] by (simp add: Let_def)
  ultimately show ?thesis by blast
qed

theorem pipewrite_killed_no_wakeup_witness:
  "\<exists>p'. pipewrite (pipe_init (replicate 512 0)) True (replicate 600 1) 0 600 = (p', 512, [], Returned (-1))"
proof -
  have "pipe_ok (pipe_init (replicate 512 0))" "pipe_len (pipe_init (replicate 512 0)) = 0"
    by (simp_all add: pipe_init_def pipe_ok_def pipe_len_def PIPESIZE_def)
  then show ?thesis
    using pipewrite_killed_no_wakeup [of "pipe_init (replicate 512 0)" 0 600 "replicate 600 1"]
    by (auto simp: PIPESIZE_def)
qed

end
