(* ===== verification/Xv6_Kalloc.thy ===== *)
theory Xv6_Kalloc
  imports Prelude
begin

text \<open>
  The page allocator of xv6 (\<^verbatim>\<open>src/xv6/base/kalloc.c\<close>). Memory is a function from 32-bit addresses to bytes;
  the free list is threaded through the first word of each free page, as in the code. The
  spinlock of the allocator only orders calls and is left out. The address \<^verbatim>\<open>end\<close> comes from the
  linker script and is a parameter.
\<close>

section \<open>Memory\<close>

type_synonym memory = "u32 \<Rightarrow> byte"

definition load32 :: "memory \<Rightarrow> u32 \<Rightarrow> u32" where
  "load32 m a = un_le32 [m a, m (a + 1), m (a + 2), m (a + 3)]"

definition store32 :: "memory \<Rightarrow> u32 \<Rightarrow> u32 \<Rightarrow> memory" where
  "store32 m a w = (\<lambda>b. if unat (b - a) < 4 then le32 w ! unat (b - a) else m b)"

definition fill :: "memory \<Rightarrow> u32 \<Rightarrow> byte \<Rightarrow> nat \<Rightarrow> memory" where
  "fill m a c n = (\<lambda>b. if unat (b - a) < n then c else m b)"

lemma load_store32 [simp]: "load32 (store32 m a w) a = w"
proof -
  let ?m = "store32 m a w"
  have "[?m a, ?m (a + 1), ?m (a + 2), ?m (a + 3)] = le32 w"
    by (simp add: store32_def le32_def)
  then show ?thesis by (simp only: load32_def un_le32_le32')
qed

section \<open>The code\<close>

definition PGSIZE :: u32 where "PGSIZE = 4096"

definition KERNBASE :: u32 where "KERNBASE = 0x80000000"

definition PHYSTOP :: u32 where "PHYSTOP = 0xE000000"

definition PGROUNDUP :: "u32 \<Rightarrow> u32" where
  "PGROUNDUP sz = (sz + PGSIZE - 1) AND NOT (PGSIZE - 1)"

definition PGROUNDDOWN :: "u32 \<Rightarrow> u32" where
  "PGROUNDDOWN a = a AND NOT (PGSIZE - 1)"

definition V2P :: "u32 \<Rightarrow> u32" where "V2P a = a - KERNBASE"

definition P2V :: "u32 \<Rightarrow> u32" where "P2V a = a + KERNBASE"

record kmem =
  mem :: memory
  use_lock :: bool
  freelist :: u32

definition kfree :: "u32 \<Rightarrow> kmem \<Rightarrow> u32 \<Rightarrow> kmem outcome" where
  "kfree kend k v =
     (if v mod PGSIZE \<noteq> 0 \<or> v < kend \<or> PHYSTOP \<le> V2P v then Panic ''kfree''
      else let m = fill (mem k) v 1 4096
           in Ok (k\<lparr>mem := store32 m v (freelist k), freelist := v\<rparr>))"

definition kalloc :: "kmem \<Rightarrow> u32 \<times> kmem" where
  "kalloc k =
     (let r = freelist k
      in if r \<noteq> 0 then (r, k\<lparr>freelist := load32 (mem k) r\<rparr>) else (r, k))"

function freerange_loop :: "u32 \<Rightarrow> kmem \<Rightarrow> u32 \<Rightarrow> u32 \<Rightarrow> kmem outcome" where
  "freerange_loop kend k p vend =
     (if p + PGSIZE \<le> vend \<and> p < p + PGSIZE
      then andThen (kfree kend k p) (\<lambda>k. freerange_loop kend k (p + PGSIZE) vend)
      else if p + PGSIZE \<le> vend then Fault ''pointer overflow''
      else Ok k)"
  by pat_completeness auto
termination
proof (relation "measure (\<lambda>(_, _, p, _). 2 ^ 32 - unat p)", goal_cases)
  case (2 kend k p vend x)
  then have "unat p < unat (p + PGSIZE)" by (simp add: word_less_nat_alt)
  then show ?case using unat_bound [of "p + PGSIZE"] by simp
qed simp

declare freerange_loop.simps [simp del]

definition freerange :: "u32 \<Rightarrow> kmem \<Rightarrow> u32 \<Rightarrow> u32 \<Rightarrow> kmem outcome" where
  "freerange kend k vstart vend = freerange_loop kend k (PGROUNDUP vstart) vend"

definition kinit1 :: "u32 \<Rightarrow> kmem \<Rightarrow> u32 \<Rightarrow> u32 \<Rightarrow> kmem outcome" where
  "kinit1 kend k vstart vend = freerange kend (k\<lparr>use_lock := False\<rparr>) vstart vend"

definition kinit2 :: "u32 \<Rightarrow> kmem \<Rightarrow> u32 \<Rightarrow> u32 \<Rightarrow> kmem outcome" where
  "kinit2 kend k vstart vend = andThen (freerange kend k vstart vend) (\<lambda>k. Ok (k\<lparr>use_lock := True\<rparr>))"

section \<open>The free list\<close>

text \<open>The pages on the free list, from its head on.\<close>

primrec chain :: "memory \<Rightarrow> u32 \<Rightarrow> u32 list \<Rightarrow> bool" where
  "chain m h [] \<longleftrightarrow> h = 0"
| "chain m h (x # xs) \<longleftrightarrow> h = x \<and> x \<noteq> 0 \<and> chain m (load32 m x) xs"

definition page_ok :: "u32 \<Rightarrow> u32 \<Rightarrow> bool" where
  "page_ok kend v \<longleftrightarrow> v \<noteq> 0 \<and> v mod PGSIZE = 0 \<and> \<not> v < kend \<and> \<not> PHYSTOP \<le> V2P v"

definition kmem_ok :: "u32 \<Rightarrow> kmem \<Rightarrow> u32 list \<Rightarrow> bool" where
  "kmem_ok kend k xs \<longleftrightarrow> chain (mem k) (freelist k) xs \<and> distinct xs \<and> (\<forall>x\<in>set xs. page_ok kend x)"


lemma page_distance:
  fixes v x :: u32
  assumes "v mod PGSIZE = 0" "x mod PGSIZE = 0" "x \<noteq> v" "i < 4096"
  shows "4096 \<le> unat (x + of_nat i - v)"
proof -
  let ?d = "x - v"
  have "x = x div PGSIZE * PGSIZE" "v = v div PGSIZE * PGSIZE"
    using div_mult_mod_eq [of x PGSIZE] div_mult_mod_eq [of v PGSIZE] assms(1,2) by simp_all
  then have "?d = (x div PGSIZE - v div PGSIZE) * PGSIZE" by (metis left_diff_distrib)
  then have "?d = push_bit 12 (x div PGSIZE - v div PGSIZE)" by (simp add: push_bit_eq_mult PGSIZE_def)
  then have "take_bit 12 ?d = 0" by (simp add: take_bit_push_bit)
  then have "take_bit 12 (unat ?d) = 0"
    by (metis unsigned_take_bit_eq unsigned_0)
  then have m: "unat ?d mod 4096 = 0" by (simp add: take_bit_eq_mod)
  have "unat ?d \<noteq> 0" using assms(3) by (simp add: unat_eq_0)
  then have ge: "4096 \<le> unat ?d" using m by (metis dvd_imp_le mod_eq_0_iff_dvd not_gr_zero)
  have "unat ?d \<le> 2 ^ 32 - 4096"
  proof -
    have "4096 dvd unat ?d" "4096 dvd (2 ^ 32 :: nat)" using m by (auto simp: mod_eq_0_iff_dvd intro: dvdI [of _ _ 1048576])
    then have "4096 dvd 2 ^ 32 - unat ?d" by (simp add: dvd_diff_nat)
    moreover have "0 < 2 ^ 32 - unat ?d" using unat_bound [of ?d] by simp
    ultimately have "4096 \<le> 2 ^ 32 - unat ?d" by (rule dvd_imp_le)
    then show ?thesis by linarith
  qed
  then have "unat (?d + of_nat i) = unat ?d + i"
    using assms(4) by (simp add: unat_word_ariths(1) unat_of_nat)
  moreover have "x + of_nat i - v = ?d + of_nat i" by simp
  ultimately show ?thesis using ge by (simp only:)
qed

text \<open>Filling and linking page \<open>v\<close> does not touch any other page.\<close>

lemma load_other_page:
  assumes "v mod PGSIZE = 0" "x mod PGSIZE = 0" "x \<noteq> v"
  shows "load32 (store32 (fill m v c 4096) v w) x = load32 m x"
proof -
  have "store32 (fill m v c 4096) v w (x + of_nat i) = m (x + of_nat i)" if "i < 4" for i
    using page_distance [OF assms, of i] that by (simp add: store32_def fill_def)
  from this [of 0] this [of 1] this [of 2] this [of 3] show ?thesis
    by (simp add: load32_def)
qed

lemma chain_other_page:
  "chain m h xs \<Longrightarrow> \<forall>x\<in>set xs. page_ok kend x \<and> x \<noteq> v \<Longrightarrow> v mod PGSIZE = 0 \<Longrightarrow>
   chain (store32 (fill m v c 4096) v w) h xs"
  by (induction xs arbitrary: h) (auto simp: load_other_page page_ok_def)

lemma kfree_ok:
  assumes "kmem_ok kend k xs" "page_ok kend v" "v \<notin> set xs"
  shows "\<exists>k'. kfree kend k v = Ok k' \<and> kmem_ok kend k' (v # xs)"
proof -
  have v: "v mod PGSIZE = 0" "v \<noteq> 0" "\<not> v < kend" "\<not> PHYSTOP \<le> V2P v"
    using assms(2) by (simp_all add: page_ok_def)
  have "chain (store32 (fill (mem k) v 1 4096) v (freelist k)) (freelist k) xs"
    using assms v(1) by (intro chain_other_page [where kend = kend]) (auto simp: kmem_ok_def)
  then show ?thesis
    using assms v by (simp add: kfree_def kmem_ok_def Let_def)
qed

lemma kalloc_ok:
  assumes "kmem_ok kend k xs"
  shows "kalloc k = (case xs of [] \<Rightarrow> (0, k) | x # ys \<Rightarrow> (x, k\<lparr>freelist := load32 (mem k) x\<rparr>))"
    and "xs = x # ys \<Longrightarrow> kmem_ok kend (snd (kalloc k)) ys"
  using assms by (cases xs; simp add: kmem_ok_def kalloc_def Let_def)+

section \<open>Rounding\<close>

lemma and_not_page: "a AND NOT (PGSIZE - 1) = push_bit 12 (drop_bit 12 (a :: u32))"
proof -
  have "PGSIZE - 1 = mask 12" by (simp add: PGSIZE_def mask_eq_exp_minus_1)
  then show ?thesis
    by (auto simp: bit_simps intro!: bit_word_eqI)
qed

lemma unat_PGROUNDDOWN: "unat (PGROUNDDOWN a) = unat a div 4096 * 4096"
proof -
  have "unat a div 4096 * 4096 < 2 ^ 32"
    using unat_bound [of a] div_times_less_eq_dividend [of "unat a" 4096] by linarith
  then have "unat (a div 4096 * 4096) = unat a div 4096 * 4096"
    by (simp add: unat_word_ariths(2) unat_div)
  then show ?thesis
    by (simp add: PGROUNDDOWN_def and_not_page push_bit_eq_mult drop_bit_eq_div)
qed

lemma unat_PGROUNDUP:
  assumes "unat sz + 4095 < 2 ^ 32"
  shows "unat (PGROUNDUP sz) = (unat sz + 4095) div 4096 * 4096"
proof -
  have eq: "PGROUNDUP sz = PGROUNDDOWN (sz + 4095)"
    by (simp add: PGROUNDUP_def PGROUNDDOWN_def PGSIZE_def add.commute)
  have "unat (sz + 4095) = unat sz + 4095" using assms by (simp add: unat_word_ariths(1))
  then show ?thesis by (simp only: eq unat_PGROUNDDOWN)
qed

section \<open>Properties\<close>

text \<open>
  Allocation and freeing in any order: a state is the allocator and the set of pages handed out. A
  page is freed only by a holder.
\<close>

inductive kmem_step :: "u32 \<Rightarrow> kmem \<times> u32 set \<Rightarrow> kmem \<times> u32 set \<Rightarrow> bool" for kend where
  alloc: "kalloc k = (r, k') \<Longrightarrow> r \<noteq> 0 \<Longrightarrow> kmem_step kend (k, A) (k', insert r A)"
| alloc_fails: "kalloc k = (0, k') \<Longrightarrow> kmem_step kend (k, A) (k', A)"
| free: "v \<in> A \<Longrightarrow> kfree kend k v = Ok k' \<Longrightarrow> kmem_step kend (k, A) (k', A - {v})"

inductive_cases kmem_stepE: "kmem_step kend (k, A) s'"

text \<open>The pages on the free list and the pages handed out divide the pages \<open>U\<close> between them.\<close>

definition kmem_inv :: "u32 \<Rightarrow> u32 set \<Rightarrow> kmem \<times> u32 set \<Rightarrow> bool" where
  "kmem_inv kend U s \<longleftrightarrow> (\<exists>xs. kmem_ok kend (fst s) xs \<and> set xs \<inter> snd s = {} \<and> set xs \<union> snd s = U)"

lemma kmem_step_inv:
  assumes "kmem_step kend (k, A) s'" "kmem_inv kend U (k, A)" "\<forall>x\<in>U. page_ok kend x"
  shows "kmem_inv kend U s'"
proof -
  obtain xs where xs: "kmem_ok kend k xs" "set xs \<inter> A = {}" "set xs \<union> A = U"
    using assms(2) by (auto simp: kmem_inv_def)
  from assms(1) show ?thesis
  proof (rule kmem_stepE)
    fix r k' assume s': "s' = (k', insert r A)" and a: "kalloc k = (r, k')" "r \<noteq> 0"
    then obtain ys where ys: "xs = r # ys" using kalloc_ok(1) [OF xs(1)] by (cases xs) auto
    then have "kmem_ok kend k' ys" using kalloc_ok(2) [OF xs(1) ys] a by simp
    moreover have "r \<notin> set ys" using xs(1) ys by (simp add: kmem_ok_def)
    ultimately show ?thesis using s' xs ys by (auto simp: kmem_inv_def)
  next
    fix k' assume "s' = (k', A)" "kalloc k = (0, k')"
    moreover have "k' = k" using kalloc_ok(1) [OF xs(1)] xs(1) calculation by (cases xs) (auto simp: kmem_ok_def page_ok_def)
    ultimately show ?thesis using assms(2) by simp
  next
    fix v k' assume s': "s' = (k', A - {v})" and v: "v \<in> A" "kfree kend k v = Ok k'"
    then have "page_ok kend v" "v \<notin> set xs" using assms(3) xs by auto
    then have "kmem_ok kend k' (v # xs)" using kfree_ok [of kend k xs v] xs(1) v(2) by auto
    then show ?thesis
      unfolding kmem_inv_def s' using xs v(1) by (intro exI [of _ "v # xs"]) auto
  qed
qed

text \<open>
  C12: no page is handed out twice and none is lost. Whatever calls of \<^verbatim>\<open>kalloc\<close> and \<^verbatim>\<open>kfree\<close> follow one
  another, the free list stays a list without repetition, it never contains a page that is handed
  out, and the free and the handed-out pages are together always the same pages; so the next page
  \<^verbatim>\<open>kalloc\<close> returns is not in use.
\<close>

theorem kalloc_exclusive:
  assumes "(kmem_step kend)\<^sup>*\<^sup>* (k0, {}) (k, A)" "kmem_ok kend k0 xs0"
  shows "(\<exists>xs. kmem_ok kend k xs \<and> set xs \<union> A = set xs0 \<and> set xs \<inter> A = {}) \<and> fst (kalloc k) \<notin> A"
proof -
  have "kmem_inv kend (set xs0) (k, A)"
    using assms(1)
  proof (induction "(k, A)" arbitrary: k A rule: rtranclp_induct)
    case base
    then show ?case using assms(2) by (auto simp: kmem_inv_def)
  next
    case (step s)
    obtain k1 A1 where s: "s = (k1, A1)" by (cases s)
    have "\<forall>x\<in>set xs0. page_ok kend x" using assms(2) by (simp add: kmem_ok_def)
    then show ?case using kmem_step_inv [of kend k1 A1] step.hyps(2,3) s by blast
  qed
  then obtain xs where xs: "kmem_ok kend k xs" "set xs \<inter> A = {}" "set xs \<union> A = set xs0"
    by (auto simp: kmem_inv_def)
  have "fst (kalloc k) = 0 \<or> fst (kalloc k) \<in> set xs"
    using kalloc_ok(1) [OF xs(1)] by (cases xs) auto
  moreover have "0 \<notin> A" using xs(3) assms(2) by (auto simp: kmem_ok_def page_ok_def)
  ultimately show ?thesis using xs by auto
qed

text \<open>The pages of a range, in the order \<^verbatim>\<open>freerange\<close> frees them.\<close>

definition pages_from :: "u32 \<Rightarrow> nat \<Rightarrow> u32 list" where
  "pages_from p n = map (\<lambda>i. p + of_nat i * PGSIZE) [0..<n]"

lemma pages_from_Suc: "pages_from p (Suc n) = p # pages_from (p + PGSIZE) n"
  by (simp add: pages_from_def upt_conv_Cons map_Suc_upt [symmetric] algebra_simps del: upt_Suc)

lemma page_in_range:
  assumes "KERNBASE \<le> kend" "kend \<le> p" "unat p mod 4096 = 0" "unat p + 4096 \<le> 2 ^ 31 + unat PHYSTOP"
  shows "page_ok kend p"
proof -
  have "KERNBASE \<le> p" using assms(1,2) by (rule order_trans)
  then have "unat (V2P p) = unat p - 2 ^ 31" by (simp add: V2P_def unat_sub KERNBASE_def)
  then have "\<not> PHYSTOP \<le> V2P p" using assms(4) \<open>KERNBASE \<le> p\<close> by (simp add: word_le_nat_alt KERNBASE_def)
  moreover have "unat (p mod PGSIZE) = 0" using assms(3) by (simp add: unat_mod PGSIZE_def)
  then have "p mod PGSIZE = 0" by (simp add: unat_eq_0)
  moreover have "p \<noteq> 0" using \<open>KERNBASE \<le> p\<close> by (auto simp: KERNBASE_def)
  ultimately show ?thesis using assms(2) by (simp add: page_ok_def not_less)
qed

lemma freerange_loop_frees:
  "kmem_ok kend k xs \<Longrightarrow> KERNBASE \<le> kend \<Longrightarrow> kend \<le> p \<Longrightarrow> unat p mod 4096 = 0 \<Longrightarrow>
   unat p + n * 4096 \<le> unat vend \<Longrightarrow> unat vend < unat p + n * 4096 + 4096 \<Longrightarrow>
   unat vend \<le> 2 ^ 31 + unat PHYSTOP \<Longrightarrow> (\<forall>x\<in>set xs. x < p) \<Longrightarrow>
   \<exists>k'. freerange_loop kend k p vend = Ok k' \<and> kmem_ok kend k' (rev (pages_from p n) @ xs) \<and> use_lock k' = use_lock k"
proof (induction n arbitrary: k p xs)
  case 0
  have "unat (p + PGSIZE) = unat p + 4096" using 0 by (simp add: PGSIZE_def PHYSTOP_def unat_word_ariths(1))
  then have "\<not> p + PGSIZE \<le> vend" using 0 by (simp add: word_le_nat_alt)
  then show ?case using 0 by (simp add: freerange_loop.simps [of kend k p] pages_from_def)
next
  case (Suc n)
  have next_p: "unat (p + PGSIZE) = unat p + 4096"
    using Suc.prems by (simp add: PGSIZE_def PHYSTOP_def unat_word_ariths(1))
  have page: "page_ok kend p" using Suc.prems by (intro page_in_range) auto
  have fresh: "p \<notin> set xs" using Suc.prems(8) by auto
  obtain k1 where k1: "kfree kend k p = Ok k1" "kmem_ok kend k1 (p # xs)"
    using kfree_ok [OF Suc.prems(1) page fresh] by blast
  have lk: "use_lock k1 = use_lock k" using k1(1) by (auto simp: kfree_def Let_def split: if_splits)
  have up: "p < p + PGSIZE" using next_p by (simp add: word_less_nat_alt)
  have "\<exists>k'. freerange_loop kend k1 (p + PGSIZE) vend = Ok k' \<and>
      kmem_ok kend k' (rev (pages_from (p + PGSIZE) n) @ p # xs) \<and> use_lock k' = use_lock k1"
  proof (rule Suc.IH [OF k1(2) Suc.prems(2)])
    show "kend \<le> p + PGSIZE" using Suc.prems(3) up by (meson order_trans less_imp_le)
    show "\<forall>x\<in>set (p # xs). x < p + PGSIZE" using Suc.prems(8) up by (auto intro: less_trans)
  qed (use Suc.prems next_p in \<open>auto simp: mod_add_self2\<close>)
  moreover have "p + PGSIZE \<le> vend" using Suc.prems(5) next_p by (simp add: word_le_nat_alt)
  ultimately show ?case
    using up k1(1) lk by (auto simp: freerange_loop.simps [of kend k p] pages_from_Suc)
qed

text \<open>
  C35: initialising the allocator. Freeing the range from \<^verbatim>\<open>vstart\<close> to \<^verbatim>\<open>vend\<close>, with the kernel below \<^verbatim>\<open>vstart\<close> and
  \<^verbatim>\<open>vend\<close> not above the end of physical memory, terminates without a panic and puts exactly the whole
  pages inside the range on the free list, the last one first.
\<close>

theorem kinit1_free_pages:
  assumes "KERNBASE \<le> kend" "kend \<le> vstart" "vstart \<le> vend" "vend \<le> KERNBASE + PHYSTOP"
  shows "\<exists>k'. kinit1 kend \<lparr> mem = m, use_lock = l, freelist = 0 \<rparr> vstart vend = Ok k' \<and>
    kmem_ok kend k' (rev (pages_from (PGROUNDUP vstart) ((unat vend - unat (PGROUNDUP vstart)) div 4096)))"
proof -
  let ?p = "PGROUNDUP vstart" and ?k = "\<lparr> mem = m, use_lock = False, freelist = 0 \<rparr>"
  have top: "unat (KERNBASE + PHYSTOP) = 2 ^ 31 + unat PHYSTOP" by (simp add: KERNBASE_def PHYSTOP_def)
  have le: "unat vstart \<le> unat vend" "unat vend \<le> 2 ^ 31 + unat PHYSTOP"
    using assms(3,4) top by (simp_all add: word_le_nat_alt)
  have p: "unat ?p = (unat vstart + 4095) div 4096 * 4096"
    using le by (intro unat_PGROUNDUP) (simp add: PHYSTOP_def)
  have ge: "unat vstart \<le> unat ?p" "unat ?p mod 4096 = 0" "unat ?p < unat vstart + 4096"
    unfolding p using dividend_less_div_times [of 4096 "unat vstart + 4095"]
      div_times_less_eq_dividend [of "unat vstart + 4095" 4096] by simp_all
  have ok: "kmem_ok kend ?k []" by (simp add: kmem_ok_def)
  show ?thesis
  proof (cases "unat ?p \<le> unat vend")
    case True
    have kp: "kend \<le> ?p" using assms(2) ge(1) by (simp add: word_le_nat_alt)
    let ?n = "(unat vend - unat ?p) div 4096"
    have "unat ?p + ?n * 4096 \<le> unat vend" "unat vend < unat ?p + ?n * 4096 + 4096"
      using True div_times_less_eq_dividend [of "unat vend - unat ?p" 4096]
        dividend_less_div_times [of 4096 "unat vend - unat ?p"] by simp_all
    then show ?thesis
      using freerange_loop_frees [OF ok assms(1) kp ge(2), of ?n vend] le(2)
      by (auto simp: kinit1_def freerange_def)
  next
    case False
    have "unat (?p + PGSIZE) = unat ?p + 4096"
      using le ge by (simp add: PGSIZE_def PHYSTOP_def unat_word_ariths(1))
    then have "\<not> ?p + PGSIZE \<le> vend" using False by (simp add: word_le_nat_alt)
    then show ?thesis
      using False ok by (simp add: kinit1_def freerange_def freerange_loop.simps [of _ _ ?p] pages_from_def)
  qed
qed

theorem kinit1_free_pages_witness:
  "\<exists>k'. kinit1 0x80100000 \<lparr> mem = (\<lambda>_. 0), use_lock = True, freelist = 0 \<rparr> 0x80100001 0x80103000 = Ok k' \<and>
     kmem_ok 0x80100000 k' [0x80102000, 0x80101000]"
proof -
  have "PGROUNDUP 0x80100001 = 0x80101000" by (simp add: PGROUNDUP_def PGSIZE_def)
  moreover have "rev (pages_from 0x80101000 2) = [0x80102000, 0x80101000]"
    by (simp add: pages_from_def PGSIZE_def numeral_2_eq_2)
  ultimately show ?thesis
    using kinit1_free_pages [of "0x80100000" "0x80100001" "0x80103000" "\<lambda>_. 0" True]
    by (simp add: KERNBASE_def PHYSTOP_def)
qed

definition two_pages :: kmem where
  "two_pages = \<lparr> mem = store32 (\<lambda>_. 0) 0x80102000 0x80101000, use_lock = True, freelist = 0x80102000 \<rparr>"

lemma two_pages_ok: "kmem_ok 0x80100000 two_pages [0x80102000, 0x80101000]"
proof -
  have "load32 (store32 (\<lambda>_. 0) 0x80102000 0x80101000) 0x80101000 = 0"
    by (simp add: load32_def store32_def)
  then show ?thesis
    by (simp add: kmem_ok_def two_pages_def page_ok_def PGSIZE_def V2P_def KERNBASE_def PHYSTOP_def)
qed

theorem kalloc_exclusive_witness:
  "fst (kalloc (snd (kalloc two_pages))) \<notin> {0x80102000}"
proof -
  have "kmem_step 0x80100000 (two_pages, {}) (snd (kalloc two_pages), insert 0x80102000 {})"
    by (rule kmem_step.alloc) (simp_all add: kalloc_def two_pages_def)
  then show ?thesis
    using kalloc_exclusive [OF r_into_rtranclp two_pages_ok] by blast
qed

end
