(* ===== verification/Xv6_String.thy ===== *)
theory Xv6_String
  imports Prelude
begin

text \<open>
  The string and memory routines of the xv6 kernel (\<^verbatim>\<open>src/xv6/base/string.c\<close>) and of its user library
  (\<^verbatim>\<open>ulib.c\<close>). Memory is a byte list and a pointer an index into it, so that source and destination
  may overlap. Routines that search for a zero byte give \<open>Fault\<close> when they run off the memory.
\<close>

section \<open>Kernel routines\<close>

text \<open>The string instructions: \<^verbatim>\<open>rep stosb\<close> and \<^verbatim>\<open>rep stosl\<close> store a byte or a word \<open>n\<close> times.\<close>

fun stosb :: "byte list \<Rightarrow> nat \<Rightarrow> byte \<Rightarrow> nat \<Rightarrow> byte list" where
  "stosb m dst c 0 = m"
| "stosb m dst c (Suc n) = stosb (m[dst := c]) (Suc dst) c n"

fun stosl :: "byte list \<Rightarrow> nat \<Rightarrow> u32 \<Rightarrow> nat \<Rightarrow> byte list" where
  "stosl m dst w 0 = m"
| "stosl m dst w (Suc n) = stosl (put_at m dst (le32 w)) (dst + 4) w n"

definition memset :: "byte list \<Rightarrow> nat \<Rightarrow> u32 \<Rightarrow> nat \<Rightarrow> byte list" where
  "memset m dst c n =
     (if dst mod 4 = 0 \<and> n mod 4 = 0
      then let c = c AND 0xFF
           in stosl m dst (push_bit 24 c OR push_bit 16 c OR push_bit 8 c OR c) (n div 4)
      else stosb m dst (ucast c) n)"

fun memcmp :: "byte list \<Rightarrow> nat \<Rightarrow> nat \<Rightarrow> nat \<Rightarrow> int" where
  "memcmp m s1 s2 0 = 0"
| "memcmp m s1 s2 (Suc n) =
     (if m ! s1 \<noteq> m ! s2 then uint (m ! s1) - uint (m ! s2) else memcmp m (Suc s1) (Suc s2) n)"

fun move_up :: "byte list \<Rightarrow> nat \<Rightarrow> nat \<Rightarrow> nat \<Rightarrow> byte list" where
  "move_up m d s 0 = m"
| "move_up m d s (Suc n) = move_up (m[d := m ! s]) (Suc d) (Suc s) n"

fun move_down :: "byte list \<Rightarrow> nat \<Rightarrow> nat \<Rightarrow> nat \<Rightarrow> byte list" where
  "move_down m d s 0 = m"
| "move_down m d s (Suc n) = move_down (m[d + n := m ! (s + n)]) d s n"

definition memmove :: "byte list \<Rightarrow> nat \<Rightarrow> nat \<Rightarrow> nat \<Rightarrow> byte list" where
  "memmove m dst src n = (if src < dst \<and> dst < src + n then move_down m dst src n else move_up m dst src n)"

definition memcpy :: "byte list \<Rightarrow> nat \<Rightarrow> nat \<Rightarrow> nat \<Rightarrow> byte list" where
  "memcpy m dst src n = memmove m dst src n"

fun strncmp :: "byte list \<Rightarrow> nat \<Rightarrow> nat \<Rightarrow> nat \<Rightarrow> int" where
  "strncmp m p q 0 = 0"
| "strncmp m p q (Suc n) =
     (if m ! p \<noteq> 0 \<and> m ! p = m ! q then strncmp m (Suc p) (Suc q) n else uint (m ! p) - uint (m ! q))"

text \<open>The two loops of \<^verbatim>\<open>strncpy\<close>; the first one also decrements \<^verbatim>\<open>n\<close> when it stops at a zero byte.\<close>

fun strncpy :: "byte list \<Rightarrow> nat \<Rightarrow> nat \<Rightarrow> nat \<Rightarrow> byte list" where
  "strncpy m s t 0 = m"
| "strncpy m s t (Suc n) =
     (if m ! t \<noteq> 0 then strncpy (m[s := m ! t]) (Suc s) (Suc t) n
      else stosb (m[s := 0]) (Suc s) 0 n)"

fun safestrcpy_loop :: "byte list \<Rightarrow> nat \<Rightarrow> nat \<Rightarrow> nat \<Rightarrow> byte list" where
  "safestrcpy_loop m s t 0 = m[s := 0]"
| "safestrcpy_loop m s t (Suc n) =
     (if m ! t \<noteq> 0 then safestrcpy_loop (m[s := m ! t]) (Suc s) (Suc t) n
      else (m[s := 0])[Suc s := 0])"

definition safestrcpy :: "byte list \<Rightarrow> nat \<Rightarrow> nat \<Rightarrow> int \<Rightarrow> byte list" where
  "safestrcpy m s t n = (if n \<le> 0 then m else safestrcpy_loop m s t (nat n - 1))"

function strlen_from :: "byte list \<Rightarrow> nat \<Rightarrow> nat \<Rightarrow> nat outcome" where
  "strlen_from m s n =
     (if s + n < length m then if m ! (s + n) \<noteq> 0 then strlen_from m s (Suc n) else Ok n
      else Fault ''strlen'')"
  by pat_completeness auto
termination
  by (relation "measure (\<lambda>(m, s, n). length m - (s + n))") auto

declare strlen_from.simps [simp del]

definition strlen :: "byte list \<Rightarrow> nat \<Rightarrow> nat outcome" where
  "strlen m s = strlen_from m s 0"

section \<open>User library\<close>

function strcpy :: "byte list \<Rightarrow> nat \<Rightarrow> nat \<Rightarrow> byte list outcome" where
  "strcpy m s t =
     (if t < length m \<and> s < length m
      then if m ! t \<noteq> 0 then strcpy (m[s := m ! t]) (Suc s) (Suc t) else Ok (m[s := 0])
      else Fault ''strcpy'')"
  by pat_completeness auto
termination
  by (relation "measure (\<lambda>(m, s, t). length m - t)") auto

declare strcpy.simps [simp del]

function strcmp :: "byte list \<Rightarrow> nat \<Rightarrow> nat \<Rightarrow> int outcome" where
  "strcmp m p q =
     (if p < length m \<and> q < length m
      then if m ! p \<noteq> 0 \<and> m ! p = m ! q then strcmp m (Suc p) (Suc q)
           else Ok (uint (m ! p) - uint (m ! q))
      else Fault ''strcmp'')"
  by pat_completeness auto
termination
  by (relation "measure (\<lambda>(m, p, q). length m - p)") auto

declare strcmp.simps [simp del]

definition umemset :: "byte list \<Rightarrow> nat \<Rightarrow> u32 \<Rightarrow> nat \<Rightarrow> byte list" where
  "umemset m dst c n = stosb m dst (ucast c) n"

function strchr :: "byte list \<Rightarrow> nat \<Rightarrow> byte \<Rightarrow> nat option outcome" where
  "strchr m s c =
     (if s < length m
      then if m ! s = 0 then Ok None else if m ! s = c then Ok (Some s) else strchr m (Suc s) c
      else Fault ''strchr'')"
  by pat_completeness auto
termination
  by (relation "measure (\<lambda>(m, s, c). length m - s)") auto

declare strchr.simps [simp del]

text \<open>
  \<^verbatim>\<open>gets\<close> reads from standard input, here the list of bytes still to come; it returns the buffer and what
  is left of the input.
\<close>

function gets_loop :: "byte list \<Rightarrow> nat \<Rightarrow> nat \<Rightarrow> nat \<Rightarrow> byte list \<Rightarrow> byte list \<times> byte list" where
  "gets_loop m buf i mx inp =
     (if i + 1 < mx
      then case inp of [] \<Rightarrow> (m[buf + i := 0], [])
           | c # rest \<Rightarrow>
               if c = 10 \<or> c = 13 then ((m[buf + i := c])[buf + Suc i := 0], rest)
               else gets_loop (m[buf + i := c]) buf (Suc i) mx rest
      else (m[buf + i := 0], inp))"
  by pat_completeness auto
termination
  by (relation "measure (\<lambda>(m, buf, i, mx, inp). mx - i)") auto

declare gets_loop.simps [simp del]

definition gets :: "byte list \<Rightarrow> nat \<Rightarrow> nat \<Rightarrow> byte list \<Rightarrow> byte list \<times> byte list" where
  "gets m buf mx inp = gets_loop m buf 0 mx inp"

text \<open>\<^verbatim>\<open>stat\<close> opens, asks and closes; the system calls are parameters that pass a state along.\<close>

definition stat ::
  "('s \<Rightarrow> string \<Rightarrow> int \<times> 's) \<Rightarrow> ('s \<Rightarrow> int \<Rightarrow> (int \<times> 'i) \<times> 's) \<Rightarrow> ('s \<Rightarrow> int \<Rightarrow> 's) \<Rightarrow> 's \<Rightarrow> string \<Rightarrow> (int \<times> 'i option) \<times> 's" where
  "stat open_call fstat_call close_call w n =
     (let (fd, w) = open_call w n
      in if fd < 0 then ((-1, None), w)
         else let ((r, st), w) = fstat_call w fd in ((r, Some st), close_call w fd))"

function atoi_loop :: "byte list \<Rightarrow> nat \<Rightarrow> u32 \<Rightarrow> u32 outcome" where
  "atoi_loop m s n =
     (if s < length m
      then if 48 \<le> m ! s \<and> m ! s \<le> 57 then atoi_loop m (Suc s) (n * 10 + ucast (m ! s) - 48) else Ok n
      else Fault ''atoi'')"
  by pat_completeness auto
termination
  by (relation "measure (\<lambda>(m, s, n). length m - s)") auto

declare atoi_loop.simps [simp del]

definition atoi :: "byte list \<Rightarrow> nat \<Rightarrow> u32 outcome" where
  "atoi m s = atoi_loop m s 0"

definition umemmove :: "byte list \<Rightarrow> nat \<Rightarrow> nat \<Rightarrow> nat \<Rightarrow> byte list" where
  "umemmove m dst src n = move_up m dst src n"

section \<open>What the routines compute\<close>

lemma stosb_put_at: "dst + n \<le> length m \<Longrightarrow> stosb m dst c n = put_at m dst (replicate n c)"
proof (induction m dst c n rule: stosb.induct)
  case (2 m dst c n)
  then have "stosb m dst c (Suc n) = put_at (put_at m dst [c]) (Suc dst) (replicate n c)"
    by (simp add: list_update_put_at)
  also have "\<dots> = put_at m dst ([c] @ replicate n c)"
    using 2(2) put_at_append [of dst "[c]" "replicate n c" m] by simp
  finally show ?case by simp
qed simp

lemma replicate4: "replicate (4 * Suc n) c = [c, c, c, c] @ replicate (4 * n) c"
  by (simp add: numeral_eq_Suc replicate_add)

lemma stosl_put_at:
  assumes "le32 w = [c, c, c, c]"
  shows "dst + 4 * n \<le> length m \<Longrightarrow> stosl m dst w n = put_at m dst (replicate (4 * n) c)"
proof (induction n arbitrary: m dst)
  case (Suc n)
  have "stosl m dst w (Suc n) = put_at (put_at m dst [c, c, c, c]) (dst + 4) (replicate (4 * n) c)"
    using Suc by (simp add: assms)
  also have "\<dots> = put_at m dst ([c, c, c, c] @ replicate (4 * n) c)"
    using Suc.prems put_at_append [of dst "[c, c, c, c]" "replicate (4 * n) c" m] by (simp add: numeral_eq_Suc)
  finally show ?case by (simp only: replicate4)
qed simp

lemma le32_four_bytes:
  fixes c :: u32
  defines "d \<equiv> c AND 0xFF"
  shows "le32 (push_bit 24 d OR push_bit 16 d OR push_bit 8 d OR d) = [ucast c, ucast c, ucast c, ucast c]"
proof -
  have "d = take_bit 8 c" by (simp add: d_def take_bit_eq_mask mask_eq_exp_minus_1)
  then show ?thesis
    unfolding le32_def by (auto simp: bit_simps intro!: bit_word_eqI)
qed

lemma move_up_put_at:
  "d + n \<le> length m \<Longrightarrow> s + n \<le> length m \<Longrightarrow> \<not> (s < d \<and> d < s + n) \<Longrightarrow>
   move_up m d s n = put_at m d (get_at m s n)"
proof (induction m d s n rule: move_up.induct)
  case (2 m d s n)
  let ?m = "m[d := m ! s]"
  have m: "?m = put_at m d [m ! s]" using 2(2) by (simp add: list_update_put_at)
  have "move_up m d s (Suc n) = put_at ?m (Suc d) (get_at ?m (Suc s) n)"
    using 2 by auto
  also have "get_at ?m (Suc s) n = get_at m (Suc s) n"
  proof (cases n)
    case (Suc k)
    then have "Suc s + n \<le> d \<or> Suc d \<le> Suc s" using 2(4) by auto
    then show ?thesis using 2(2,3) unfolding m by (intro get_put_disjoint) auto
  qed simp
  also have "put_at ?m (Suc d) (get_at m (Suc s) n) = put_at m d ([m ! s] @ get_at m (Suc s) n)"
    using 2(2,3) put_at_append [of d "[m ! s]" "get_at m (Suc s) n" m] unfolding m by simp
  also have "[m ! s] @ get_at m (Suc s) n = get_at m s (Suc n)"
    using 2(3) by (simp add: get_at_Cons)
  finally show ?case .
qed simp

lemma move_down_put_at:
  "d + n \<le> length m \<Longrightarrow> s + n \<le> length m \<Longrightarrow> s < d \<Longrightarrow>
   move_down m d s n = put_at m d (get_at m s n)"
proof (induction m d s n rule: move_down.induct)
  case (2 m d s n)
  let ?m = "m[d + n := m ! (s + n)]"
  have m: "?m = put_at m (d + n) [m ! (s + n)]" using 2(2) by (simp add: list_update_put_at)
  have "move_down m d s (Suc n) = put_at ?m d (get_at ?m s n)"
    using 2 by auto
  also have "get_at ?m s n = get_at m s n"
    using 2(2-4) unfolding m by (intro get_put_disjoint) auto
  also have "put_at ?m d (get_at m s n) = put_at m d (get_at m s n @ [m ! (s + n)])"
    using 2(2,3) put_at_append [of d "get_at m s n" "[m ! (s + n)]" m]
      put_at_commute [of "d + n" "[m ! (s + n)]" m d "get_at m s n"] unfolding m by simp
  also have "get_at m s n @ [m ! (s + n)] = get_at m s (Suc n)"
    using 2(3) by (simp add: get_at_def take_Suc_conv_app_nth)
  finally show ?case .
qed simp

section \<open>Properties\<close>

text \<open>
  C36: \<^verbatim>\<open>memset\<close> of the kernel. With or without the word-wise shortcut, the \<open>n\<close> bytes from \<open>dst\<close> on become the low
  byte of the value, and nothing else changes.
\<close>

theorem memset_fills:
  assumes "dst + n \<le> length m"
  shows "memset m dst c n = put_at m dst (replicate n (ucast c))"
proof (cases "dst mod 4 = 0 \<and> n mod 4 = 0")
  case True
  then have "4 * (n div 4) = n" by auto
  then show ?thesis
    using True assms stosl_put_at [OF le32_four_bytes [of c], of dst "n div 4" m]
    unfolding memset_def Let_def by (simp only: if_True simp_thms)
next
  case False
  then show ?thesis using assms unfolding memset_def by (simp only: if_False stosb_put_at)
qed

theorem memset_fills_witness: "memset [1, 2, 3, 4, 5] 0 0x1AB 4 = [0xAB, 0xAB, 0xAB, 0xAB, 5]"
  using memset_fills [of 0 4 "[1, 2, 3, 4, 5]" "0x1AB"] by (simp add: put_at_def replicate4 [of 0, simplified])

text \<open>
  C37: \<^verbatim>\<open>memmove\<close> of the kernel copies correctly even when source and destination overlap: the destination
  gets what the source held before the call.
\<close>

theorem memmove_copies:
  assumes "dst + n \<le> length m" "src + n \<le> length m"
  shows "memmove m dst src n = put_at m dst (get_at m src n)"
  using assms by (auto simp: memmove_def move_up_put_at move_down_put_at)

theorem memmove_copies_witness: "memmove [1, 2, 3, 4, 5] 1 0 4 = [1, 1, 2, 3, 4]"
  using memmove_copies [of 1 4 "[1, 2, 3, 4, 5]" 0] by (simp add: put_at_def get_at_def)

end
