(* ===== verification/Xv6_Bio.thy ===== *)
theory Xv6_Bio
  imports Prelude
begin

text \<open>
  The buffer cache of xv6 (\<^verbatim>\<open>src/xv6/base/bio.c\<close>) over the memory disk (\<^verbatim>\<open>memide.c\<close>). The doubly linked list
  of buffers is the list of their indices, most recently used first. The sleep lock of a buffer
  (\<^verbatim>\<open>sleeplock.c\<close>) is the process that holds it. A call that would have to wait for a lock has the
  outcome \<open>Sleep\<close>. \<open>trace\<close> records the blocks in the order in which they reach the disk, which is what a
  crash leaves behind.
\<close>

section \<open>The code\<close>

definition BSIZE :: nat where "BSIZE = 512"

definition NBUF :: nat where "NBUF = 30"

text \<open>\<^verbatim>\<open>b_lock\<close> is the process that holds the buffer's sleep lock.\<close>

record buf =
  b_valid :: bool
  b_dirty :: bool
  b_dev :: u32
  b_blockno :: u32
  b_lock :: "nat option"
  b_refcnt :: nat
  b_data :: "byte list"

record bcache =
  bufs :: "buf list"
  lru :: "nat list"
  memdisk :: "byte list list"
  trace :: "(u32 \<times> byte list) list"
  mypid :: nat

definition set_buf :: "bcache \<Rightarrow> nat \<Rightarrow> (buf \<Rightarrow> buf) \<Rightarrow> bcache" where
  "set_buf bs i f = bs\<lparr>bufs := (bufs bs)[i := f (bufs bs ! i)]\<rparr>"

definition acquiresleep :: "bcache \<Rightarrow> nat \<Rightarrow> bcache outcome" where
  "acquiresleep bs i =
     (if b_lock (bufs bs ! i) \<noteq> None then Sleep ''buffer''
      else Ok (set_buf bs i (\<lambda>b. b\<lparr>b_lock := Some (mypid bs)\<rparr>)))"

definition releasesleep :: "bcache \<Rightarrow> nat \<Rightarrow> bcache" where
  "releasesleep bs i = set_buf bs i (\<lambda>b. b\<lparr>b_lock := None\<rparr>)"

definition holdingsleep :: "bcache \<Rightarrow> nat \<Rightarrow> bool" where
  "holdingsleep bs i = (b_lock (bufs bs ! i) = Some (mypid bs))"

definition zero_buf :: buf where
  "zero_buf = \<lparr> b_valid = False, b_dirty = False, b_dev = 0, b_blockno = 0, b_lock = None,
     b_refcnt = 0, b_data = replicate BSIZE 0 \<rparr>"

text \<open>Each buffer is put in front of the ones before it.\<close>

definition binit :: "byte list list \<Rightarrow> nat \<Rightarrow> bcache" where
  "binit dsk pid = \<lparr> bufs = replicate NBUF zero_buf, lru = foldl (\<lambda>l b. b # l) [] [0..<NBUF],
     memdisk = dsk, trace = [], mypid = pid \<rparr>"

definition iderw :: "bcache \<Rightarrow> nat \<Rightarrow> bcache outcome" where
  "iderw bs i =
     (let b = bufs bs ! i
      in if \<not> holdingsleep bs i then Panic ''iderw: buf not locked''
         else if b_valid b \<and> \<not> b_dirty b then Panic ''iderw: nothing to do''
         else if b_dev b \<noteq> 1 then Panic ''iderw: request not for disk 1''
         else if length (memdisk bs) \<le> unat (b_blockno b) then Panic ''iderw: block out of range''
         else if b_dirty b
         then Ok (set_buf (bs\<lparr>memdisk := (memdisk bs)[unat (b_blockno b) := b_data b],
                              trace := trace bs @ [(b_blockno b, b_data b)]\<rparr>) i
                    (\<lambda>b. b\<lparr>b_dirty := False, b_valid := True\<rparr>))
         else Ok (set_buf bs i (\<lambda>b. b\<lparr>b_data := memdisk bs ! unat (b_blockno b), b_valid := True\<rparr>)))"

definition bget :: "bcache \<Rightarrow> u32 \<Rightarrow> u32 \<Rightarrow> (nat \<times> bcache) outcome" where
  "bget bs dev blockno =
     (case find (\<lambda>i. b_dev (bufs bs ! i) = dev \<and> b_blockno (bufs bs ! i) = blockno) (lru bs) of
        Some i \<Rightarrow> andThen (acquiresleep (set_buf bs i (\<lambda>b. b\<lparr>b_refcnt := b_refcnt b + 1\<rparr>)) i) (\<lambda>bs. Ok (i, bs))
      | None \<Rightarrow>
          (case find (\<lambda>i. b_refcnt (bufs bs ! i) = 0 \<and> \<not> b_dirty (bufs bs ! i)) (rev (lru bs)) of
             Some i \<Rightarrow> andThen (acquiresleep (set_buf bs i (\<lambda>b. b\<lparr>b_dev := dev, b_blockno := blockno,
                 b_valid := False, b_dirty := False, b_refcnt := 1\<rparr>)) i) (\<lambda>bs. Ok (i, bs))
           | None \<Rightarrow> Panic ''bget: no buffers''))"

definition bread :: "bcache \<Rightarrow> u32 \<Rightarrow> u32 \<Rightarrow> (nat \<times> bcache) outcome" where
  "bread bs dev blockno =
     andThen (bget bs dev blockno) (\<lambda>(i, bs).
       if \<not> b_valid (bufs bs ! i) then andThen (iderw bs i) (\<lambda>bs. Ok (i, bs)) else Ok (i, bs))"

definition bwrite :: "bcache \<Rightarrow> nat \<Rightarrow> bcache outcome" where
  "bwrite bs i =
     (if \<not> holdingsleep bs i then Panic ''bwrite''
      else iderw (set_buf bs i (\<lambda>b. b\<lparr>b_dirty := True\<rparr>)) i)"

definition brelse :: "bcache \<Rightarrow> nat \<Rightarrow> bcache outcome" where
  "brelse bs i =
     (if \<not> holdingsleep bs i then Panic ''brelse''
      else let bs = releasesleep bs i;
               bs = set_buf bs i (\<lambda>b. b\<lparr>b_refcnt := b_refcnt b - 1\<rparr>)
           in Ok (if b_refcnt (bufs bs ! i) = 0 then bs\<lparr>lru := i # remove1 i (lru bs)\<rparr> else bs))"

text \<open>Changing the data of a buffer through the pointer the caller got from \<^verbatim>\<open>bread\<close>.\<close>

definition put_data :: "bcache \<Rightarrow> nat \<Rightarrow> byte list \<Rightarrow> bcache" where
  "put_data bs i d = set_buf bs i (\<lambda>b. b\<lparr>b_data := d\<rparr>)"

section \<open>Invariant and view\<close>

text \<open>
  The invariant of the cache while the process holds the buffers \<open>H\<close>: the list is a permutation of the
  buffers, no block has two buffers, a buffer that is neither dirty nor held agrees with the disk,
  and exactly the buffers in \<open>H\<close> are locked and referenced.
\<close>

definition buf_ok :: "bcache \<Rightarrow> nat \<Rightarrow> bool" where
  "buf_ok bs i \<longleftrightarrow> (let b = bufs bs ! i in
     length (b_data b) = BSIZE \<and> (b_dirty b \<longrightarrow> b_valid b \<and> b_dev b = 1) \<and>
     (b_dev b = 1 \<longrightarrow> unat (b_blockno b) < length (memdisk bs)) \<and>
     (b_dev b = 1 \<longrightarrow> b_valid b \<longrightarrow> \<not> b_dirty b \<longrightarrow> b_lock b = None \<longrightarrow> b_data b = memdisk bs ! unat (b_blockno b)))"

definition bio_inv :: "bcache \<Rightarrow> nat set \<Rightarrow> bool" where
  "bio_inv bs H \<longleftrightarrow> length (bufs bs) = NBUF \<and> distinct (lru bs) \<and> set (lru bs) = {..<NBUF} \<and>
     (\<forall>d\<in>set (memdisk bs). length d = BSIZE) \<and> (\<forall>i<NBUF. buf_ok bs i) \<and>
     (\<forall>i<NBUF. \<forall>j<NBUF. b_dev (bufs bs ! i) = 1 \<longrightarrow> b_dev (bufs bs ! j) = 1 \<longrightarrow>
        b_blockno (bufs bs ! i) = b_blockno (bufs bs ! j) \<longrightarrow> i = j) \<and>
     H \<subseteq> {..<NBUF} \<and>
     (\<forall>i<NBUF. if i \<in> H then b_lock (bufs bs ! i) = Some (mypid bs) \<and> b_refcnt (bufs bs ! i) = 1 \<and>
          b_valid (bufs bs ! i) \<and> b_dev (bufs bs ! i) = 1
        else b_lock (bufs bs ! i) = None \<and> b_refcnt (bufs bs ! i) = 0)"

text \<open>The content of a block as the kernel sees it: its buffer's if it has a valid one, else the disk's.\<close>

definition buf_of :: "bcache \<Rightarrow> u32 \<Rightarrow> nat option" where
  "buf_of bs n = find (\<lambda>i. b_dev (bufs bs ! i) = 1 \<and> b_blockno (bufs bs ! i) = n \<and> b_valid (bufs bs ! i)) [0..<NBUF]"

definition view :: "bcache \<Rightarrow> u32 \<Rightarrow> byte list" where
  "view bs n = (case buf_of bs n of Some i \<Rightarrow> b_data (bufs bs ! i) | None \<Rightarrow> memdisk bs ! unat n)"

definition dirty_blocks :: "bcache \<Rightarrow> u32 set" where
  "dirty_blocks bs = {b_blockno (bufs bs ! i) | i. i < NBUF \<and> b_dirty (bufs bs ! i)}"

definition clean_bufs :: "bcache \<Rightarrow> nat set \<Rightarrow> nat set" where
  "clean_bufs bs H = {i. i < NBUF \<and> i \<notin> H \<and> \<not> b_dirty (bufs bs ! i)}"

lemma set_buf_sel [simp]:
  "bufs (set_buf bs i f) = (bufs bs)[i := f (bufs bs ! i)]"
  "lru (set_buf bs i f) = lru bs" "memdisk (set_buf bs i f) = memdisk bs"
  "trace (set_buf bs i f) = trace bs" "mypid (set_buf bs i f) = mypid bs"
  by (simp_all add: set_buf_def)

lemma set_bufs_eqI:
  fixes b b' :: buf
  assumes "b_valid b = b_valid b'" "b_dirty b = b_dirty b'" "b_dev b = b_dev b'" "b_blockno b = b_blockno b'"
    "b_lock b = b_lock b'" "b_refcnt b = b_refcnt b'" "b_data b = b_data b'"
  shows "bs\<lparr>bufs := (bufs bs)[i := b]\<rparr> = bs\<lparr>bufs := (bufs bs)[i := b']\<rparr>"
  using buf.equality [OF assms] by simp

lemma bio_invD:
  assumes "bio_inv bs H"
  shows "length (bufs bs) = NBUF" "set (lru bs) = {..<NBUF}" "finite H"
    "i < NBUF \<Longrightarrow> buf_ok bs i" "i \<in> H \<Longrightarrow> i < NBUF" "d \<in> set (memdisk bs) \<Longrightarrow> length d = BSIZE"
    "i \<in> H \<Longrightarrow> b_lock (bufs bs ! i) = Some (mypid bs)" "i \<in> H \<Longrightarrow> b_refcnt (bufs bs ! i) = 1"
    "i \<in> H \<Longrightarrow> b_valid (bufs bs ! i)" "i \<in> H \<Longrightarrow> b_dev (bufs bs ! i) = 1"
    "i < NBUF \<Longrightarrow> i \<notin> H \<Longrightarrow> b_lock (bufs bs ! i) = None"
    "i < NBUF \<Longrightarrow> i \<notin> H \<Longrightarrow> b_refcnt (bufs bs ! i) = 0"
  using assms unfolding bio_inv_def by (auto intro: finite_subset)

lemma bio_inv_uniq:
  "bio_inv bs H \<Longrightarrow> i < NBUF \<Longrightarrow> j < NBUF \<Longrightarrow> b_dev (bufs bs ! i) = 1 \<Longrightarrow> b_dev (bufs bs ! j) = 1 \<Longrightarrow>
   b_blockno (bufs bs ! i) = b_blockno (bufs bs ! j) \<Longrightarrow> i = j"
  unfolding bio_inv_def by blast

lemma buf_of_SomeD:
  "buf_of bs n = Some i \<Longrightarrow> i < NBUF \<and> b_dev (bufs bs ! i) = 1 \<and> b_blockno (bufs bs ! i) = n \<and> b_valid (bufs bs ! i)"
  unfolding buf_of_def by (drule find_SomeD) simp

lemma buf_of_Some:
  assumes "bio_inv bs H"
  shows "buf_of bs n = Some i \<longleftrightarrow>
    i < NBUF \<and> b_dev (bufs bs ! i) = 1 \<and> b_blockno (bufs bs ! i) = n \<and> b_valid (bufs bs ! i)"
proof (rule iffI)
  assume i: "i < NBUF \<and> b_dev (bufs bs ! i) = 1 \<and> b_blockno (bufs bs ! i) = n \<and> b_valid (bufs bs ! i)"
  then show "buf_of bs n = Some i"
    unfolding buf_of_def using bio_inv_uniq [OF assms, of _ i] by (intro find_unique) simp_all
qed (rule buf_of_SomeD)

lemma view_buffered:
  "bio_inv bs H \<Longrightarrow> i < NBUF \<Longrightarrow> b_dev (bufs bs ! i) = 1 \<Longrightarrow> b_valid (bufs bs ! i) \<Longrightarrow>
   view bs (b_blockno (bufs bs ! i)) = b_data (bufs bs ! i)"
  using buf_of_Some [of bs H "b_blockno (bufs bs ! i)" i] by (simp add: view_def)

lemma view_unbuffered:
  assumes "\<And>i. i < NBUF \<Longrightarrow> b_dev (bufs bs ! i) = 1 \<Longrightarrow> b_valid (bufs bs ! i) \<Longrightarrow> b_blockno (bufs bs ! i) \<noteq> n"
  shows "view bs n = memdisk bs ! unat n"
proof (cases "buf_of bs n")
  case (Some i)
  then show ?thesis using assms [of i] buf_of_SomeD [of bs n i] by blast
qed (simp add: view_def)

lemma view_clean:
  assumes inv: "bio_inv bs H" and nd: "n \<notin> dirty_blocks bs" and nh: "\<forall>j\<in>H. b_blockno (bufs bs ! j) \<noteq> n"
  shows "view bs n = memdisk bs ! unat n"
proof (cases "buf_of bs n")
  case (Some i)
  then have i: "i < NBUF" "b_dev (bufs bs ! i) = 1" "b_blockno (bufs bs ! i) = n" "b_valid (bufs bs ! i)"
    using inv by (simp_all add: buf_of_Some)
  then have "\<not> b_dirty (bufs bs ! i)" "b_lock (bufs bs ! i) = None"
    using nd nh bio_invD(11) [OF inv, of i] by (auto simp: dirty_blocks_def)
  with i bio_invD(4) [OF inv, of i] Some show ?thesis
    by (simp add: view_def buf_ok_def Let_def)
qed (simp add: view_def)

lemma length_view:
  assumes "bio_inv bs H" "unat n < length (memdisk bs)"
  shows "length (view bs n) = BSIZE"
proof (cases "buf_of bs n")
  case None
  then show ?thesis using assms bio_invD(6) [OF assms(1) nth_mem] by (simp add: view_def)
next
  case (Some i)
  then have "buf_ok bs i" using bio_invD(4) [OF assms(1)] buf_of_SomeD by blast
  with Some show ?thesis by (simp add: view_def buf_ok_def Let_def)
qed

text \<open>The buffers in use are counted by the blocks they hold.\<close>

lemma card_dirty_bufs:
  assumes "bio_inv bs H"
  shows "card {i. i < NBUF \<and> b_dirty (bufs bs ! i)} = card (dirty_blocks bs)"
proof -
  have "dirty_blocks bs = (\<lambda>i. b_blockno (bufs bs ! i)) ` {i. i < NBUF \<and> b_dirty (bufs bs ! i)}"
    by (auto simp: dirty_blocks_def)
  moreover have "inj_on (\<lambda>i. b_blockno (bufs bs ! i)) {i. i < NBUF \<and> b_dirty (bufs bs ! i)}"
    using bio_inv_uniq [OF assms] bio_invD(4) [OF assms] by (auto simp: inj_on_def buf_ok_def Let_def)
  ultimately show ?thesis by (simp add: card_image)
qed

lemma clean_buf_exists:
  assumes inv: "bio_inv bs H" and room: "card H + card (dirty_blocks bs) < NBUF"
  shows "\<exists>i<NBUF. i \<notin> H \<and> \<not> b_dirty (bufs bs ! i)"
proof (rule ccontr)
  let ?D = "{i. i < NBUF \<and> b_dirty (bufs bs ! i)}"
  assume "\<not> ?thesis"
  then have "{..<NBUF} \<subseteq> H \<union> ?D" by auto
  then have "card {..<NBUF} \<le> card (H \<union> ?D)"
    by (rule card_mono [rotated]) (simp add: bio_invD(3) [OF inv])
  also have "\<dots> \<le> card H + card ?D" by (rule card_Un_le)
  finally show False using room card_dirty_bufs [OF inv] by simp
qed

section \<open>What the operations do\<close>

text \<open>The invariant after one buffer and the block it holds on the disk have changed.\<close>

lemma bio_inv_update:
  assumes inv: "bio_inv bs H" and i: "i < NBUF"
    and bs': "bufs bs' = (bufs bs)[i := b']" "mypid bs' = mypid bs" "distinct (lru bs')" "set (lru bs') = set (lru bs)"
    and disk: "length (memdisk bs') = length (memdisk bs)" "\<forall>d\<in>set (memdisk bs'). length d = BSIZE"
      "\<And>m. m \<noteq> b_blockno b' \<Longrightarrow> memdisk bs' ! unat m = memdisk bs ! unat m"
    and b': "buf_ok bs' i" "b_dev b' = 1"
    and only: "\<And>j. j < NBUF \<Longrightarrow> j \<noteq> i \<Longrightarrow> b_dev (bufs bs ! j) = 1 \<Longrightarrow> b_blockno (bufs bs ! j) \<noteq> b_blockno b'"
    and H': "\<And>j. j \<noteq> i \<Longrightarrow> j \<in> H' \<longleftrightarrow> j \<in> H"
      "if i \<in> H' then b_lock b' = Some (mypid bs) \<and> b_refcnt b' = 1 \<and> b_valid b'
       else b_lock b' = None \<and> b_refcnt b' = 0"
  shows "bio_inv bs' H'"
proof -
  have len: "length (bufs bs) = NBUF" using bio_invD(1) [OF inv] .
  have nth: "bufs bs' ! j = (if j = i then b' else bufs bs ! j)" if "j < NBUF" for j
    using that i len by (simp add: bs')
  have ok: "buf_ok bs' j" if "j < NBUF" for j
  proof (cases "j = i")
    case False
    then show ?thesis
      using bio_invD(4) [OF inv that] only [OF that False] disk(1) disk(3)
      by (auto simp: buf_ok_def Let_def nth that)
  qed (use b' in simp)
  have uniq: "j = k" if "j < NBUF" "k < NBUF" "b_dev (bufs bs' ! j) = 1" "b_dev (bufs bs' ! k) = 1"
    "b_blockno (bufs bs' ! j) = b_blockno (bufs bs' ! k)" for j k
    using that only [of j] only [of k] bio_inv_uniq [OF inv, of j k] by (auto simp: nth split: if_splits)
  have held: "if j \<in> H' then b_lock (bufs bs' ! j) = Some (mypid bs') \<and> b_refcnt (bufs bs' ! j) = 1 \<and>
      b_valid (bufs bs' ! j) \<and> b_dev (bufs bs' ! j) = 1
    else b_lock (bufs bs' ! j) = None \<and> b_refcnt (bufs bs' ! j) = 0" if "j < NBUF" for j
    using that H'(1) [of j] H'(2) b'(2) bio_invD(7-12) [OF inv, of j] by (simp add: nth bs'(2))
  have "H' \<subseteq> {..<NBUF}" using H'(1) i bio_invD(5) [OF inv] by (metis lessThan_iff subsetI)
  moreover have "length (bufs bs') = NBUF" "set (lru bs') = {..<NBUF}"
    using len bs'(1,4) bio_invD(2) [OF inv] by simp_all
  ultimately show ?thesis
    using disk(2) bs'(3) ok uniq held unfolding bio_inv_def by blast
qed

lemma view_update:
  assumes inv: "bio_inv bs H" and inv': "bio_inv bs' H'" and i: "i < NBUF"
    and bs': "bufs bs' = (bufs bs)[i := b']" and b': "b_dev b' = 1" "b_valid b'"
    and disk: "\<And>m. m \<noteq> b_blockno b' \<Longrightarrow> memdisk bs' ! unat m = memdisk bs ! unat m"
    and old: "b_dev (bufs bs ! i) = 1 \<Longrightarrow> b_valid (bufs bs ! i) \<Longrightarrow> b_blockno (bufs bs ! i) \<noteq> b_blockno b' \<Longrightarrow>
      b_data (bufs bs ! i) = memdisk bs ! unat (b_blockno (bufs bs ! i))"
  shows "view bs' = (view bs)(b_blockno b' := b_data b')"
proof
  fix n
  have nth: "bufs bs' ! j = (if j = i then b' else bufs bs ! j)" if "j < NBUF" for j
    using that i bio_invD(1) [OF inv] by (simp add: bs')
  consider "n = b_blockno b'" | j where "n \<noteq> b_blockno b'" "buf_of bs n = Some j" "j \<noteq> i"
    | "n \<noteq> b_blockno b'" "buf_of bs n = Some i" | "n \<noteq> b_blockno b'" "buf_of bs n = None"
    by (cases "buf_of bs n") blast+
  then show "view bs' n = ((view bs)(b_blockno b' := b_data b')) n"
  proof cases
    case 1
    then show ?thesis using view_buffered [OF inv' i] b' by (simp add: nth [OF i])
  next
    case 2
    then have j: "j < NBUF" and same: "bufs bs' ! j = bufs bs ! j" using buf_of_SomeD [of bs n j] nth by simp_all
    have "buf_of bs' n = Some j"
      unfolding buf_of_Some [OF inv'] same using buf_of_SomeD [OF 2(2)] .
    with 2 same show ?thesis by (simp add: view_def)
  next
    case 3
    have "view bs' n = memdisk bs' ! unat n"
    proof (rule view_unbuffered)
      fix j assume "j < NBUF" "b_dev (bufs bs' ! j) = 1" "b_valid (bufs bs' ! j)"
      then show "b_blockno (bufs bs' ! j) \<noteq> n"
        using 3(1) bio_inv_uniq [OF inv i, of j] buf_of_SomeD [OF 3(2)] nth [of j] by (cases "j = i") auto
    qed
    moreover have "b_data (bufs bs ! i) = memdisk bs ! unat n" using buf_of_SomeD [OF 3(2)] old 3(1) by auto
    ultimately show ?thesis using 3 disk by (simp add: view_def)
  next
    case 4
    have "view bs' n = memdisk bs' ! unat n"
    proof (rule view_unbuffered)
      fix j assume "j < NBUF" "b_dev (bufs bs' ! j) = 1" "b_valid (bufs bs' ! j)"
      then show "b_blockno (bufs bs' ! j) \<noteq> n"
        using 4 buf_of_Some [OF inv, of n j] nth [of j] by (cases "j = i") auto
    qed
    then show ?thesis using 4 disk by (simp add: view_def)
  qed
qed

lemma dirty_update:
  assumes inv: "bio_inv bs H" and i: "i < NBUF" and bs': "bufs bs' = (bufs bs)[i := b']"
    and only: "\<And>j. j < NBUF \<Longrightarrow> j \<noteq> i \<Longrightarrow> b_dirty (bufs bs ! j) \<Longrightarrow> b_blockno (bufs bs ! j) \<noteq> b_blockno b'"
    and old: "b_dirty (bufs bs ! i) \<Longrightarrow> b_blockno (bufs bs ! i) = b_blockno b'"
  shows "dirty_blocks bs' = (if b_dirty b' then insert (b_blockno b') (dirty_blocks bs)
    else dirty_blocks bs - {b_blockno b'})"
proof -
  have nth: "bufs bs' ! j = (if j = i then b' else bufs bs ! j)" if "j < NBUF" for j
    using that i bio_invD(1) [OF inv] by (simp add: bs')
  have mem: "n \<in> dirty_blocks b \<longleftrightarrow> (\<exists>j<NBUF. b_dirty (bufs b ! j) \<and> b_blockno (bufs b ! j) = n)" for b n
    by (auto simp: dirty_blocks_def)
  have char: "n \<in> dirty_blocks bs' \<longleftrightarrow> (if n = b_blockno b' then b_dirty b' else n \<in> dirty_blocks bs)" for n
  proof (cases "n = b_blockno b'")
    case True
    then show ?thesis unfolding mem using i nth only by (metis (full_types))
  next
    case False
    then show ?thesis unfolding mem using i nth old by (metis (full_types))
  qed
  show ?thesis by (rule set_eqI) (simp add: char)
qed

text \<open>Which buffer \<^verbatim>\<open>bread\<close> returns, and what is in it.\<close>

lemma bget_cases:
  assumes inv: "bio_inv bs H" and free: "\<forall>j\<in>H. b_blockno (bufs bs ! j) \<noteq> n"
    and room: "card H + card (dirty_blocks bs) < NBUF"
  obtains (hit) i where "i < NBUF" "i \<notin> H" "b_dev (bufs bs ! i) = 1" "b_blockno (bufs bs ! i) = n"
      "bget bs 1 n = Ok (i, set_buf bs i (\<lambda>b. b\<lparr>b_refcnt := 1, b_lock := Some (mypid bs)\<rparr>))"
  | (miss) i where "i < NBUF" "i \<notin> H" "\<not> b_dirty (bufs bs ! i)"
      "\<And>j. j < NBUF \<Longrightarrow> b_dev (bufs bs ! j) = 1 \<Longrightarrow> b_blockno (bufs bs ! j) \<noteq> n"
      "bget bs 1 n = Ok (i, set_buf bs i (\<lambda>b. b\<lparr>b_dev := 1, b_blockno := n, b_valid := False, b_dirty := False,
         b_refcnt := 1, b_lock := Some (mypid bs)\<rparr>))"
proof (cases "find (\<lambda>i. b_dev (bufs bs ! i) = 1 \<and> b_blockno (bufs bs ! i) = n) (lru bs)")
  case (Some i)
  then have i: "i < NBUF" "b_dev (bufs bs ! i) = 1" "b_blockno (bufs bs ! i) = n"
    using find_SomeD [OF Some] bio_invD(2) [OF inv] by auto
  moreover have "i \<notin> H" using free i by blast
  moreover have "bget bs 1 n = Ok (i, set_buf bs i (\<lambda>b. b\<lparr>b_refcnt := 1, b_lock := Some (mypid bs)\<rparr>))"
    using i bio_invD(11,12) [OF inv i(1) \<open>i \<notin> H\<close>] bio_invD(1) [OF inv] Some
    by (simp add: bget_def acquiresleep_def set_buf_def)
  ultimately show ?thesis by (intro hit)
next
  case None
  have other: "b_blockno (bufs bs ! j) \<noteq> n" if "j < NBUF" "b_dev (bufs bs ! j) = 1" for j
    using find_NoneD [OF None, of j] that bio_invD(2) [OF inv] by auto
  obtain k where "k < NBUF" "k \<notin> H" "\<not> b_dirty (bufs bs ! k)" using clean_buf_exists [OF inv room] by blast
  then have "k \<in> set (rev (lru bs))" "b_refcnt (bufs bs ! k) = 0 \<and> \<not> b_dirty (bufs bs ! k)"
    using bio_invD(2,12) [OF inv] by auto
  from find_ex [where P = "\<lambda>i. b_refcnt (bufs bs ! i) = 0 \<and> \<not> b_dirty (bufs bs ! i)", OF this] obtain i where
    i: "find (\<lambda>i. b_refcnt (bufs bs ! i) = 0 \<and> \<not> b_dirty (bufs bs ! i)) (rev (lru bs)) = Some i"
      "i \<in> set (rev (lru bs))" "b_refcnt (bufs bs ! i) = 0 \<and> \<not> b_dirty (bufs bs ! i)" by blast
  have lt: "i < NBUF" using i(2) bio_invD(2) [OF inv] by auto
  have nh: "i \<notin> H" using i(3) bio_invD(8) [OF inv, of i] by auto
  have "bget bs 1 n = Ok (i, set_buf bs i (\<lambda>b. b\<lparr>b_dev := 1, b_blockno := n, b_valid := False, b_dirty := False,
         b_refcnt := 1, b_lock := Some (mypid bs)\<rparr>))"
    using lt bio_invD(11) [OF inv lt nh] bio_invD(1) [OF inv] None i(1)
    by (simp add: bget_def acquiresleep_def set_buf_def)
  with lt nh i(3) other show ?thesis by (intro miss) auto
qed

lemma bread_form:
  assumes inv: "bio_inv bs H" and free: "\<forall>j\<in>H. b_blockno (bufs bs ! j) \<noteq> n"
    and room: "card H + card (dirty_blocks bs) < NBUF" and n: "unat n < length (memdisk bs)"
  obtains i b' where "bread bs 1 n = Ok (i, set_buf bs i (\<lambda>_. b'))" "i < NBUF" "i \<notin> H"
    "b_valid b'" "b_dev b' = 1" "b_blockno b' = n" "b_lock b' = Some (mypid bs)" "b_refcnt b' = 1"
    "b_data b' = view bs n" "b_dirty b' = b_dirty (bufs bs ! i)"
    "\<forall>j<NBUF. j \<noteq> i \<longrightarrow> b_dev (bufs bs ! j) = 1 \<longrightarrow> b_blockno (bufs bs ! j) \<noteq> n"
    "b_dev (bufs bs ! i) = 1 \<longrightarrow> b_blockno (bufs bs ! i) = n \<or> \<not> b_dirty (bufs bs ! i)"
  using inv free room
proof (cases rule: bget_cases)
  case (hit i)
  let ?b = "bufs bs ! i"
  let ?b' = "?b\<lparr>b_valid := True, b_lock := Some (mypid bs), b_refcnt := 1, b_data := view bs n\<rparr>"
  have len: "length (bufs bs) = NBUF" using bio_invD(1) [OF inv] .
  have ok: "buf_ok bs i" using bio_invD(4) [OF inv hit(1)] .
  have "bread bs 1 n = Ok (i, set_buf bs i (\<lambda>_. ?b'))"
  proof (cases "b_valid ?b")
    case True
    then have "b_data ?b = view bs n" using view_buffered [OF inv hit(1,3)] hit by simp
    with True show ?thesis using hit len by (simp add: bread_def set_buf_def) (rule set_bufs_eqI; simp)
  next
    case False
    then have "\<not> b_dirty ?b" using ok by (simp add: buf_ok_def Let_def)
    moreover have "view bs n = memdisk bs ! unat n"
      using False hit bio_inv_uniq [OF inv hit(1)] by (intro view_unbuffered) metis
    ultimately show ?thesis
      using False hit len n by (simp add: bread_def set_buf_def iderw_def holdingsleep_def Let_def) (rule set_bufs_eqI; simp)
  qed
  moreover have "b_blockno (bufs bs ! j) \<noteq> n" if "j < NBUF" "j \<noteq> i" "b_dev (bufs bs ! j) = 1" for j
    using bio_inv_uniq [OF inv hit(1), of j] that hit by auto
  ultimately show ?thesis using that [of i ?b'] hit by simp
next
  case (miss i)
  let ?b' = "(bufs bs ! i)\<lparr>b_valid := True, b_dirty := False, b_dev := 1, b_blockno := n,
    b_lock := Some (mypid bs), b_refcnt := 1, b_data := view bs n\<rparr>"
  have len: "length (bufs bs) = NBUF" using bio_invD(1) [OF inv] .
  have "view bs n = memdisk bs ! unat n" using miss(4) by (intro view_unbuffered) auto
  then have "bread bs 1 n = Ok (i, set_buf bs i (\<lambda>_. ?b'))"
    using miss len n by (simp add: bread_def set_buf_def iderw_def holdingsleep_def Let_def) (rule set_bufs_eqI; simp)
  with miss show ?thesis using that [of i ?b'] by simp
qed

section \<open>The contract of the cache\<close>

text \<open>
  What a client of the cache sees: the content of every block, what is on the disk, the writes that
  reached it, and which blocks the cache must keep because they are dirty. The four operations of the
  contract are stated on this view.
\<close>

record blocks =
  seen :: "u32 \<Rightarrow> byte list"
  ondisk :: "u32 \<Rightarrow> byte list"
  written :: "(u32 \<times> byte list) list"
  pinned :: "u32 set"
  nblocks :: nat

definition put_spec :: "u32 \<Rightarrow> byte list \<Rightarrow> blocks \<Rightarrow> blocks" where
  "put_spec n d a = a\<lparr>seen := (seen a)(n := d)\<rparr>"

definition flush_spec :: "u32 \<Rightarrow> blocks \<Rightarrow> blocks" where
  "flush_spec n a = a\<lparr>ondisk := (ondisk a)(n := seen a n), written := written a @ [(n, seen a n)], pinned := pinned a - {n}\<rparr>"

definition pin_spec :: "u32 \<Rightarrow> blocks \<Rightarrow> blocks" where
  "pin_spec n a = a\<lparr>pinned := insert n (pinned a)\<rparr>"

lemmas block_specs = put_spec_def flush_spec_def pin_spec_def

locale block_cache =
  fixes inv :: "'s \<Rightarrow> nat set \<Rightarrow> bool"
    and spec :: "'s \<Rightarrow> blocks"
    and blk :: "'s \<Rightarrow> nat \<Rightarrow> u32"
    and content :: "'s \<Rightarrow> nat \<Rightarrow> byte list"
    and rd :: "'s \<Rightarrow> u32 \<Rightarrow> (nat \<times> 's) outcome"
    and put :: "'s \<Rightarrow> nat \<Rightarrow> byte list \<Rightarrow> 's"
    and pin :: "'s \<Rightarrow> nat \<Rightarrow> 's"
    and wr :: "'s \<Rightarrow> nat \<Rightarrow> 's outcome"
    and rel :: "'s \<Rightarrow> nat \<Rightarrow> 's outcome"
  assumes rd_law: "inv s H \<Longrightarrow> unat n < nblocks (spec s) \<Longrightarrow> \<forall>j\<in>H. blk s j \<noteq> n \<Longrightarrow>
      card H + card (pinned (spec s)) < NBUF \<Longrightarrow>
      \<exists>i s'. rd s n = Ok (i, s') \<and> i \<notin> H \<and> inv s' (insert i H) \<and> spec s' = spec s \<and> blk s' i = n \<and>
        (\<forall>j\<in>H. blk s' j = blk s j)"
    and content_law: "inv s H \<Longrightarrow> i \<in> H \<Longrightarrow> content s i = seen (spec s) (blk s i)"
    and put_law: "inv s H \<Longrightarrow> i \<in> H \<Longrightarrow> length d = BSIZE \<Longrightarrow>
      inv (put s i d) H \<and> spec (put s i d) = put_spec (blk s i) d (spec s) \<and> blk (put s i d) = blk s"
    and pin_law: "inv s H \<Longrightarrow> i \<in> H \<Longrightarrow>
      inv (pin s i) H \<and> spec (pin s i) = pin_spec (blk s i) (spec s) \<and> blk (pin s i) = blk s"
    and wr_law: "inv s H \<Longrightarrow> i \<in> H \<Longrightarrow>
      \<exists>s'. wr s i = Ok s' \<and> inv s' H \<and> spec s' = flush_spec (blk s i) (spec s) \<and> blk s' = blk s"
    and rel_law: "inv s H \<Longrightarrow> i \<in> H \<Longrightarrow> blk s i \<in> pinned (spec s) \<or> seen (spec s) (blk s i) = ondisk (spec s) (blk s i) \<Longrightarrow>
      \<exists>s'. rel s i = Ok s' \<and> inv s' (H - {i}) \<and> spec s' = spec s \<and> blk s' = blk s"
    and clean_law: "inv s H \<Longrightarrow> n \<notin> pinned (spec s) \<Longrightarrow> \<forall>j\<in>H. blk s j \<noteq> n \<Longrightarrow>
      seen (spec s) n = ondisk (spec s) n"
    and length_law: "inv s H \<Longrightarrow> unat n < nblocks (spec s) \<Longrightarrow> length (seen (spec s) n) = BSIZE"
    and finite_law: "inv s H \<Longrightarrow> finite H \<and> finite (pinned (spec s))"
begin

text \<open>Reading a block without changing it.\<close>

lemma read_block:
  assumes "inv s {}" "unat n < nblocks (spec s)" "card (pinned (spec s)) < NBUF"
  shows "\<exists>i s1 s2. rd s n = Ok (i, s1) \<and> content s1 i = seen (spec s) n \<and> rel s1 i = Ok s2 \<and> inv s2 {} \<and> spec s2 = spec s"
proof -
  obtain i s1 where 1: "rd s n = Ok (i, s1)" "inv s1 {i}" "spec s1 = spec s" "blk s1 i = n"
    using rd_law [OF assms(1,2)] assms(3) by auto
  have c: "n \<in> pinned (spec s) \<or> seen (spec s) n = ondisk (spec s) n"
    using clean_law [OF assms(1), of n] by auto
  have "content s1 i = seen (spec s) n" using content_law [OF 1(2)] 1 by simp
  with 1 c show ?thesis using rel_law [OF 1(2), of i] by auto
qed

text \<open>Reading, changing and writing through.\<close>

lemma write_block:
  assumes "inv s {}" "unat n < nblocks (spec s)" "card (pinned (spec s)) < NBUF" "length d = BSIZE"
  shows "\<exists>i s1 s2 s3. rd s n = Ok (i, s1) \<and> content s1 i = seen (spec s) n \<and> wr (put s1 i d) i = Ok s2 \<and>
    rel s2 i = Ok s3 \<and> inv s3 {} \<and> spec s3 = flush_spec n (put_spec n d (spec s))"
proof -
  obtain i s1 where 1: "rd s n = Ok (i, s1)" "inv s1 {i}" "spec s1 = spec s" "blk s1 i = n"
    using rd_law [OF assms(1,2)] assms(3) by auto
  have 2: "inv (put s1 i d) {i}" "spec (put s1 i d) = put_spec n d (spec s)" "blk (put s1 i d) i = n"
    using put_law [OF 1(2) _ assms(4)] 1 by auto
  obtain s2 where 3: "wr (put s1 i d) i = Ok s2" "inv s2 {i}" "spec s2 = flush_spec n (put_spec n d (spec s))" "blk s2 i = n"
    using wr_law [OF 2(1)] 2 by auto
  moreover have "content s1 i = seen (spec s) n" using content_law [OF 1(2)] 1 by simp
  ultimately show ?thesis using rel_law [OF 3(2), of i] 1 by (auto simp: block_specs)
qed

text \<open>Reading, changing and pinning, which is how a transaction changes a block.\<close>

lemma pin_block:
  assumes "inv s {}" "unat n < nblocks (spec s)" "card (pinned (spec s)) < NBUF" "length d = BSIZE"
  shows "\<exists>i s1 s2. rd s n = Ok (i, s1) \<and> content s1 i = seen (spec s) n \<and> blk (put s1 i d) i = n \<and>
    rel (pin (put s1 i d) i) i = Ok s2 \<and> inv s2 {} \<and> spec s2 = pin_spec n (put_spec n d (spec s))"
proof -
  obtain i s1 where 1: "rd s n = Ok (i, s1)" "inv s1 {i}" "spec s1 = spec s" "blk s1 i = n"
    using rd_law [OF assms(1,2)] assms(3) by auto
  have 2: "inv (put s1 i d) {i}" "spec (put s1 i d) = put_spec n d (spec s)" "blk (put s1 i d) = blk s1"
    using put_law [OF 1(2) _ assms(4)] 1 by auto
  have 3: "inv (pin (put s1 i d) i) {i}" "spec (pin (put s1 i d) i) = pin_spec n (put_spec n d (spec s))"
    "blk (pin (put s1 i d) i) i = n"
    using pin_law [OF 2(1)] 1 2 by auto
  moreover have "content s1 i = seen (spec s) n" using content_law [OF 1(2)] 1 by simp
  ultimately show ?thesis using rel_law [OF 3(1), of i] 1 2 by (auto simp: block_specs)
qed

text \<open>Reading two blocks and copying one over the other on the disk, in both directions.\<close>

lemma two_blocks:
  assumes "inv s {}" "unat a < nblocks (spec s)" "unat b < nblocks (spec s)" "a \<noteq> b" "1 + card (pinned (spec s)) < NBUF"
  obtains i s1 j s2 where "rd s a = Ok (i, s1)" "rd s1 b = Ok (j, s2)" "inv s2 {i, j}" "spec s2 = spec s"
    "blk s2 i = a" "blk s2 j = b" "i \<noteq> j"
proof -
  obtain i s1 where 1: "rd s a = Ok (i, s1)" "inv s1 {i}" "spec s1 = spec s" "blk s1 i = a"
    using rd_law [OF assms(1,2)] assms(5) by auto
  obtain j s2 where "rd s1 b = Ok (j, s2)" "j \<noteq> i" "inv s2 {i, j}" "spec s2 = spec s" "blk s2 j = b" "blk s2 i = a"
    using rd_law [OF 1(2), of b] assms 1 by (auto simp: insert_commute)
  with 1 show ?thesis using that by blast
qed

lemma copy_block:
  assumes inv2: "inv s2 {i, j}" "spec s2 = spec s" "i \<noteq> j" "blk s2 i = a" "blk s2 j = b"
    and base: "inv s {}" "unat a < nblocks (spec s)" "unat b < nblocks (spec s)" "a \<noteq> b"
  shows "\<exists>s3 s4 s5. wr (put s2 j (content s2 i)) j = Ok s3 \<and> rel s3 i = Ok s4 \<and> rel s4 j = Ok s5 \<and> inv s5 {} \<and>
    spec s5 = flush_spec b (put_spec b (seen (spec s) a) (spec s))"
proof -
  let ?p = "put s2 j (content s2 i)" and ?a = "flush_spec b (put_spec b (seen (spec s) a) (spec s))"
  have c: "content s2 i = seen (spec s) a" using content_law [OF inv2(1), of i] inv2 by simp
  have 1: "inv ?p {i, j}" "spec ?p = put_spec b (seen (spec s) a) (spec s)" "blk ?p = blk s2"
    using put_law [OF inv2(1), of j "content s2 i"] length_law [OF base(1,2)] c inv2 by auto
  obtain s3 where 2: "wr ?p j = Ok s3" "inv s3 {i, j}" "spec s3 = ?a" "blk s3 = blk s2"
    using wr_law [OF 1(1), of j] 1 inv2 by auto
  have "a \<in> pinned ?a \<or> seen ?a a = ondisk ?a a"
    using clean_law [OF base(1), of a] base(4) by (auto simp: block_specs)
  then obtain s4 where 3: "rel s3 i = Ok s4" "inv s4 ({i, j} - {i})" "spec s4 = ?a" "blk s4 = blk s2"
    using rel_law [OF 2(2), of i] 2 inv2 by auto
  have "{i, j} - {i} = {j}" using inv2(3) by auto
  then have 4: "inv s4 {j}" using 3(2) by simp
  moreover have "seen ?a b = ondisk ?a b" by (simp add: block_specs)
  ultimately obtain s5 where "rel s4 j = Ok s5" "inv s5 {}" "spec s5 = ?a"
    using rel_law [OF 4, of j] 3 inv2 by auto
  with 2 3 show ?thesis by blast
qed

end

section \<open>The buffer cache meets its contract\<close>

definition abs_bcache :: "bcache \<Rightarrow> blocks" where
  "abs_bcache bs = \<lparr> seen = view bs, ondisk = (\<lambda>n. memdisk bs ! unat n), written = trace bs,
     pinned = dirty_blocks bs, nblocks = length (memdisk bs) \<rparr>"

definition buf_block :: "bcache \<Rightarrow> nat \<Rightarrow> u32" where
  "buf_block bs i = b_blockno (bufs bs ! i)"

definition buf_data :: "bcache \<Rightarrow> nat \<Rightarrow> byte list" where
  "buf_data bs i = b_data (bufs bs ! i)"

text \<open>\<^verbatim>\<open>b->flags |= B_DIRTY\<close>, which keeps the buffer from being recycled.\<close>

definition set_dirty :: "bcache \<Rightarrow> nat \<Rightarrow> bcache" where
  "set_dirty bs i = set_buf bs i (\<lambda>b. b\<lparr>b_dirty := True\<rparr>)"

lemma bread_law:
  assumes "bio_inv bs H" "unat n < nblocks (abs_bcache bs)" "\<forall>j\<in>H. buf_block bs j \<noteq> n"
    "card H + card (pinned (abs_bcache bs)) < NBUF"
  shows "\<exists>i bs'. bread bs 1 n = Ok (i, bs') \<and> i \<notin> H \<and> bio_inv bs' (insert i H) \<and> abs_bcache bs' = abs_bcache bs \<and>
    buf_block bs' i = n \<and> (\<forall>j\<in>H. buf_block bs' j = buf_block bs j)"
proof -
  have n: "unat n < length (memdisk bs)" "card H + card (dirty_blocks bs) < NBUF" "\<forall>j\<in>H. b_blockno (bufs bs ! j) \<noteq> n"
    using assms by (simp_all add: abs_bcache_def buf_block_def)
  obtain i b' where rd: "bread bs 1 n = Ok (i, set_buf bs i (\<lambda>_. b'))" "i < NBUF" "i \<notin> H" and
    b': "b_valid b'" "b_dev b' = 1" "b_blockno b' = n" "b_lock b' = Some (mypid bs)" "b_refcnt b' = 1"
      "b_data b' = view bs n" "b_dirty b' = b_dirty (bufs bs ! i)" and
    only': "\<forall>j<NBUF. j \<noteq> i \<longrightarrow> b_dev (bufs bs ! j) = 1 \<longrightarrow> b_blockno (bufs bs ! j) \<noteq> n" and
    old: "b_dev (bufs bs ! i) = 1 \<longrightarrow> b_blockno (bufs bs ! i) = n \<or> \<not> b_dirty (bufs bs ! i)"
    using bread_form [OF assms(1) n(3,2,1)] by blast
  have only: "b_blockno (bufs bs ! j) \<noteq> n" if "j < NBUF" "j \<noteq> i" "b_dev (bufs bs ! j) = 1" for j
    using only' that by blast
  let ?bs = "set_buf bs i (\<lambda>_. b')"
  have len: "length (bufs bs) = NBUF" using bio_invD(1) [OF assms(1)] .
  have ok: "buf_ok bs j" if "j < NBUF" for j using bio_invD(4) [OF assms(1) that] .
  have inv: "bio_inv ?bs (insert i H)"
  proof (rule bio_inv_update [OF assms(1) rd(2), where b' = b'])
    show "buf_ok ?bs i"
      using b' n length_view [OF assms(1) n(1)] len rd(2) by (simp add: buf_ok_def Let_def)
  qed (use b' only assms(1) in \<open>auto simp: bio_inv_def\<close>)
  have unlocked: "b_data (bufs bs ! i) = memdisk bs ! unat (b_blockno (bufs bs ! i))"
    if "b_dev (bufs bs ! i) = 1" "b_valid (bufs bs ! i)" "b_blockno (bufs bs ! i) \<noteq> n"
    using ok [OF rd(2)] that old bio_invD(11) [OF assms(1) rd(2,3)] by (simp add: buf_ok_def Let_def)
  have v: "view ?bs = view bs"
    using view_update [OF assms(1) inv rd(2), of b'] b' unlocked by (simp add: fun_upd_idem)
  have d: "dirty_blocks ?bs = dirty_blocks bs"
  proof -
    have dev: "b_dirty (bufs bs ! j) \<Longrightarrow> b_dev (bufs bs ! j) = 1" if "j < NBUF" for j
      using ok [OF that] by (simp add: buf_ok_def Let_def)
    have "dirty_blocks ?bs = (if b_dirty b' then insert n (dirty_blocks bs) else dirty_blocks bs - {n})"
      using dirty_update [OF assms(1) rd(2), of ?bs b'] only old dev b' rd(2) by auto
    moreover have "b_dirty b'" if n: "n \<in> dirty_blocks bs"
    proof -
      obtain j where "j < NBUF" "b_dirty (bufs bs ! j)" "b_blockno (bufs bs ! j) = n"
        using n unfolding dirty_blocks_def by blast
      then show ?thesis using only [of j] dev [of j] b'(7) by (cases "j = i") auto
    qed
    moreover have "n \<in> dirty_blocks bs" if "b_dirty b'"
      using that b'(7) rd(2) old dev [OF rd(2)] by (auto simp: dirty_blocks_def)
    ultimately show ?thesis by auto
  qed
  from rd inv v d show ?thesis
    using len rd(2,3) b'(3) by (auto simp: abs_bcache_def buf_block_def nth_list_update)
qed

text \<open>The operations on a buffer that is held.\<close>

lemma held_update:
  assumes inv: "bio_inv bs H" and i: "i \<in> H" and bs': "bufs bs' = (bufs bs)[i := b']" "mypid bs' = mypid bs"
      "lru bs' = lru bs"
    and b': "b_dev b' = 1" "b_blockno b' = b_blockno (bufs bs ! i)" "b_valid b'" "b_lock b' = Some (mypid bs)"
      "b_refcnt b' = 1" "length (b_data b') = BSIZE"
    and disk: "memdisk bs' = memdisk bs \<or> memdisk bs' = (memdisk bs)[unat (b_blockno b') := b_data b']"
  shows "bio_inv bs' H" "view bs' = (view bs)(b_blockno (bufs bs ! i) := b_data b')"
    "dirty_blocks bs' = (if b_dirty b' then insert (b_blockno b') (dirty_blocks bs) else dirty_blocks bs - {b_blockno b'})"
    "buf_block bs' = buf_block bs" "length (memdisk bs') = length (memdisk bs)"
proof -
  have lt: "i < NBUF" and len: "length (bufs bs) = NBUF" using bio_invD(1,5) [OF inv] i by auto
  have dev: "b_dev (bufs bs ! i) = 1" using bio_invD(10) [OF inv i] .
  have only: "b_blockno (bufs bs ! j) \<noteq> b_blockno b'" if "j < NBUF" "j \<noteq> i" "b_dev (bufs bs ! j) = 1" for j
    using bio_inv_uniq [OF inv that(1) lt] that dev b'(2) by auto
  have d: "memdisk bs' ! unat m = memdisk bs ! unat m" if "m \<noteq> b_blockno b'" for m
    using disk that by (auto simp: word_unat_eq_iff)
  have n: "unat (b_blockno b') < length (memdisk bs)"
    using bio_invD(4) [OF inv lt] dev b'(2) by (simp add: buf_ok_def Let_def)
  show lm: "length (memdisk bs') = length (memdisk bs)" using disk by auto
  have "\<forall>d\<in>set (memdisk bs'). length d = BSIZE"
    using disk bio_invD(6) [OF inv] b'(6) set_update_subset_insert [of "memdisk bs" "unat (b_blockno b')" "b_data b'"] by auto
  moreover have "buf_ok bs' i" using b' n lm len lt bs'(1) by (simp add: buf_ok_def Let_def)
  ultimately show inv': "bio_inv bs' H"
    using inv bs' lm d b' only i
    by (intro bio_inv_update [OF inv lt, where b' = b']) (auto simp: bio_inv_def)
  show "view bs' = (view bs)(b_blockno (bufs bs ! i) := b_data b')"
    using view_update [OF inv inv' lt bs'(1)] b' d by simp
  have "b_dirty (bufs bs ! j) \<Longrightarrow> b_dev (bufs bs ! j) = 1" if "j < NBUF" for j
    using bio_invD(4) [OF inv that] by (simp add: buf_ok_def Let_def)
  then show "dirty_blocks bs' = (if b_dirty b' then insert (b_blockno b') (dirty_blocks bs) else dirty_blocks bs - {b_blockno b'})"
    using only b'(2) by (intro dirty_update [OF inv lt bs'(1)]) auto
  show "buf_block bs' = buf_block bs"
    using b'(2) lt len by (auto simp: buf_block_def bs'(1) nth_list_update fun_eq_iff)
qed

lemma held_buf:
  assumes "bio_inv bs H" "i \<in> H"
  shows "i < length (bufs bs)" "holdingsleep bs i" "length (b_data (bufs bs ! i)) = BSIZE"
    "unat (b_blockno (bufs bs ! i)) < length (memdisk bs)" "b_data (bufs bs ! i) = view bs (b_blockno (bufs bs ! i))"
proof -
  have i: "i < NBUF" using bio_invD(5) [OF assms] .
  with assms show "i < length (bufs bs)" "holdingsleep bs i"
    by (simp_all add: bio_invD(1,7) [OF assms(1)] holdingsleep_def)
  have "b_dev (bufs bs ! i) = 1" using bio_invD(10) [OF assms] .
  then show "length (b_data (bufs bs ! i)) = BSIZE" "unat (b_blockno (bufs bs ! i)) < length (memdisk bs)"
    using bio_invD(4) [OF assms(1) i] by (simp_all add: buf_ok_def Let_def)
  show "b_data (bufs bs ! i) = view bs (b_blockno (bufs bs ! i))"
    using view_buffered [OF assms(1) i] bio_invD(9,10) [OF assms] by simp
qed

lemma dirty_held:
  assumes "bio_inv bs H" "i \<in> H"
  shows "b_dirty (bufs bs ! i) \<longleftrightarrow> b_blockno (bufs bs ! i) \<in> dirty_blocks bs"
  using bio_inv_uniq [OF assms(1) bio_invD(5) [OF assms(1,2)]] bio_invD(4) [OF assms(1)] bio_invD(5,10) [OF assms(1,2)]
  by (auto simp: dirty_blocks_def buf_ok_def Let_def)

lemma put_data_law:
  assumes "bio_inv bs H" "i \<in> H" "length d = BSIZE"
  shows "bio_inv (put_data bs i d) H \<and>
    abs_bcache (put_data bs i d) = put_spec (buf_block bs i) d (abs_bcache bs) \<and> buf_block (put_data bs i d) = buf_block bs"
proof -
  let ?b = "(bufs bs ! i)\<lparr>b_data := d\<rparr>"
  note h = held_update [OF assms(1,2), of "put_data bs i d" ?b] bio_invD(7-10) [OF assms(1), of i]
  note dirty_held [OF assms(1,2)]
  then show ?thesis
    using h assms by (auto simp: put_data_def abs_bcache_def put_spec_def buf_block_def)
qed

lemma set_dirty_law:
  assumes "bio_inv bs H" "i \<in> H"
  shows "bio_inv (set_dirty bs i) H \<and> abs_bcache (set_dirty bs i) = pin_spec (buf_block bs i) (abs_bcache bs) \<and>
    buf_block (set_dirty bs i) = buf_block bs"
  using held_update [OF assms, of "set_dirty bs i" "(bufs bs ! i)\<lparr>b_dirty := True\<rparr>"] bio_invD(7-10) [OF assms(1), of i]
    held_buf [OF assms] assms
  by (auto simp: set_dirty_def abs_bcache_def pin_spec_def buf_block_def)

lemma bwrite_law:
  assumes "bio_inv bs H" "i \<in> H"
  shows "\<exists>bs'. bwrite bs i = Ok bs' \<and> bio_inv bs' H \<and> abs_bcache bs' = flush_spec (buf_block bs i) (abs_bcache bs) \<and>
    buf_block bs' = buf_block bs"
proof -
  let ?b = "bufs bs ! i"
  let ?bs = "set_buf (bs\<lparr>memdisk := (memdisk bs)[unat (b_blockno ?b) := b_data ?b],
    trace := trace bs @ [(b_blockno ?b, b_data ?b)]\<rparr>) i (\<lambda>b. b\<lparr>b_dirty := False, b_valid := True\<rparr>)"
  note held = held_buf [OF assms] bio_invD(7-10) [OF assms(1), of i]
  have "bwrite bs i = Ok ?bs"
    using held assms(2) by (simp add: bwrite_def iderw_def holdingsleep_def Let_def set_buf_def)
  moreover have "bio_inv ?bs H \<and> abs_bcache ?bs = flush_spec (buf_block bs i) (abs_bcache bs) \<and> buf_block ?bs = buf_block bs"
    using held_update [OF assms, of ?bs "?b\<lparr>b_dirty := False, b_valid := True\<rparr>"] held assms
    by (auto simp: abs_bcache_def flush_spec_def buf_block_def fun_eq_iff nth_list_update word_unat_eq_iff)
  ultimately show ?thesis by blast
qed

lemma brelse_law:
  assumes "bio_inv bs H" "i \<in> H"
    "buf_block bs i \<in> pinned (abs_bcache bs) \<or> seen (abs_bcache bs) (buf_block bs i) = ondisk (abs_bcache bs) (buf_block bs i)"
  shows "\<exists>bs'. brelse bs i = Ok bs' \<and> bio_inv bs' (H - {i}) \<and> abs_bcache bs' = abs_bcache bs \<and> buf_block bs' = buf_block bs"
proof -
  let ?b = "(bufs bs ! i)\<lparr>b_lock := None, b_refcnt := 0\<rparr>"
  let ?bs = "(set_buf bs i (\<lambda>_. ?b))\<lparr>lru := i # remove1 i (lru bs)\<rparr>"
  note held = held_buf [OF assms(1,2)] bio_invD(7-10) [OF assms(1), of i]
  have lt: "i < NBUF" using bio_invD(5) [OF assms(1,2)] .
  have "brelse bs i = Ok ?bs"
    using held assms(2) by (simp add: brelse_def releasesleep_def Let_def set_buf_def)
  moreover have dirty: "b_dirty (bufs bs ! i) \<longleftrightarrow> b_blockno (bufs bs ! i) \<in> dirty_blocks bs"
    by (rule dirty_held [OF assms(1,2)])
  have only: "b_blockno (bufs bs ! j) \<noteq> b_blockno ?b" if "j < NBUF" "j \<noteq> i" "b_dev (bufs bs ! j) = 1" for j
    using bio_inv_uniq [OF assms(1) that(1) lt] that held(9) assms(2) by auto
  have dev: "b_dirty (bufs bs ! j) \<Longrightarrow> b_dev (bufs bs ! j) = 1" if "j < NBUF" for j
    using bio_invD(4) [OF assms(1) that] by (simp add: buf_ok_def Let_def)
  have l: "distinct (lru bs)" using assms(1) by (simp add: bio_inv_def)
  have inv: "bio_inv ?bs (H - {i})"
  proof (rule bio_inv_update [OF assms(1) lt, where b' = ?b])
    show "buf_ok ?bs i"
      using bio_invD(4) [OF assms(1) lt] held assms(2,3) dirty
      by (auto simp: buf_ok_def Let_def abs_bcache_def buf_block_def)
  qed (use l lt only held(9) assms(2) bio_invD(2,6) [OF assms(1)] in \<open>simp_all add: insert_absorb\<close>)
  moreover have "view ?bs = view bs"
    using view_update [OF assms(1) inv lt, of ?b] held assms(2) by (simp add: fun_upd_idem)
  moreover have "dirty_blocks ?bs = dirty_blocks bs"
    using dirty_update [OF assms(1) lt, of ?bs ?b] only dev dirty by auto
  moreover have "buf_block ?bs = buf_block bs"
    using held(1) by (auto simp: buf_block_def nth_list_update fun_eq_iff)
  ultimately show ?thesis by (auto simp: abs_bcache_def)
qed

interpretation bio: block_cache bio_inv abs_bcache buf_block buf_data "\<lambda>bs. bread bs 1" put_data set_dirty bwrite brelse
proof
  fix bs H n assume "bio_inv bs H" "n \<notin> pinned (abs_bcache bs)" "\<forall>j\<in>H. buf_block bs j \<noteq> n"
  then show "seen (abs_bcache bs) n = ondisk (abs_bcache bs) n"
    using view_clean [of bs H n] by (simp add: abs_bcache_def buf_block_def)
next
  fix bs H assume inv: "bio_inv bs H"
  have "finite (dirty_blocks bs)" unfolding dirty_blocks_def by simp
  with inv show "finite H \<and> finite (pinned (abs_bcache bs))" by (simp add: bio_invD(3) abs_bcache_def)
next
  fix bs H i assume "bio_inv bs H" "i \<in> H"
  then show "buf_data bs i = seen (abs_bcache bs) (buf_block bs i)"
    using held_buf(5) [of bs H i] by (simp add: buf_data_def buf_block_def abs_bcache_def)
qed (use bread_law put_data_law set_dirty_law bwrite_law brelse_law length_view in \<open>auto simp: abs_bcache_def\<close>)

text \<open>The cache at the start of the kernel.\<close>

lemma binit_ok:
  assumes "\<forall>d\<in>set dl. length d = BSIZE"
  shows "bio_inv (binit dl pid) {}"
    "abs_bcache (binit dl pid) = \<lparr> seen = (\<lambda>n. dl ! unat n), ondisk = (\<lambda>n. dl ! unat n), written = [], pinned = {},
       nblocks = length dl \<rparr>"
proof -
  let ?bs = "binit dl pid"
  have b: "bufs ?bs ! i = zero_buf" if "i < NBUF" for i using that by (simp add: binit_def)
  have "foldl (\<lambda>l b. b # l) ys xs = rev xs @ ys" for xs ys :: "nat list" by (induction xs arbitrary: ys) auto
  then have l: "lru ?bs = rev [0..<NBUF]" by (simp add: binit_def)
  have f: "length (bufs ?bs) = NBUF" "memdisk ?bs = dl" "trace ?bs = []" by (simp_all add: binit_def)
  show inv: "bio_inv ?bs {}"
    using assms b l f by (simp add: bio_inv_def buf_ok_def Let_def zero_buf_def lessThan_atLeast0)
  have "view ?bs n = dl ! unat n" for n
    using view_unbuffered [of ?bs n] b f by (simp add: zero_buf_def)
  then show "abs_bcache ?bs = \<lparr> seen = (\<lambda>n. dl ! unat n), ondisk = (\<lambda>n. dl ! unat n), written = [], pinned = {},
      nblocks = length dl \<rparr>"
    using b f by (auto simp: abs_bcache_def dirty_blocks_def zero_buf_def fun_eq_iff)
qed

text \<open>
  C22: The cache refines an array of blocks. Reading a block, changing it, writing it and releasing it
  succeeds whenever a buffer is free, keeps the invariant of the cache, and acts on the contents that
  its clients see, on the disk and on the sequence of disk writes as the abstract write does: exactly
  this block changes, in the cache and on the disk, whichever buffer was recycled for it.
\<close>

theorem bio_write_refines:
  assumes "bio_inv bs {}" "unat n < length (memdisk bs)" "card (dirty_blocks bs) < NBUF" "length d = BSIZE"
  shows "\<exists>i s1 s2 s3. bread bs 1 n = Ok (i, s1) \<and> b_data (bufs s1 ! i) = view bs n \<and>
    bwrite (put_data s1 i d) i = Ok s2 \<and> brelse s2 i = Ok s3 \<and> bio_inv s3 {} \<and>
    abs_bcache s3 = flush_spec n (put_spec n d (abs_bcache bs))"
  using bio.write_block [of bs n d] assms by (simp add: abs_bcache_def buf_data_def)

text \<open>A disk of eight zero blocks, to run the operations on.\<close>

definition zero_disk :: "byte list list" where
  "zero_disk = replicate 8 (replicate 512 0)"

lemma zero_disk_ok: "\<forall>d\<in>set zero_disk. length d = BSIZE" "length zero_disk = 8" "k < 8 \<Longrightarrow> zero_disk ! k = replicate 512 0"
  by (simp_all add: zero_disk_def BSIZE_def)

theorem bio_write_refines_witness:
  "\<exists>i s1 s2 s3. bread (binit zero_disk 1) 1 5 = Ok (i, s1) \<and> bwrite (put_data s1 i (replicate 512 7)) i = Ok s2 \<and>
     brelse s2 i = Ok s3 \<and> seen (abs_bcache s3) 5 = replicate 512 7 \<and> trace s3 = [(5, replicate 512 7)]"
proof -
  note ok = binit_ok [OF zero_disk_ok(1), of 1]
  have "dirty_blocks (binit zero_disk 1) = {}" using ok(2) by (simp add: abs_bcache_def)
  moreover have "memdisk (binit zero_disk 1) = zero_disk" by (simp add: binit_def)
  ultimately obtain i s1 s2 s3 where r: "bread (binit zero_disk 1) 1 5 = Ok (i, s1)"
    "bwrite (put_data s1 i (replicate 512 7)) i = Ok s2" "brelse s2 i = Ok s3"
    "abs_bcache s3 = flush_spec 5 (put_spec 5 (replicate 512 7) (abs_bcache (binit zero_disk 1)))"
    using bio_write_refines [OF ok(1), of 5 "replicate 512 7"] by (auto simp: zero_disk_ok NBUF_def BSIZE_def)
  have "seen (abs_bcache s3) 5 = replicate 512 7" "written (abs_bcache s3) = [(5, replicate 512 7)]"
    unfolding r(4) ok(2) by (simp_all add: block_specs)
  with r(1-3) show ?thesis by (auto simp: abs_bcache_def)
qed

end
