(* ===== verification/Xv6_Log.thy ===== *)
theory Xv6_Log
  imports Xv6_Bio
begin

text \<open>
  The write-ahead log of xv6 (\<^verbatim>\<open>src/xv6/base/log.c\<close>) on the buffer cache: its operations, what a commit
  writes to the disk and in which order, and that a crash between any two of these writes leaves a
  disk from which recovery restores either the old or the new content of every block.
\<close>

section \<open>The code\<close>

definition MAXOPBLOCKS :: int where "MAXOPBLOCKS = 10"

definition LOGSIZE :: nat where "LOGSIZE = 30"

record superblock =
  sb_size :: u32
  sb_nblocks :: u32
  sb_ninodes :: u32
  sb_nlog :: u32
  sb_logstart :: u32
  sb_inodestart :: u32
  sb_bmapstart :: u32

definition superblock_of :: "byte list \<Rightarrow> superblock" where
  "superblock_of d = \<lparr> sb_size = word_at d 0, sb_nblocks = word_at d 4, sb_ninodes = word_at d 8, sb_nlog = word_at d 12,
     sb_logstart = word_at d 16, sb_inodestart = word_at d 20, sb_bmapstart = word_at d 24 \<rparr>"

definition readsb :: "bcache \<Rightarrow> u32 \<Rightarrow> (superblock \<times> bcache) outcome" where
  "readsb bs dev =
     andThen (bread bs dev 1) (\<lambda>(bp, bs).
       let sb = superblock_of (buf_data bs bp)
       in andThen (brelse bs bp) (\<lambda>bs. Ok (sb, bs)))"

text \<open>\<^verbatim>\<open>lh_n\<close> and \<^verbatim>\<open>lh_block\<close> are the header \<^verbatim>\<open>lh\<close>.\<close>

record log =
  l_start :: u32
  l_size :: u32
  l_outstanding :: int
  l_committing :: bool
  l_dev :: u32
  lh_n :: int
  lh_block :: "u32 list"

function install_loop :: "bcache \<Rightarrow> log \<Rightarrow> nat \<Rightarrow> bcache outcome" where
  "install_loop bs lg tail =
     (if int tail < lh_n lg
      then andThen (bread bs (l_dev lg) (l_start lg + of_nat tail + 1)) (\<lambda>(lbuf, bs).
           andThen (bread bs (l_dev lg) (lh_block lg ! tail)) (\<lambda>(dbuf, bs).
           andThen (bwrite (put_data bs dbuf (buf_data bs lbuf)) dbuf) (\<lambda>bs.
           andThen (brelse bs lbuf) (\<lambda>bs.
           andThen (brelse bs dbuf) (\<lambda>bs.
             install_loop bs lg (tail + 1))))))
      else Ok bs)"
  by pat_completeness auto
termination
  by (relation "measure (\<lambda>(_, lg, tail). nat (lh_n lg) - tail)") auto

declare install_loop.simps [simp del]

definition install_trans :: "bcache \<Rightarrow> log \<Rightarrow> bcache outcome" where
  "install_trans bs lg = install_loop bs lg 0"

definition read_head :: "bcache \<Rightarrow> log \<Rightarrow> (bcache \<times> log) outcome" where
  "read_head bs lg =
     andThen (bread bs (l_dev lg) (l_start lg)) (\<lambda>(buf, bs).
       let d = buf_data bs buf; n = sint (word_at d 0)
       in if int LOGSIZE < n then Fault ''log.lh.block''
          else andThen (brelse bs buf) (\<lambda>bs.
            Ok (bs, lg\<lparr>lh_n := n, lh_block := words_at d 4 (nat n) @ drop (nat n) (lh_block lg)\<rparr>)))"

definition write_head :: "bcache \<Rightarrow> log \<Rightarrow> bcache outcome" where
  "write_head bs lg =
     andThen (bread bs (l_dev lg) (l_start lg)) (\<lambda>(buf, bs).
       let hb = put_at (buf_data bs buf) 0 (le32 (of_int (lh_n lg)));
           hb = put_at hb 4 (concat (map le32 (take (nat (lh_n lg)) (lh_block lg))))
       in andThen (bwrite (put_data bs buf hb) buf) (\<lambda>bs. brelse bs buf))"

definition recover_from_log :: "bcache \<Rightarrow> log \<Rightarrow> (bcache \<times> log) outcome" where
  "recover_from_log bs lg =
     andThen (read_head bs lg) (\<lambda>(bs, lg).
     andThen (install_trans bs lg) (\<lambda>bs.
       let lg = lg\<lparr>lh_n := 0\<rparr>
       in andThen (write_head bs lg) (\<lambda>bs. Ok (bs, lg))))"

definition initlog :: "bcache \<Rightarrow> log \<Rightarrow> u32 \<Rightarrow> (bcache \<times> log) outcome" where
  "initlog bs lg dev =
     (if BSIZE \<le> 4 * (1 + LOGSIZE) then Panic ''initlog: too big logheader''
      else andThen (readsb bs dev) (\<lambda>(sb, bs).
        recover_from_log bs (lg\<lparr>l_start := sb_logstart sb, l_size := sb_nlog sb, l_dev := dev\<rparr>)))"

definition begin_op :: "log \<Rightarrow> log outcome" where
  "begin_op lg =
     (if l_committing lg then Sleep ''log''
      else if int LOGSIZE < lh_n lg + (l_outstanding lg + 1) * MAXOPBLOCKS then Sleep ''log''
      else Ok (lg\<lparr>l_outstanding := l_outstanding lg + 1\<rparr>))"

function write_log_loop :: "bcache \<Rightarrow> log \<Rightarrow> nat \<Rightarrow> bcache outcome" where
  "write_log_loop bs lg tail =
     (if int tail < lh_n lg
      then andThen (bread bs (l_dev lg) (l_start lg + of_nat tail + 1)) (\<lambda>(to, bs).
           andThen (bread bs (l_dev lg) (lh_block lg ! tail)) (\<lambda>(from, bs).
           andThen (bwrite (put_data bs to (buf_data bs from)) to) (\<lambda>bs.
           andThen (brelse bs from) (\<lambda>bs.
           andThen (brelse bs to) (\<lambda>bs.
             write_log_loop bs lg (tail + 1))))))
      else Ok bs)"
  by pat_completeness auto
termination
  by (relation "measure (\<lambda>(_, lg, tail). nat (lh_n lg) - tail)") auto

declare write_log_loop.simps [simp del]

definition write_log :: "bcache \<Rightarrow> log \<Rightarrow> bcache outcome" where
  "write_log bs lg = write_log_loop bs lg 0"

definition commit :: "bcache \<Rightarrow> log \<Rightarrow> (bcache \<times> log) outcome" where
  "commit bs lg =
     (if 0 < lh_n lg
      then andThen (write_log bs lg) (\<lambda>bs.
           andThen (write_head bs lg) (\<lambda>bs.
           andThen (install_trans bs lg) (\<lambda>bs.
             let lg = lg\<lparr>lh_n := 0\<rparr>
             in andThen (write_head bs lg) (\<lambda>bs. Ok (bs, lg)))))
      else Ok (bs, lg))"

definition end_op :: "bcache \<Rightarrow> log \<Rightarrow> (bcache \<times> log) outcome" where
  "end_op bs lg =
     (let lg = lg\<lparr>l_outstanding := l_outstanding lg - 1\<rparr>
      in if l_committing lg then Panic ''log.committing''
         else if l_outstanding lg = 0
         then andThen (commit bs (lg\<lparr>l_committing := True\<rparr>)) (\<lambda>(bs, lg). Ok (bs, lg\<lparr>l_committing := False\<rparr>))
         else Ok (bs, lg))"

text \<open>The index at which the loop of \<^verbatim>\<open>log_write\<close> stops.\<close>

definition log_slot :: "log \<Rightarrow> u32 \<Rightarrow> nat" where
  "log_slot lg b = length (takeWhile (\<lambda>x. x \<noteq> b) (take (nat (lh_n lg)) (lh_block lg)))"

definition log_write :: "bcache \<Rightarrow> log \<Rightarrow> nat \<Rightarrow> (bcache \<times> log) outcome" where
  "log_write bs lg b =
     (if int LOGSIZE \<le> lh_n lg \<or> sint (l_size lg) - 1 \<le> lh_n lg then Panic ''too big a transaction''
      else if l_outstanding lg < 1 then Panic ''log_write outside of trans''
      else let i = log_slot lg (buf_block bs b);
               lg = lg\<lparr>lh_block := (lh_block lg)[i := buf_block bs b]\<rparr>;
               lg = (if int i = lh_n lg then lg\<lparr>lh_n := lh_n lg + 1\<rparr> else lg)
           in Ok (set_dirty bs b, lg))"

section \<open>Sequences of writes\<close>

definition apply_writes :: "(u32 \<Rightarrow> byte list) \<Rightarrow> (u32 \<times> byte list) list \<Rightarrow> u32 \<Rightarrow> byte list" where
  "apply_writes D ws n = (case map_of (rev ws) n of Some d \<Rightarrow> d | None \<Rightarrow> D n)"

definition write_all :: "(u32 \<times> byte list) list \<Rightarrow> blocks \<Rightarrow> blocks" where
  "write_all ws a = a\<lparr>seen := apply_writes (seen a) ws, ondisk := apply_writes (ondisk a) ws,
     written := written a @ ws, pinned := pinned a - fst ` set ws\<rparr>"

lemma apply_writes_Nil [simp]: "apply_writes D [] = D"
  by (simp add: apply_writes_def fun_eq_iff)

lemma apply_writes_append: "apply_writes D (ws @ vs) = apply_writes (apply_writes D ws) vs"
  by (simp add: apply_writes_def fun_eq_iff map_add_def split: option.splits)

lemma apply_writes_single [simp]: "apply_writes D [(n, d)] = D(n := d)"
  by (simp add: apply_writes_def fun_eq_iff)

lemma apply_writes_other: "n \<notin> fst ` set ws \<Longrightarrow> apply_writes D ws n = D n"
proof -
  assume "n \<notin> fst ` set ws"
  then have "map_of (rev ws) n = None" by (simp add: map_of_eq_None_iff)
  then show ?thesis by (simp add: apply_writes_def)
qed

lemma apply_writes_hit:
  assumes "distinct (map fst ws)" "(n, d) \<in> set ws"
  shows "apply_writes D ws n = d"
proof -
  have "map_of (rev ws) n = Some d" using assms by (intro map_of_is_SomeI) (simp_all add: rev_map [symmetric])
  then show ?thesis by (simp add: apply_writes_def)
qed

lemma write_all_sel [simp]:
  "seen (write_all ws a) = apply_writes (seen a) ws" "ondisk (write_all ws a) = apply_writes (ondisk a) ws"
  "written (write_all ws a) = written a @ ws" "pinned (write_all ws a) = pinned a - fst ` set ws"
  "nblocks (write_all ws a) = nblocks a"
  by (simp_all add: write_all_def)

lemma write_all_Nil [simp]: "write_all [] a = a"
  by (simp add: write_all_def)

lemma write_all_append: "write_all vs (write_all ws a) = write_all (ws @ vs) a"
  by (simp add: write_all_def apply_writes_append image_Un Diff_eq Int_assoc)

lemma flush_put: "flush_spec n (put_spec n d a) = write_all [(n, d)] a"
  by (simp add: write_all_def flush_spec_def put_spec_def)

section \<open>The log and the blocks it holds\<close>

definition log_area :: "log \<Rightarrow> u32 set" where
  "log_area lg = {n. unat (l_start lg) \<le> unat n \<and> unat n < unat (l_start lg) + unat (l_size lg)}"

definition slot :: "log \<Rightarrow> nat \<Rightarrow> u32" where
  "slot lg t = l_start lg + of_nat t + 1"

text \<open>
  \<open>log_wf a lg bl\<close>: the header in memory lists the distinct blocks \<open>bl\<close>, all of them outside the log,
  the blocks kept in the cache are among them, and the log area has room for them.
\<close>

definition log_wf :: "blocks \<Rightarrow> log \<Rightarrow> u32 list \<Rightarrow> bool" where
  "log_wf a lg bl \<longleftrightarrow> l_dev lg = 1 \<and> length (lh_block lg) = LOGSIZE \<and> lh_n lg = int (length bl) \<and> length bl \<le> LOGSIZE \<and>
     take (length bl) (lh_block lg) = bl \<and> distinct bl \<and> pinned a \<subseteq> set bl \<and>
     (\<forall>b\<in>set bl. unat b < nblocks a \<and> b \<notin> log_area lg) \<and>
     Suc (length bl) \<le> unat (l_size lg) \<and> unat (l_start lg) + unat (l_size lg) \<le> nblocks a \<and> nblocks a < 2 ^ 31"

lemma log_wfD:
  assumes "log_wf a lg bl"
  shows "l_dev lg = 1" "lh_n lg = int (length bl)" "distinct bl" "t < length bl \<Longrightarrow> lh_block lg ! t = bl ! t"
    "b \<in> set bl \<Longrightarrow> unat b < nblocks a" "b \<in> set bl \<Longrightarrow> b \<notin> log_area lg" "length bl \<le> LOGSIZE"
    "take (length bl) (lh_block lg) = bl"
  using assms nth_take [of t "length bl" "lh_block lg"] by (auto simp: log_wf_def)

lemma log_wf_cong: "log_wf a lg bl \<Longrightarrow> pinned a' \<subseteq> pinned a \<Longrightarrow> nblocks a' = nblocks a \<Longrightarrow> log_wf a' lg bl"
  by (auto simp: log_wf_def)

lemma unat_slot:
  assumes "log_wf a lg bl" "t < length bl"
  shows "unat (slot lg t) = unat (l_start lg) + t + 1"
proof -
  have "unat (l_start lg) + t + 1 < 2 ^ 32" using assms by (auto simp: log_wf_def)
  then show ?thesis by (simp add: slot_def unat_word_ariths unat_of_nat)
qed

lemma slot_facts:
  assumes "log_wf a lg bl" "t < length bl"
  shows "slot lg t \<in> log_area lg" "unat (slot lg t) < nblocks a" "slot lg t \<noteq> l_start lg"
    "u < length bl \<Longrightarrow> slot lg t = slot lg u \<longleftrightarrow> t = u"
  using unat_slot [OF assms] unat_slot [OF assms(1), of u] assms
  by (auto simp: log_area_def log_wf_def word_unat_eq_iff)

lemma start_facts:
  assumes "log_wf a lg bl"
  shows "l_start lg \<in> log_area lg" "unat (l_start lg) < nblocks a"
  using assms by (auto simp: log_area_def log_wf_def)

lemma bl_not_slot: "log_wf a lg bl \<Longrightarrow> t < length bl \<Longrightarrow> u < length bl \<Longrightarrow> bl ! u \<noteq> slot lg t"
  using slot_facts(1) log_wfD(6) by (metis nth_mem)

text \<open>The writes of \<^verbatim>\<open>write_log\<close> and \<^verbatim>\<open>install_trans\<close> from index \<open>t\<close> on, given what the sources hold.\<close>

definition log_writes :: "(u32 \<Rightarrow> byte list) \<Rightarrow> log \<Rightarrow> u32 list \<Rightarrow> nat \<Rightarrow> (u32 \<times> byte list) list" where
  "log_writes D lg bl t = map (\<lambda>i. (slot lg i, D (bl ! i))) [t..<length bl]"

definition home_writes :: "(u32 \<Rightarrow> byte list) \<Rightarrow> log \<Rightarrow> u32 list \<Rightarrow> nat \<Rightarrow> (u32 \<times> byte list) list" where
  "home_writes D lg bl t = map (\<lambda>i. (bl ! i, D (slot lg i))) [t..<length bl]"

lemma slot_home_range:
  assumes "log_wf a lg bl" "t < length bl"
  shows "unat (slot lg t) < nblocks a" "unat (bl ! t) < nblocks a" "slot lg t \<noteq> bl ! t"
  using slot_facts(2) [OF assms] log_wfD(5) [OF assms(1)] bl_not_slot [OF assms(1,2,2)] assms(2) by auto

lemma slot_and_home:
  assumes "bio_inv bs {}" "log_wf (abs_bcache bs) lg bl" "card (pinned (abs_bcache bs)) + 1 < NBUF" "t < length bl"
  obtains i s1 j s2 where "bread bs 1 (slot lg t) = Ok (i, s1)" "bread s1 1 (bl ! t) = Ok (j, s2)" "bio_inv s2 {i, j}"
    "abs_bcache s2 = abs_bcache bs" "buf_block s2 i = slot lg t" "buf_block s2 j = bl ! t" "i \<noteq> j"
proof -
  have "1 + card (pinned (abs_bcache bs)) < NBUF" using assms(3) by simp
  from bio.two_blocks [OF assms(1) slot_home_range [OF assms(2,4)] this] show ?thesis using that by blast
qed

lemma room_after:
  assumes "bio_inv bs {}" "log_wf (abs_bcache bs) lg bl" "card (pinned (abs_bcache bs)) + 1 < NBUF"
  shows "log_wf (write_all ws (abs_bcache bs)) lg bl" "card (pinned (write_all ws (abs_bcache bs))) + 1 < NBUF"
proof -
  have "finite (pinned (abs_bcache bs))" using bio.finite_law [OF assms(1)] by simp
  then have "card (pinned (write_all ws (abs_bcache bs))) \<le> card (pinned (abs_bcache bs))"
    by (intro card_mono) auto
  then show "card (pinned (write_all ws (abs_bcache bs))) + 1 < NBUF" using assms(3) by simp
  show "log_wf (write_all ws (abs_bcache bs)) lg bl" by (rule log_wf_cong [OF assms(2)]) auto
qed

lemma write_log_loop_ok:
  assumes "bio_inv bs {}" "log_wf (abs_bcache bs) lg bl" "card (pinned (abs_bcache bs)) + 1 < NBUF"
  shows "\<exists>bs'. write_log_loop bs lg t = Ok bs' \<and> bio_inv bs' {} \<and>
    abs_bcache bs' = write_all (log_writes (seen (abs_bcache bs)) lg bl t) (abs_bcache bs)"
  using assms
proof (induction "length bl - t" arbitrary: t bs)
  case 0
  then show ?case by (auto simp: write_log_loop.simps [of bs lg t] log_writes_def log_wfD(2))
next
  case (Suc k)
  let ?a = "abs_bcache bs" and ?s = "slot lg t" and ?b = "bl ! t"
  have t: "t < length bl" and k: "k = length bl - (t + 1)" using Suc.hyps(2) by simp_all
  note wf = Suc.prems(2)
  obtain i s1 j s2 where two: "bread bs 1 ?s = Ok (i, s1)" "bread s1 1 ?b = Ok (j, s2)" "bio_inv s2 {i, j}"
    "abs_bcache s2 = ?a" "buf_block s2 i = ?s" "buf_block s2 j = ?b" "i \<noteq> j"
    by (rule slot_and_home [OF Suc.prems t])
  note rng = slot_home_range [OF wf t]
  obtain s3 s4 s5 where copy: "bwrite (put_data s2 i (buf_data s2 j)) i = Ok s3" "brelse s3 j = Ok s4" "brelse s4 i = Ok s5"
    "bio_inv s5 {}" "abs_bcache s5 = write_all [(?s, seen ?a ?b)] ?a"
    using bio.copy_block [of s2 j i bs ?b ?s] two rng Suc.prems(1) by (auto simp: insert_commute flush_put)
  have step: "write_log_loop bs lg t = write_log_loop s5 lg (t + 1)"
    using two copy t by (subst write_log_loop.simps) (simp add: log_wfD [OF wf] slot_def)
  have "log_wf (abs_bcache s5) lg bl" "card (pinned (abs_bcache s5)) + 1 < NBUF"
    unfolding copy(5) by (rule room_after [OF Suc.prems])+
  then obtain bs' where rec: "write_log_loop s5 lg (t + 1) = Ok bs'" "bio_inv bs' {}"
    "abs_bcache bs' = write_all (log_writes (seen (abs_bcache s5)) lg bl (t + 1)) (abs_bcache s5)"
    using Suc.hyps(1) [OF k copy(4)] by blast
  have "log_writes (seen (abs_bcache s5)) lg bl (t + 1) = log_writes (seen ?a) lg bl (t + 1)"
    unfolding log_writes_def copy(5) using bl_not_slot [OF wf t] by simp
  moreover have "log_writes (seen ?a) lg bl t = (?s, seen ?a ?b) # log_writes (seen ?a) lg bl (t + 1)"
    unfolding log_writes_def using t by (simp add: upt_conv_Cons)
  ultimately show ?case using rec step copy(5) by (simp add: write_all_append)
qed

lemma install_loop_ok:
  assumes "bio_inv bs {}" "log_wf (abs_bcache bs) lg bl" "card (pinned (abs_bcache bs)) + 1 < NBUF"
  shows "\<exists>bs'. install_loop bs lg t = Ok bs' \<and> bio_inv bs' {} \<and>
    abs_bcache bs' = write_all (home_writes (seen (abs_bcache bs)) lg bl t) (abs_bcache bs)"
  using assms
proof (induction "length bl - t" arbitrary: t bs)
  case 0
  then show ?case by (auto simp: install_loop.simps [of bs lg t] home_writes_def log_wfD(2))
next
  case (Suc k)
  let ?a = "abs_bcache bs" and ?s = "slot lg t" and ?b = "bl ! t"
  have t: "t < length bl" and k: "k = length bl - (t + 1)" using Suc.hyps(2) by simp_all
  note wf = Suc.prems(2)
  obtain i s1 j s2 where two: "bread bs 1 ?s = Ok (i, s1)" "bread s1 1 ?b = Ok (j, s2)" "bio_inv s2 {i, j}"
    "abs_bcache s2 = ?a" "buf_block s2 i = ?s" "buf_block s2 j = ?b" "i \<noteq> j"
    by (rule slot_and_home [OF Suc.prems t])
  note rng = slot_home_range [OF wf t]
  obtain s3 s4 s5 where copy: "bwrite (put_data s2 j (buf_data s2 i)) j = Ok s3" "brelse s3 i = Ok s4" "brelse s4 j = Ok s5"
    "bio_inv s5 {}" "abs_bcache s5 = write_all [(?b, seen ?a ?s)] ?a"
    using bio.copy_block [of s2 i j bs ?s ?b] two rng Suc.prems(1) by (auto simp: flush_put)
  have step: "install_loop bs lg t = install_loop s5 lg (t + 1)"
    using two copy t by (subst install_loop.simps) (simp add: log_wfD [OF wf] slot_def)
  have "log_wf (abs_bcache s5) lg bl" "card (pinned (abs_bcache s5)) + 1 < NBUF"
    unfolding copy(5) by (rule room_after [OF Suc.prems])+
  then obtain bs' where rec: "install_loop s5 lg (t + 1) = Ok bs'" "bio_inv bs' {}"
    "abs_bcache bs' = write_all (home_writes (seen (abs_bcache s5)) lg bl (t + 1)) (abs_bcache s5)"
    using Suc.hyps(1) [OF k copy(4)] by blast
  have "home_writes (seen (abs_bcache s5)) lg bl (t + 1) = home_writes (seen ?a) lg bl (t + 1)"
    unfolding home_writes_def copy(5) using bl_not_slot [OF wf _ t, symmetric] by simp
  moreover have "home_writes (seen ?a) lg bl t = (?b, seen ?a ?s) # home_writes (seen ?a) lg bl (t + 1)"
    unfolding home_writes_def using t by (simp add: upt_conv_Cons)
  ultimately show ?case using rec step copy(5) by (simp add: write_all_append)
qed

text \<open>The header block as \<^verbatim>\<open>write_head\<close> fills it in.\<close>

definition head_bytes :: "byte list \<Rightarrow> u32 list \<Rightarrow> byte list" where
  "head_bytes d bl = put_at (put_at d 0 (le32 (of_nat (length bl)))) 4 (concat (map le32 bl))"

lemma head_bytes_facts:
  assumes "length d = BSIZE" "length bl \<le> LOGSIZE"
  shows "length (head_bytes d bl) = BSIZE" "word_at (head_bytes d bl) 0 = of_nat (length bl)"
    "words_at (head_bytes d bl) 4 (length bl) = bl"
  using assms by (simp_all add: head_bytes_def BSIZE_def LOGSIZE_def word_at_put_other word_at_put_same words_at_put_at)

lemma write_head_ok:
  assumes "bio_inv bs {}" "log_wf (abs_bcache bs) lg bl" "card (pinned (abs_bcache bs)) + 1 < NBUF"
  shows "\<exists>bs'. write_head bs lg = Ok bs' \<and> bio_inv bs' {} \<and>
    abs_bcache bs' = write_all [(l_start lg, head_bytes (seen (abs_bcache bs) (l_start lg)) bl)] (abs_bcache bs)"
proof -
  let ?n = "l_start lg" and ?d = "seen (abs_bcache bs) (l_start lg)"
  have r: "unat ?n < nblocks (abs_bcache bs)" "card (pinned (abs_bcache bs)) < NBUF"
    using start_facts(2) [OF assms(2)] assms(3) by auto
  have len: "length ?d = BSIZE" using bio.length_law [OF assms(1) r(1)] .
  note facts = head_bytes_facts(1) [OF len log_wfD(7) [OF assms(2)]]
  from bio.write_block [OF assms(1) r facts] obtain i s1 s2 s3 where
    "bread bs 1 ?n = Ok (i, s1)" "buf_data s1 i = ?d" "bwrite (put_data s1 i (head_bytes ?d bl)) i = Ok s2"
    "brelse s2 i = Ok s3" "bio_inv s3 {}" "abs_bcache s3 = write_all [(?n, head_bytes ?d bl)] (abs_bcache bs)"
    by (auto simp: flush_put)
  then show ?thesis
    by (auto simp: write_head_def log_wfD [OF assms(2)] head_bytes_def)
qed

lemma commit_ok:
  assumes inv: "bio_inv bs {}" and wf: "log_wf (abs_bcache bs) lg bl" and ne: "bl \<noteq> []"
    and room: "card (pinned (abs_bcache bs)) + 1 < NBUF"
  defines "D \<equiv> seen (abs_bcache bs)"
  defines "H \<equiv> head_bytes (D (l_start lg)) bl"
  shows "\<exists>bs'. commit bs lg = Ok (bs', lg\<lparr>lh_n := 0\<rparr>) \<and> bio_inv bs' {} \<and>
    abs_bcache bs' = write_all (log_writes D lg bl 0 @ [(l_start lg, H)] @ map (\<lambda>b. (b, D b)) bl @
      [(l_start lg, head_bytes H [])]) (abs_bcache bs)"
proof -
  let ?a = "abs_bcache bs" and ?n = "l_start lg" and ?lg = "lg\<lparr>lh_n := 0\<rparr>"
  let ?L = "log_writes D lg bl 0"
  obtain b1 where 1: "write_log bs lg = Ok b1" "bio_inv b1 {}" "abs_bcache b1 = write_all ?L ?a"
    using write_log_loop_ok [OF inv wf room] unfolding write_log_def D_def by blast
  note r1 = room_after [OF inv wf room, of ?L, folded 1(3)]
  have nL: "?n \<notin> fst ` set ?L" using slot_facts(3) [OF wf] by (fastforce simp: log_writes_def)
  then have h1: "seen (abs_bcache b1) ?n = D ?n" by (simp add: 1(3) apply_writes_other D_def)
  obtain b2 where 2: "write_head b1 lg = Ok b2" "bio_inv b2 {}"
    "abs_bcache b2 = write_all [(?n, head_bytes (seen (abs_bcache b1) ?n) bl)] (abs_bcache b1)"
    using write_head_ok [OF 1(2) r1] by blast
  have a2: "abs_bcache b2 = write_all (?L @ [(?n, H)]) ?a"
    unfolding 2(3) h1 H_def unfolding 1(3) write_all_append ..
  note r2 = room_after [OF inv wf room, of "?L @ [(?n, H)]", folded a2]
  have "seen (abs_bcache b2) (slot lg t) = D (bl ! t)" if t: "t < length bl" for t
  proof -
    have "distinct (map fst ?L)"
      using slot_facts(4) [OF wf] by (auto simp: log_writes_def distinct_map inj_on_def o_def)
    moreover have "(slot lg t, D (bl ! t)) \<in> set ?L" using t by (auto simp: log_writes_def)
    ultimately show ?thesis
      using slot_facts(3) [OF wf t] by (simp add: a2 apply_writes_append apply_writes_hit)
  qed
  then have "home_writes (seen (abs_bcache b2)) lg bl 0 = map (\<lambda>t. (bl ! t, D (bl ! t))) [0..<length bl]"
    unfolding home_writes_def by simp
  also have "\<dots> = map (\<lambda>b. (b, D b)) (map ((!) bl) [0..<length bl])" by simp
  finally have hw: "home_writes (seen (abs_bcache b2)) lg bl 0 = map (\<lambda>b. (b, D b)) bl" by (simp only: map_nth)
  let ?W = "(?L @ [(?n, H)]) @ map (\<lambda>b. (b, D b)) bl"
  obtain b3 where 3: "install_trans b2 lg = Ok b3" "bio_inv b3 {}"
    "abs_bcache b3 = write_all (map (\<lambda>b. (b, D b)) bl) (abs_bcache b2)"
    using install_loop_ok [OF 2(2) r2, of 0] unfolding install_trans_def hw by blast
  have a3: "abs_bcache b3 = write_all ?W ?a" unfolding 3(3) a2 write_all_append ..
  note r3 = room_after [OF inv wf room, of ?W, folded a3]
  have "set bl \<subseteq> fst ` set ?W" by (force simp: image_Un)
  then have "pinned (abs_bcache b3) = {}" using wf unfolding a3 log_wf_def by (simp only: write_all_sel) blast
  then have wf3: "log_wf (abs_bcache b3) ?lg []" using r3(1) by (auto simp: log_wf_def)
  have "?n \<notin> set bl" using start_facts(1) [OF wf] log_wfD(6) [OF wf] by blast
  then have h3: "seen (abs_bcache b3) ?n = H"
    unfolding a3 write_all_sel apply_writes_append by (simp add: apply_writes_other image_image)
  obtain b4 where 4: "write_head b3 ?lg = Ok b4" "bio_inv b4 {}"
    "abs_bcache b4 = write_all [(?n, head_bytes (seen (abs_bcache b3) ?n) [])] (abs_bcache b3)"
    using write_head_ok [OF 3(2) wf3 r3(2)] by auto
  have a4: "abs_bcache b4 = write_all (?W @ [(?n, head_bytes H [])]) ?a"
    unfolding 4(3) h3 unfolding a3 write_all_append ..
  have "commit bs lg = Ok (b4, ?lg)"
    using 1(1) 2(1) 3(1) 4(1) ne by (simp add: commit_def log_wfD(2) [OF wf] Let_def)
  with 4(2) a4 show ?thesis by simp
qed

section \<open>Recovery\<close>

lemma recover_ok:
  assumes inv: "bio_inv bs {}" and wf: "log_wf (abs_bcache bs) (lg\<lparr>lh_n := int (length bl), lh_block := bl @ drop (length bl) (lh_block lg)\<rparr>) bl"
    and pin: "pinned (abs_bcache bs) = {}"
    and n: "word_at (seen (abs_bcache bs) (l_start lg)) 0 = of_nat (length bl)"
    and blocks: "words_at (seen (abs_bcache bs) (l_start lg)) 4 (length bl) = bl"
  shows "\<exists>bs' lg'. recover_from_log bs lg = Ok (bs', lg') \<and> bio_inv bs' {} \<and>
    log_wf (abs_bcache bs') lg' [] \<and> pinned (abs_bcache bs') = {} \<and>
    seen (abs_bcache bs') = (apply_writes (seen (abs_bcache bs)) (home_writes (seen (abs_bcache bs)) lg bl 0))
      (l_start lg := head_bytes (seen (abs_bcache bs) (l_start lg)) [])"
proof -
  let ?a = "abs_bcache bs" and ?n = "l_start lg"
  let ?lg = "lg\<lparr>lh_n := int (length bl), lh_block := bl @ drop (length bl) (lh_block lg)\<rparr>"
  let ?I = "home_writes (seen ?a) lg bl 0"
  have start: "unat ?n < nblocks ?a" "?n \<in> log_area lg"
    using start_facts [OF wf] by (simp_all add: log_area_def)
  have dev: "l_dev lg = 1" using log_wfD(1) [OF wf] by simp
  obtain i s1 s2 where rd: "bread bs 1 ?n = Ok (i, s1)" "buf_data s1 i = seen ?a ?n" "brelse s1 i = Ok s2"
    "bio_inv s2 {}" "abs_bcache s2 = ?a"
    using bio.read_block [OF inv start(1)] pin by (auto simp: NBUF_def)
  have "length bl < 2 ^ 31" using log_wfD(7) [OF wf] by (simp add: LOGSIZE_def)
  then have sn: "sint (of_nat (length bl) :: u32) = int (length bl)"
    by (subst sint_eq_unat) (simp_all add: unat_of_nat)
  have 1: "read_head bs lg = Ok (s2, ?lg)"
    using rd log_wfD(7) [OF wf] by (simp add: read_head_def dev n sn blocks Let_def)
  have room: "card (pinned (abs_bcache s2)) + 1 < NBUF" using pin rd(5) by (simp add: NBUF_def)
  have wf2: "log_wf (abs_bcache s2) ?lg bl" using wf rd(5) by simp
  have hw: "home_writes (seen ?a) ?lg bl 0 = ?I" by (simp add: home_writes_def slot_def)
  obtain s3 where "install_loop s2 ?lg 0 = Ok s3" "bio_inv s3 {}"
    "abs_bcache s3 = write_all (home_writes (seen (abs_bcache s2)) ?lg bl 0) (abs_bcache s2)"
    using install_loop_ok [OF rd(4) wf2 room, of 0] by blast
  then have 2: "install_trans s2 ?lg = Ok s3" "bio_inv s3 {}" "abs_bcache s3 = write_all ?I ?a"
    unfolding rd(5) hw install_trans_def .
  have wf3: "log_wf (abs_bcache s3) (?lg\<lparr>lh_n := 0\<rparr>) []"
    using wf pin unfolding log_wf_def 2(3) write_all_sel by (simp add: log_area_def)
  have pin3: "pinned (abs_bcache s3) = {}" by (simp add: 2(3) pin)
  have "?n \<notin> set bl" using log_wfD(6) [OF wf, of ?n] start(2) by (auto simp: log_area_def)
  then have "?n \<notin> fst ` set ?I" by (auto simp: home_writes_def)
  then have h: "seen (abs_bcache s3) ?n = seen ?a ?n" by (simp add: 2(3) apply_writes_other)
  obtain s4 where 3: "write_head s3 (?lg\<lparr>lh_n := 0\<rparr>) = Ok s4" "bio_inv s4 {}"
    "abs_bcache s4 = write_all [(?n, head_bytes (seen ?a ?n) [])] (abs_bcache s3)"
    using write_head_ok [OF 2(2) wf3] pin3 h by (auto simp: NBUF_def)
  have "recover_from_log bs lg = Ok (s4, ?lg\<lparr>lh_n := 0\<rparr>)"
    using 1 2(1) 3(1) by (simp add: recover_from_log_def Let_def)
  moreover have "log_wf (abs_bcache s4) (?lg\<lparr>lh_n := 0\<rparr>) []"
    by (rule log_wf_cong [OF wf3]) (simp_all add: 3(3))
  moreover have "seen (abs_bcache s4) = (apply_writes (seen ?a) ?I)(?n := head_bytes (seen ?a ?n) [])"
    by (simp add: 3(3) 2(3))
  ultimately show ?thesis using 3(2,3) pin3 by auto
qed

text \<open>The disk after some writes, and the cache after a restart on it.\<close>

definition disk_after :: "byte list list \<Rightarrow> (u32 \<times> byte list) list \<Rightarrow> byte list list" where
  "disk_after dl ws = foldl (\<lambda>dl (n, d). dl[unat n := d]) dl ws"

lemma disk_after_snoc: "disk_after dl (ws @ [(n, d)]) = (disk_after dl ws)[unat n := d]"
  by (simp add: disk_after_def)

lemma length_disk_after [simp]: "length (disk_after dl ws) = length dl"
  by (induction ws rule: rev_induct) (auto simp: disk_after_snoc, simp add: disk_after_def)

lemma nth_disk_after:
  "(\<forall>(n, d)\<in>set ws. unat n < length dl) \<Longrightarrow> disk_after dl ws ! unat m = apply_writes (\<lambda>n. dl ! unat n) ws m"
proof (induction ws rule: rev_induct)
  case (snoc w ws)
  then show ?case
    by (cases w) (auto simp: disk_after_snoc apply_writes_append nth_list_update word_unat_eq_iff)
qed (simp add: disk_after_def)

lemma set_disk_after: "set (disk_after dl ws) \<subseteq> set dl \<union> snd ` set ws"
proof (induction ws rule: rev_induct)
  case (snoc w ws)
  obtain n d where w: "w = (n, d)" by (cases w)
  have "set ((disk_after dl ws)[unat n := d]) \<subseteq> insert d (set (disk_after dl ws))" by (rule set_update_subset_insert)
  with snoc show ?case by (auto simp: w disk_after_snoc)
qed (simp add: disk_after_def)

text \<open>Recovery on a disk whose header lists the blocks \<open>bl\<close>.\<close>

definition same_log :: "log \<Rightarrow> log \<Rightarrow> bool" where
  "same_log lg lg' \<longleftrightarrow> l_start lg' = l_start lg \<and> l_size lg' = l_size lg \<and> l_dev lg' = l_dev lg \<and> length (lh_block lg') = LOGSIZE"

lemma recover_disk:
  assumes dl: "\<forall>d\<in>set dl. length d = BSIZE" "length dl = nblocks a" and wf: "log_wf a lg bl" and lg0: "same_log lg lg0"
    and rl: "rl = [] \<or> rl = bl"
    and n: "word_at (dl ! unat (l_start lg)) 0 = of_nat (length rl)"
    and blocks: "words_at (dl ! unat (l_start lg)) 4 (length rl) = rl"
  shows "\<exists>bs' lg'. recover_from_log (binit dl pid) lg0 = Ok (bs', lg') \<and> bio_inv bs' {} \<and>
    (\<forall>m. m \<notin> log_area lg \<longrightarrow> view bs' m = apply_writes (\<lambda>n. dl ! unat n) (home_writes (\<lambda>n. dl ! unat n) lg rl 0) m)"
proof -
  let ?a = "abs_bcache (binit dl pid)"
  have abs: "seen ?a = (\<lambda>n. dl ! unat n)" "pinned ?a = {}" "nblocks ?a = nblocks a"
    using binit_ok(2) [OF dl(1)] dl(2) by simp_all
  have wf0: "log_wf ?a (lg0\<lparr>lh_n := int (length rl), lh_block := rl @ drop (length rl) (lh_block lg0)\<rparr>) rl"
    using wf lg0 rl unfolding log_wf_def same_log_def abs by (auto simp: log_area_def)
  have st: "l_start lg0 = l_start lg" using lg0 by (simp add: same_log_def)
  have hw: "home_writes (seen ?a) lg0 rl 0 = home_writes (seen ?a) lg rl 0" by (simp add: home_writes_def slot_def st)
  obtain bs' lg' where r: "recover_from_log (binit dl pid) lg0 = Ok (bs', lg')" "bio_inv bs' {}"
    "seen (abs_bcache bs') = (apply_writes (seen ?a) (home_writes (seen ?a) lg0 rl 0))
       (l_start lg0 := head_bytes (seen ?a (l_start lg0)) [])"
    using recover_ok [OF binit_ok(1) [OF dl(1)] wf0 abs(2)] n blocks unfolding abs st by blast
  have "view bs' m = apply_writes (\<lambda>n. dl ! unat n) (home_writes (\<lambda>n. dl ! unat n) lg rl 0) m" if "m \<notin> log_area lg" for m
  proof -
    have "m \<noteq> l_start lg" using that start_facts(1) [OF wf] by blast
    moreover have "view bs' m = seen (abs_bcache bs') m" by (simp add: abs_bcache_def)
    ultimately show ?thesis using r(3) unfolding hw unfolding st abs by simp
  qed
  with r show ?thesis by blast
qed

section \<open>Crashes during a commit\<close>

text \<open>The writes of a commit of the contents \<open>D\<close> of the blocks \<open>bl\<close>, in their order.\<close>

definition commit_writes :: "(u32 \<Rightarrow> byte list) \<Rightarrow> log \<Rightarrow> u32 list \<Rightarrow> (u32 \<times> byte list) list" where
  "commit_writes D lg bl = log_writes D lg bl 0 @ [(l_start lg, head_bytes (D (l_start lg)) bl)] @ map (\<lambda>b. (b, D b)) bl @
     [(l_start lg, head_bytes (head_bytes (D (l_start lg)) bl) [])]"

lemma commit_writes_range:
  assumes "log_wf a lg bl" "\<And>n. unat n < nblocks a \<Longrightarrow> length (D n) = BSIZE"
  shows "\<forall>(n, d)\<in>set (commit_writes D lg bl). unat n < nblocks a \<and> length d = BSIZE"
  using slot_home_range [OF assms(1)] start_facts(2) [OF assms(1)] log_wfD(5,7) [OF assms(1)] assms(2)
  by (auto simp: commit_writes_def log_writes_def head_bytes_facts)

lemma apply_take_other:
  "m \<notin> fst ` set ws \<Longrightarrow> apply_writes D (take k ws) m = D m"
  by (rule apply_writes_other) (auto dest: in_set_takeD)

lemma crash_before_commit:
  assumes wf: "log_wf a lg bl" and k: "k \<le> length bl"
  shows "apply_writes D0 (take k (commit_writes D lg bl)) (l_start lg) = D0 (l_start lg)"
    "m \<notin> log_area lg \<Longrightarrow> apply_writes D0 (take k (commit_writes D lg bl)) m = D0 m"
proof -
  have "take k (commit_writes D lg bl) = take k (log_writes D lg bl 0)"
    using k by (simp add: commit_writes_def log_writes_def)
  moreover have "l_start lg \<notin> fst ` set (log_writes D lg bl 0)"
    using slot_facts(3) [OF wf] by (fastforce simp: log_writes_def)
  moreover have "m \<notin> fst ` set (log_writes D lg bl 0)" if "m \<notin> log_area lg"
    using that slot_facts(1) [OF wf] by (auto simp: log_writes_def)
  ultimately show "apply_writes D0 (take k (commit_writes D lg bl)) (l_start lg) = D0 (l_start lg)"
    "m \<notin> log_area lg \<Longrightarrow> apply_writes D0 (take k (commit_writes D lg bl)) m = D0 m"
    by (simp_all add: apply_take_other)
qed

lemma take_commit_writes:
  assumes "length bl < k"
  shows "take k (commit_writes D lg bl) = log_writes D lg bl 0 @ [(l_start lg, head_bytes (D (l_start lg)) bl)] @
    take (k - length bl - 1) (map (\<lambda>b. (b, D b)) bl @ [(l_start lg, head_bytes (head_bytes (D (l_start lg)) bl) [])])"
  using assms by (simp add: commit_writes_def log_writes_def take_Cons')

lemma crash_while_installing:
  fixes D D0 :: "u32 \<Rightarrow> byte list"
  assumes wf: "log_wf a lg bl" and k: "length bl < k" "k \<le> 2 * length bl + 1"
  defines "E \<equiv> apply_writes D0 (take k (commit_writes D lg bl))"
  shows "E (l_start lg) = head_bytes (D (l_start lg)) bl" "t < length bl \<Longrightarrow> E (slot lg t) = D (bl ! t)"
    "m \<notin> log_area lg \<Longrightarrow> m \<notin> set bl \<Longrightarrow> E m = D0 m"
proof -
  let ?L = "log_writes D lg bl 0" and ?I = "take (k - length bl - 1) (map (\<lambda>b. (b, D b)) bl)"
  have E: "E = apply_writes (apply_writes (apply_writes D0 ?L) [(l_start lg, head_bytes (D (l_start lg)) bl)]) ?I"
    unfolding E_def take_commit_writes [OF k(1)] apply_writes_append using k by simp
  have I: "fst ` set ?I \<subseteq> set bl" by (auto dest: in_set_takeD)
  have nI: "m \<notin> fst ` set ?I" if "m \<in> log_area lg" for m using that I log_wfD(6) [OF wf] by blast
  show "E (l_start lg) = head_bytes (D (l_start lg)) bl"
    unfolding E using nI [OF start_facts(1) [OF wf]] by (simp add: apply_writes_other)
  show "E (slot lg t) = D (bl ! t)" if t: "t < length bl"
  proof -
    have "distinct (map fst ?L)"
      using slot_facts(4) [OF wf] by (auto simp: log_writes_def distinct_map inj_on_def o_def)
    moreover have "(slot lg t, D (bl ! t)) \<in> set ?L" using t by (auto simp: log_writes_def)
    ultimately show ?thesis
      unfolding E using nI [OF slot_facts(1) [OF wf t]] slot_facts(3) [OF wf t]
      by (simp add: apply_writes_other apply_writes_hit)
  qed
  show "E m = D0 m" if "m \<notin> log_area lg" "m \<notin> set bl"
  proof -
    have "m \<notin> fst ` set ?I" "m \<noteq> l_start lg" "m \<notin> fst ` set ?L"
      using that I start_facts(1) [OF wf] slot_facts(1) [OF wf] by (auto simp: log_writes_def)
    then show ?thesis unfolding E by (simp add: apply_writes_other)
  qed
qed

lemma crash_after_install:
  fixes D D0 :: "u32 \<Rightarrow> byte list"
  assumes wf: "log_wf a lg bl" and k: "2 * length bl + 1 < k"
  defines "E \<equiv> apply_writes D0 (take k (commit_writes D lg bl))"
  shows "E (l_start lg) = head_bytes (head_bytes (D (l_start lg)) bl) []" "m \<in> set bl \<Longrightarrow> E m = D m"
    "m \<notin> log_area lg \<Longrightarrow> m \<notin> set bl \<Longrightarrow> E m = D0 m"
proof -
  let ?L = "log_writes D lg bl 0" and ?I = "map (\<lambda>b. (b, D b)) bl" and ?n = "l_start lg"
  have E: "E = (apply_writes (apply_writes (apply_writes D0 ?L) [(?n, head_bytes (D ?n) bl)]) ?I)
      (?n := head_bytes (head_bytes (D ?n) bl) [])"
    using k unfolding E_def by (simp add: commit_writes_def log_writes_def flip: apply_writes_append apply_writes_single)
  show "E ?n = head_bytes (head_bytes (D ?n) bl) []" by (simp add: E)
  show "E m = D m" if m: "m \<in> set bl"
  proof -
    have "m \<noteq> ?n" using m start_facts(1) [OF wf] log_wfD(6) [OF wf] by blast
    moreover have "distinct (map fst ?I)" using log_wfD(3) [OF wf] by (simp add: o_def)
    moreover have "(m, D m) \<in> set ?I" using m by simp
    ultimately show ?thesis unfolding E by (simp only: fun_upd_apply apply_writes_hit) simp
  qed
  show "E m = D0 m" if "m \<notin> log_area lg" "m \<notin> set bl"
  proof -
    have "m \<notin> fst ` set ?I" "m \<noteq> ?n" "m \<notin> fst ` set ?L"
      using that start_facts(1) [OF wf] slot_facts(1) [OF wf] by (auto simp: log_writes_def)
    then show ?thesis unfolding E by (simp add: apply_writes_other)
  qed
qed

lemma recover_after_crash:
  assumes inv: "bio_inv bs {}" and wf: "log_wf (abs_bcache bs) lg bl" and lg0: "same_log lg lg0"
    and empty: "word_at (memdisk bs ! unat (l_start lg)) 0 = 0"
  shows "\<exists>r lg'. recover_from_log (binit (disk_after (memdisk bs) (take k (commit_writes (view bs) lg bl))) pid) lg0 = Ok (r, lg') \<and>
    bio_inv r {} \<and>
    (\<forall>m. m \<notin> log_area lg \<longrightarrow> view r m = (if k \<le> length bl then memdisk bs ! unat m else view bs m))"
proof -
  let ?W = "take k (commit_writes (view bs) lg bl)" and ?n = "l_start lg"
  let ?dl = "disk_after (memdisk bs) ?W" and ?old = "\<lambda>n. memdisk bs ! unat n" and ?new = "view bs"
  have seen: "seen (abs_bcache bs) = ?new" "nblocks (abs_bcache bs) = length (memdisk bs)" by (simp_all add: abs_bcache_def)
  have "\<forall>(n, d)\<in>set (commit_writes ?new lg bl). unat n < nblocks (abs_bcache bs) \<and> length d = BSIZE"
    using commit_writes_range [OF wf, of ?new] bio.length_law [OF inv] by (simp add: seen)
  then have W: "\<forall>(n, d)\<in>set ?W. unat n < length (memdisk bs)" "\<forall>d\<in>snd ` set ?W. length d = BSIZE"
    by (fastforce simp: seen(2) dest: in_set_takeD)+
  have E: "(\<lambda>m. ?dl ! unat m) = apply_writes ?old ?W" using nth_disk_after [OF W(1)] by (intro ext)
  have dl: "\<forall>d\<in>set ?dl. length d = BSIZE" "length ?dl = nblocks (abs_bcache bs)"
    using set_disk_after [of "memdisk bs" ?W] bio_invD(6) [OF inv] W(2) by (auto simp: seen(2))
  have clean: "?new m = ?old m" if "m \<notin> set bl" for m
    using bio.clean_law [OF inv, of m] wf that by (auto simp: abs_bcache_def log_wf_def)
  have len: "length (?new ?n) = BSIZE" using bio.length_law [OF inv start_facts(2) [OF wf]] by (simp add: seen)
  note hb = head_bytes_facts [OF len log_wfD(7) [OF wf]]
  have no_blocks: "home_writes F lg [] 0 = []" "words_at d j 0 = []" for F d j by (simp_all add: home_writes_def words_at_def)
  note rec = recover_disk [OF dl wf lg0, where pid = pid, unfolded fun_cong [OF E] E]
  consider (old) "k \<le> length bl" | (install) "length bl < k" "k \<le> 2 * length bl + 1" | (all) "2 * length bl + 1 < k"
    by linarith
  then show ?thesis
  proof cases
    case old
    note c = crash_before_commit [OF wf old, where ?D0.0 = ?old and D = ?new]
    have "word_at (apply_writes ?old ?W ?n) 0 = of_nat (length [])" using c(1) empty by simp
    from rec [OF _ this, unfolded list.size no_blocks] obtain r lg' where
      "recover_from_log (binit ?dl pid) lg0 = Ok (r, lg')" "bio_inv r {}"
      "\<forall>m. m \<notin> log_area lg \<longrightarrow> view r m = apply_writes ?old ?W m" by auto
    with c(2) old show ?thesis by auto
  next
    case install
    note c = crash_while_installing [OF wf install, where ?D0.0 = ?old and D = ?new]
    have hw: "home_writes (apply_writes ?old ?W) lg bl 0 = map (\<lambda>b. (b, ?new b)) bl"
      unfolding home_writes_def using c(2) by (intro nth_equalityI) simp_all
    have "apply_writes (apply_writes ?old ?W) (map (\<lambda>b. (b, ?new b)) bl) m = ?new m" if "m \<notin> log_area lg" for m
    proof (cases "m \<in> set bl")
      case True
      then show ?thesis using log_wfD(3) [OF wf] by (intro apply_writes_hit) (simp_all add: o_def)
    next
      case False
      then show ?thesis using c(3) [OF that False] clean [OF False] by (simp add: apply_writes_other image_image)
    qed
    moreover from rec [of bl] c(1) hb obtain r lg' where "recover_from_log (binit ?dl pid) lg0 = Ok (r, lg')" "bio_inv r {}"
      "\<forall>m. m \<notin> log_area lg \<longrightarrow> view r m = apply_writes (apply_writes ?old ?W) (map (\<lambda>b. (b, ?new b)) bl) m"
      by (auto simp: hw)
    ultimately show ?thesis using install by auto
  next
    case all
    note c = crash_after_install [OF wf all, where ?D0.0 = ?old and D = ?new]
    have "word_at (head_bytes (head_bytes (?new ?n) bl) []) 0 = 0"
      using head_bytes_facts(2) [OF hb(1), of "[]"] by simp
    moreover have "apply_writes ?old ?W m = ?new m" if "m \<notin> log_area lg" for m
      using c(2,3) [of m] clean [of m] that by (cases "m \<in> set bl") auto
    moreover from calculation(1) have "word_at (apply_writes ?old ?W ?n) 0 = of_nat (length [])" using c(1) by simp
    from rec [OF _ this, unfolded list.size no_blocks] obtain r lg' where
      "recover_from_log (binit ?dl pid) lg0 = Ok (r, lg')" "bio_inv r {}"
      "\<forall>m. m \<notin> log_area lg \<longrightarrow> view r m = apply_writes ?old ?W m" by auto
    ultimately show ?thesis using all by auto
  qed
qed

text \<open>
  C1: Commit is atomic with respect to crashes. A commit of a transaction succeeds and writes a fixed
  sequence of blocks. Whatever prefix of that sequence has reached the disk when the machine stops,
  recovery at the next start succeeds and leaves every block outside the log with its content from
  before the transaction, when the header was not yet written, or with its new content, otherwise.
\<close>

theorem commit_crash_atomic:
  assumes "bio_inv bs {}" "log_wf (abs_bcache bs) lg bl" "bl \<noteq> []" "length bl + 1 < NBUF"
    "word_at (memdisk bs ! unat (l_start lg)) 0 = 0" "same_log lg lg0"
  shows "\<exists>bs' ws. commit bs lg = Ok (bs', lg\<lparr>lh_n := 0\<rparr>) \<and> trace bs' = trace bs @ ws \<and>
    (\<forall>k. \<exists>r lg'. recover_from_log (binit (disk_after (memdisk bs) (take k ws)) pid) lg0 = Ok (r, lg') \<and>
       (\<forall>m. m \<notin> log_area lg \<longrightarrow> view r m = (if k \<le> length bl then memdisk bs ! unat m else view bs m)))"
proof -
  have "card (pinned (abs_bcache bs)) \<le> card (set bl)" using assms(2) by (intro card_mono) (auto simp: log_wf_def)
  then have room: "card (pinned (abs_bcache bs)) + 1 < NBUF"
    using assms(4) distinct_card [OF log_wfD(3) [OF assms(2)]] by simp
  obtain bs' where "commit bs lg = Ok (bs', lg\<lparr>lh_n := 0\<rparr>)"
    "abs_bcache bs' = write_all (commit_writes (view bs) lg bl) (abs_bcache bs)"
    using commit_ok [OF assms(1-3) room] by (auto simp: commit_writes_def abs_bcache_def)
  moreover from this(2) have "trace bs' = trace bs @ commit_writes (view bs) lg bl"
    by (simp add: abs_bcache_def write_all_def)
  ultimately show ?thesis using recover_after_crash [OF assms(1,2,6,5)] by blast
qed

section \<open>Writes inside a transaction\<close>

lemma log_slot_facts:
  assumes "log_wf a lg bl"
  shows "n \<in> set bl \<Longrightarrow> log_slot lg n < length bl \<and> lh_block lg ! log_slot lg n = n"
    "n \<notin> set bl \<Longrightarrow> log_slot lg n = length bl"
proof -
  have s: "log_slot lg n = length (takeWhile (\<lambda>x. x \<noteq> n) bl)"
    by (simp add: log_slot_def log_wfD(2,8) [OF assms])
  show "log_slot lg n = length bl" if "n \<notin> set bl"
    unfolding s using that by (induction bl) auto
  show "log_slot lg n < length bl \<and> lh_block lg ! log_slot lg n = n" if "n \<in> set bl"
  proof -
    have lt: "log_slot lg n < length bl" unfolding s using that by (induction bl) auto
    moreover have "bl ! length (takeWhile (\<lambda>x. x \<noteq> n) bl) = n"
      using nth_length_takeWhile [of "\<lambda>x. x \<noteq> n" bl] lt by (simp add: s)
    ultimately show ?thesis using log_wfD(4) [OF assms] by (simp add: s)
  qed
qed

text \<open>The list of blocks after a write of block \<open>n\<close>.\<close>

definition logged :: "u32 list \<Rightarrow> u32 \<Rightarrow> u32 list" where
  "logged bl n = (if n \<in> set bl then bl else bl @ [n])"

lemma log_write_ok:
  assumes inv: "bio_inv bs H" "i \<in> H" and wf: "log_wf (abs_bcache bs) lg bl"
    and room: "length bl < LOGSIZE" "Suc (length bl) < unat (l_size lg)" and op: "0 < l_outstanding lg"
    and n: "unat (buf_block bs i) < nblocks (abs_bcache bs)" "buf_block bs i \<notin> log_area lg"
  shows "\<exists>lg'. log_write bs lg i = Ok (set_dirty bs i, lg') \<and>
    log_wf (abs_bcache (set_dirty bs i)) lg' (logged bl (buf_block bs i)) \<and>
    l_start lg' = l_start lg \<and> l_size lg' = l_size lg \<and> l_outstanding lg' = l_outstanding lg \<and> l_committing lg' = l_committing lg"
proof -
  let ?n = "buf_block bs i" and ?lg = "\<lambda>m. lg\<lparr>lh_block := (lh_block lg)[m := buf_block bs i]\<rparr>"
  have abs: "abs_bcache (set_dirty bs i) = pin_spec ?n (abs_bcache bs)" using bio.pin_law [OF inv] by simp
  have "unat (l_size lg) < 2 ^ 31" using wf by (simp add: log_wf_def)
  then have sz: "sint (l_size lg) = int (unat (l_size lg))" by (rule sint_eq_unat)
  have guard: "\<not> (int LOGSIZE \<le> lh_n lg \<or> sint (l_size lg) - 1 \<le> lh_n lg)"
    unfolding sz using room log_wfD(2) [OF wf] by linarith
  show ?thesis
  proof (cases "?n \<in> set bl")
    case True
    note sl = log_slot_facts(1) [OF wf True]
    have "?lg (log_slot lg ?n) = lg"
      using sl list_update_id [of "lh_block lg" "log_slot lg ?n"] by simp
    then have "log_write bs lg i = Ok (set_dirty bs i, lg)"
      using guard op sl log_wfD(2) [OF wf] by (simp add: log_write_def Let_def)
    moreover have "log_wf (abs_bcache (set_dirty bs i)) lg bl"
      using wf True unfolding abs by (simp add: log_wf_def pin_spec_def)
    ultimately show ?thesis using True by (simp add: logged_def)
  next
    case False
    let ?lg' = "lg\<lparr>lh_n := lh_n lg + 1, lh_block := (lh_block lg)[length bl := ?n]\<rparr>"
    have "log_write bs lg i = Ok (set_dirty bs i, ?lg')"
      using guard op log_slot_facts(2) [OF wf False] log_wfD(2) [OF wf] by (simp add: log_write_def Let_def)
    moreover have "log_wf (abs_bcache (set_dirty bs i)) ?lg' (bl @ [?n])"
    proof -
      have "take (Suc (length bl)) ((lh_block lg)[length bl := ?n]) = bl @ [?n]"
        using wf room(1) by (subst take_Suc_conv_app_nth) (auto simp: log_wf_def)
      then show ?thesis
        using wf room n False unfolding abs log_wf_def by (auto simp: pin_spec_def log_area_def)
    qed
    ultimately show ?thesis using False by (simp add: logged_def)
  qed
qed

end
