(* ===== verification/Xv6_Tx.thy ===== *)
theory Xv6_Tx
  imports Xv6_Log
begin

text \<open>
  Transactions of xv6: a block changed between \<^verbatim>\<open>begin_op\<close> and \<^verbatim>\<open>end_op\<close> (the use that \<^verbatim>\<open>log.c\<close> documents at
  \<^verbatim>\<open>log_write\<close>), the space that \<^verbatim>\<open>begin_op\<close> reserves in the log, and the state in which a commit runs
  out of buffers.
\<close>

section \<open>One write\<close>

definition tx_inv :: "bcache \<Rightarrow> log \<Rightarrow> u32 list \<Rightarrow> bool" where
  "tx_inv bs lg bl \<longleftrightarrow> bio_inv bs {} \<and> log_wf (abs_bcache bs) lg bl \<and> 0 < l_outstanding lg"

lemma card_pinned:
  assumes "log_wf (abs_bcache bs) lg bl"
  shows "card (pinned (abs_bcache bs)) \<le> length bl"
proof -
  have "card (pinned (abs_bcache bs)) \<le> card (set bl)" using assms by (intro card_mono) (auto simp: log_wf_def)
  then show ?thesis using distinct_card [OF log_wfD(3) [OF assms]] by simp
qed

lemma tx_write_block:
  assumes tx: "tx_inv bs lg bl" and n: "unat n < nblocks (abs_bcache bs)" "n \<notin> log_area lg" and d: "length d = BSIZE"
    and room: "length bl < LOGSIZE" "Suc (length bl) < unat (l_size lg)"
  shows "\<exists>i s1 s2 lg2 s3. bread bs 1 n = Ok (i, s1) \<and> buf_data s1 i = seen (abs_bcache bs) n \<and>
    log_write (put_data s1 i d) lg i = Ok (s2, lg2) \<and> brelse s2 i = Ok s3 \<and> tx_inv s3 lg2 (logged bl n) \<and>
    abs_bcache s3 = pin_spec n (put_spec n d (abs_bcache bs)) \<and>
    l_start lg2 = l_start lg \<and> l_size lg2 = l_size lg \<and> l_outstanding lg2 = l_outstanding lg \<and> l_committing lg2 = l_committing lg"
proof -
  have inv: "bio_inv bs {}" and wf: "log_wf (abs_bcache bs) lg bl" and op: "0 < l_outstanding lg"
    using tx by (simp_all add: tx_inv_def)
  have c: "card (pinned (abs_bcache bs)) < NBUF" using card_pinned [OF wf] room(1) by (simp add: LOGSIZE_def NBUF_def)
  obtain i s1 where 1: "bread bs 1 n = Ok (i, s1)" "bio_inv s1 {i}" "abs_bcache s1 = abs_bcache bs" "buf_block s1 i = n"
    using bio.rd_law [OF inv n(1)] c by auto
  let ?s = "put_data s1 i d"
  have 2: "bio_inv ?s {i}" "abs_bcache ?s = put_spec n d (abs_bcache bs)" "buf_block ?s i = n"
    using bio.put_law [OF 1(2) _ d] 1 by auto
  have wf2: "log_wf (abs_bcache ?s) lg bl" using wf unfolding 2 by (simp add: log_wf_def put_spec_def)
  have n2: "unat (buf_block ?s i) < nblocks (abs_bcache ?s)" "buf_block ?s i \<notin> log_area lg"
    using n 2 by (simp_all add: put_spec_def)
  obtain lg2 where 3: "log_write ?s lg i = Ok (set_dirty ?s i, lg2)" "log_wf (abs_bcache (set_dirty ?s i)) lg2 (logged bl n)"
    "l_start lg2 = l_start lg" "l_size lg2 = l_size lg" "l_outstanding lg2 = l_outstanding lg" "l_committing lg2 = l_committing lg"
    using log_write_ok [OF 2(1) _ wf2 room op n2] 2(3) by auto
  have 4: "bio_inv (set_dirty ?s i) {i}" "abs_bcache (set_dirty ?s i) = pin_spec n (put_spec n d (abs_bcache bs))"
    "buf_block (set_dirty ?s i) i = n"
    using bio.pin_law [OF 2(1), of i] 2 by auto
  then obtain s3 where 5: "brelse (set_dirty ?s i) i = Ok s3" "bio_inv s3 {}" "abs_bcache s3 = abs_bcache (set_dirty ?s i)"
    using bio.rel_law [OF 4(1), of i] by (auto simp: pin_spec_def)
  have "tx_inv s3 lg2 (logged bl n)" using 5 3 op by (simp add: tx_inv_def)
  moreover have "buf_data s1 i = seen (abs_bcache bs) n" using bio.content_law [OF 1(2)] 1 by simp
  ultimately show ?thesis using 1(1) 3 5(1) 5(3) 4(2) by simp
qed

section \<open>A whole transaction\<close>

lemma commit_lg:
  "commit bs lg = Ok (bs', lg') \<Longrightarrow> lg' = (if 0 < lh_n lg then lg\<lparr>lh_n := 0\<rparr> else lg)"
  by (auto simp: commit_def andThen_eq_Ok Let_def split: if_splits)

definition write_one :: "bcache \<Rightarrow> log \<Rightarrow> u32 \<Rightarrow> byte list \<Rightarrow> (bcache \<times> log) outcome" where
  "write_one bs lg n d =
     andThen (begin_op lg) (\<lambda>lg.
     andThen (bread bs 1 n) (\<lambda>(b, bs).
     andThen (log_write (put_data bs b d) lg b) (\<lambda>(bs, lg).
     andThen (brelse bs b) (\<lambda>bs.
       end_op bs lg))))"

lemma apply_commit_writes:
  assumes "log_wf a lg bl" "m \<notin> log_area lg" "\<And>m. m \<notin> set bl \<Longrightarrow> D m = D0 m"
  shows "apply_writes D0 (commit_writes D lg bl) m = D m"
proof -
  have "take (2 * length bl + 2) (commit_writes D lg bl) = commit_writes D lg bl"
    by (simp add: commit_writes_def log_writes_def)
  then show ?thesis
    using crash_after_install(2,3) [OF assms(1), of "2 * length bl + 2" m D0 D] assms(2,3) by (cases "m \<in> set bl") auto
qed


section \<open>Reserved log space\<close>

text \<open>
  The log under any interleaving of file system calls. \<open>rem\<close> has for every call between its \<^verbatim>\<open>begin_op\<close>
  and its \<^verbatim>\<open>end_op\<close> the number of further blocks it may add, of the \<^verbatim>\<open>MAXOPBLOCKS\<close> it starts with. The
  cache is any cache.
\<close>

inductive log_step :: "log \<times> nat list \<Rightarrow> log \<times> nat list \<Rightarrow> bool" where
  enter: "begin_op lg = Ok lg' \<Longrightarrow> log_step (lg, rem) (lg', nat MAXOPBLOCKS # rem)"
| absorb: "log_write bs lg b = Ok (bs', lg') \<Longrightarrow> lh_n lg' = lh_n lg \<Longrightarrow> log_step (lg, rem) (lg', rem)"
| append: "log_write bs lg b = Ok (bs', lg') \<Longrightarrow> lh_n lg' \<noteq> lh_n lg \<Longrightarrow> j < length rem \<Longrightarrow> 0 < rem ! j \<Longrightarrow>
    log_step (lg, rem) (lg', rem[j := rem ! j - 1])"
| leave: "end_op bs lg = Ok (bs', lg') \<Longrightarrow> log_step (lg, as @ r # cs) (lg', as @ cs)"

inductive_cases log_stepE: "log_step (lg, rem) s"

definition log_budget :: "log \<times> nat list \<Rightarrow> bool" where
  "log_budget s \<longleftrightarrow> (case s of (lg, rem) \<Rightarrow>
     0 \<le> lh_n lg \<and> lh_n lg + int (sum_list rem) \<le> int LOGSIZE \<and> l_outstanding lg = int (length rem) \<and>
     \<not> l_committing lg \<and> (\<forall>r\<in>set rem. r \<le> nat MAXOPBLOCKS))"

lemma log_write_lg:
  "log_write bs lg b = Ok (bs', lg') \<Longrightarrow> l_outstanding lg' = l_outstanding lg \<and> l_committing lg' = l_committing lg \<and>
     l_size lg' = l_size lg \<and> (lh_n lg' = lh_n lg \<or> lh_n lg' = lh_n lg + 1)"
  by (auto simp: log_write_def Let_def split: if_splits)

lemma end_op_lg:
  assumes "end_op bs lg = Ok (bs', lg')" "\<not> l_committing lg"
  shows "l_outstanding lg' = l_outstanding lg - 1 \<and> \<not> l_committing lg' \<and> l_size lg' = l_size lg \<and> (lh_n lg' = 0 \<or> lh_n lg' = lh_n lg)"
proof (cases "l_outstanding lg = 1")
  case True
  then obtain lg1 where "commit bs (lg\<lparr>l_outstanding := 0, l_committing := True\<rparr>) = Ok (bs', lg1)" "lg' = lg1\<lparr>l_committing := False\<rparr>"
    using assms by (auto simp: end_op_def Let_def andThen_eq_Ok)
  then show ?thesis using commit_lg [of bs "lg\<lparr>l_outstanding := 0, l_committing := True\<rparr>" bs' lg1] True by auto
qed (use assms in \<open>auto simp: end_op_def Let_def\<close>)

lemma sum_list_dec:
  "j < length rem \<Longrightarrow> 0 < rem ! j \<Longrightarrow> Suc (sum_list (rem[j := rem ! j - 1])) = sum_list (rem :: nat list)"
  by (induction rem arbitrary: j) (auto simp: nth_Cons split: nat.splits)

lemma sum_list_le_times: "\<forall>r\<in>set rem. r \<le> m \<Longrightarrow> sum_list rem \<le> length rem * (m :: nat)"
  by (induction rem) auto

lemma log_budget_step:
  assumes "log_step s s'" "log_budget s"
  shows "log_budget s'"
  using assms
proof cases
  case (enter lg lg' rem)
  have "int (sum_list rem) \<le> int (length rem) * 10"
    using assms(2) sum_list_le_times [of rem 10] enter by (auto simp: log_budget_def MAXOPBLOCKS_def simp flip: of_nat_mult)
  with enter assms(2) show ?thesis
    by (auto simp: log_budget_def begin_op_def MAXOPBLOCKS_def algebra_simps split: if_splits)
next
  case (absorb bs lg b bs' lg' rem)
  with assms(2) log_write_lg [OF absorb(3)] show ?thesis by (simp add: log_budget_def)
next
  case (append bs lg b bs' lg' j rem)
  have "\<forall>r\<in>set rem. r \<le> nat MAXOPBLOCKS" using assms(2) append(1) by (simp add: log_budget_def)
  then have "\<forall>r\<in>insert (rem ! j - 1) (set rem). r \<le> nat MAXOPBLOCKS"
    using nth_mem [OF append(5)] by (auto intro: le_trans [OF diff_le_self])
  then have "\<forall>r\<in>set (rem[j := rem ! j - 1]). r \<le> nat MAXOPBLOCKS"
    using set_update_subset_insert [of rem j "rem ! j - 1"] by blast
  with assms(2) append log_write_lg [OF append(3)] sum_list_dec [of j rem] show ?thesis
    by (auto simp: log_budget_def)
next
  case (leave bs lg bs' lg' as r cs)
  with assms(2) end_op_lg [OF leave(3)] show ?thesis by (auto simp: log_budget_def)
qed


definition new_log :: log where
  "new_log = \<lparr> l_start = 2, l_size = 40, l_outstanding = 0, l_committing = False, l_dev = 1, lh_n = 0, lh_block = replicate 30 0 \<rparr>"


text \<open>A cache whose first buffer is for block \<open>n\<close>.\<close>

definition cache_with :: "u32 \<Rightarrow> bcache" where
  "cache_with n = set_buf (binit zero_disk 1) 0 (\<lambda>b. b\<lparr>b_blockno := n\<rparr>)"

lemma buf_block_cache_with [simp]: "buf_block (cache_with n) 0 = n"
  by (simp add: cache_with_def buf_block_def binit_def NBUF_def)

lemma positive_member: "sum_list (xs :: nat list) \<noteq> 0 \<Longrightarrow> \<exists>x\<in>set xs. 0 < x"
  by (auto simp: sum_list_eq_0_iff)

lemma log_write_fresh:
  assumes "lh_n lg = int n" "n < 29" "l_size lg = 30" "l_outstanding lg = 3" "length (lh_block lg) = 30"
    "\<forall>x\<in>set (take n (lh_block lg)). unat x < n"
  shows "log_write (cache_with (of_nat n)) lg 0 = Ok (set_dirty (cache_with (of_nat n)) 0,
    lg\<lparr>lh_n := int (Suc n), lh_block := (lh_block lg)[n := of_nat n]\<rparr>)"
proof -
  have "unat (of_nat n :: u32) = n" using assms(2) by (simp add: unat_of_nat)
  then have ne: "\<forall>x\<in>set (take n (lh_block lg)). x \<noteq> of_nat n" using assms(6) by auto
  have tw: "takeWhile (\<lambda>x. x \<noteq> of_nat n) (take n (lh_block lg)) = take n (lh_block lg)"
    by (rule takeWhile_eq_all_conv [THEN iffD2]) (use ne in blast)
  have "log_slot lg (of_nat n) = n" unfolding log_slot_def assms(1) nat_int tw using assms(2,5) by simp
  then show ?thesis using assms by (simp add: log_write_def Let_def LOGSIZE_def)
qed

lemma log_fills:
  assumes "n \<le> 29"
  shows "\<exists>lg rem. log_step\<^sup>*\<^sup>* (new_log\<lparr>l_size := 30, l_outstanding := 3\<rparr>, [10, 10, 10]) (lg, rem) \<and> lh_n lg = int n \<and>
    l_size lg = 30 \<and> l_outstanding lg = 3 \<and> length (lh_block lg) = 30 \<and>
    (\<forall>x\<in>set (take n (lh_block lg)). unat x < n) \<and> sum_list rem = 30 - n"
  using assms
proof (induction n)
  case 0
  show ?case
    by (rule exI [of _ "new_log\<lparr>l_size := 30, l_outstanding := 3\<rparr>"], rule exI [of _ "[10, 10, 10]"])
      (simp add: new_log_def)
next
  case (Suc n)
  then obtain lg rem where IH: "log_step\<^sup>*\<^sup>* (new_log\<lparr>l_size := 30, l_outstanding := 3\<rparr>, [10, 10, 10]) (lg, rem)"
    "lh_n lg = int n" "l_size lg = 30" "l_outstanding lg = 3" "length (lh_block lg) = 30"
    "\<forall>x\<in>set (take n (lh_block lg)). unat x < n" "sum_list rem = 30 - n"
    by auto
  let ?lg = "lg\<lparr>lh_n := int (Suc n), lh_block := (lh_block lg)[n := of_nat n]\<rparr>"
  have n: "n < 29" using Suc.prems by simp
  obtain j where j: "j < length rem" "0 < rem ! j"
    using positive_member [of rem] IH(7) n by (auto simp: in_set_conv_nth)
  have "log_step (lg, rem) (?lg, rem[j := rem ! j - 1])"
    using log_step.append [OF log_write_fresh [OF IH(2) n IH(3-6)] _ j] IH(2) by simp
  with IH(1) have "log_step\<^sup>*\<^sup>* (new_log\<lparr>l_size := 30, l_outstanding := 3\<rparr>, [10, 10, 10]) (?lg, rem[j := rem ! j - 1])"
    by (rule rtranclp.rtrancl_into_rtrancl)
  moreover have "\<forall>x\<in>set (take (Suc n) ((lh_block lg)[n := of_nat n])). unat x < Suc n"
    using IH(5,6) n by (auto simp: take_Suc_conv_app_nth unat_of_nat less_Suc_eq)
  moreover have "sum_list (rem[j := rem ! j - 1]) = 30 - Suc n" using sum_list_dec [OF j] IH(7) by simp
  ultimately show ?case using IH by (intro exI [of _ ?lg] exI [of _ "rem[j := rem ! j - 1]"]) simp
qed

text \<open>
  C38: \<^verbatim>\<open>mkfs\<close> makes the log \<^verbatim>\<open>LOGSIZE\<close> blocks long, header included, so that it holds one block less than
  \<^verbatim>\<open>begin_op\<close> hands out: three calls that stay within their share of \<^verbatim>\<open>MAXOPBLOCKS\<close> blocks can reach a state
  in which the next block panics.
\<close>

theorem log_full_with_mkfs_size:
  "\<exists>lg rem r. log_step\<^sup>*\<^sup>* (new_log\<lparr>l_size := of_nat LOGSIZE\<rparr>, []) (lg, rem) \<and> r \<in> set rem \<and> 0 < r \<and>
     (\<forall>bs b. log_write bs lg b = Panic ''too big a transaction'')"
proof -
  let ?l = "new_log\<lparr>l_size := 30\<rparr>"
  have b: "log_step (?l\<lparr>l_outstanding := k\<rparr>, rem) (?l\<lparr>l_outstanding := k + 1\<rparr>, 10 # rem)" if "k < 3" for k rem
    using log_step.enter [of "?l\<lparr>l_outstanding := k\<rparr>" "?l\<lparr>l_outstanding := k + 1\<rparr>" rem] that
    by (simp add: begin_op_def new_log_def MAXOPBLOCKS_def LOGSIZE_def)
  have "?l\<lparr>l_outstanding := 0\<rparr> = ?l" by (simp add: new_log_def)
  then have "log_step\<^sup>*\<^sup>* (?l, []) (?l\<lparr>l_outstanding := 3\<rparr>, [10, 10, 10])"
    using b [of 0 "[]"] b [of 1 "[10]"] b [of 2 "[10, 10]"]
    by (auto intro: converse_rtranclp_into_rtranclp)
  moreover obtain lg rem where "log_step\<^sup>*\<^sup>* (?l\<lparr>l_outstanding := 3\<rparr>, [10, 10, 10]) (lg, rem)" "lh_n lg = 29"
    "l_size lg = 30" "sum_list rem = 1"
    using log_fills [of 29] by auto
  moreover from this(4) obtain r where "r \<in> set rem" "0 < r" using positive_member [of rem] by auto
  ultimately show ?thesis
    by (intro exI [of _ lg] exI [of _ rem] exI [of _ r]) (auto simp: log_write_def LOGSIZE_def)
qed

section \<open>Instances\<close>

text \<open>A log of three blocks on the disk of eight blocks, and a cache in which block 5 has been changed.\<close>

definition small_log :: log where
  "small_log = \<lparr> l_start = 2, l_size = 3, l_outstanding = 0, l_committing = False, l_dev = 1, lh_n = 0, lh_block = replicate 30 0 \<rparr>"

definition tx_log :: log where
  "tx_log = small_log\<lparr>lh_n := 1, lh_block := 5 # replicate 29 0\<rparr>"

definition tx_state :: bcache where
  "tx_state = set_buf (binit zero_disk 1) 0 (\<lambda>b. b\<lparr>b_valid := True, b_dirty := True, b_dev := 1, b_blockno := 5, b_data := replicate 512 7\<rparr>)"

lemma tx_state_sel [simp]:
  "memdisk tx_state = zero_disk" "trace tx_state = []" "length (bufs tx_state) = NBUF"
  "i < NBUF \<Longrightarrow> bufs tx_state ! i = (if i = 0 then zero_buf\<lparr>b_valid := True, b_dirty := True, b_dev := 1, b_blockno := 5, b_data := replicate 512 7\<rparr>
     else zero_buf)"
  by (simp_all add: tx_state_def binit_def nth_list_update NBUF_def)

lemma tx_state_inv: "bio_inv tx_state {}" "dirty_blocks tx_state = {5}" "view tx_state 5 = replicate 512 7"
proof -
  have "lru tx_state = lru (binit zero_disk 1)" "mypid tx_state = mypid (binit zero_disk 1)" by (simp_all add: tx_state_def)
  moreover have "distinct (lru (binit zero_disk 1))" "set (lru (binit zero_disk 1)) = {..<NBUF}"
    using binit_ok(1) [OF zero_disk_ok(1), of 1] by (simp_all add: bio_inv_def)
  ultimately show inv: "bio_inv tx_state {}"
    using zero_disk_ok by (auto simp: bio_inv_def buf_ok_def Let_def zero_buf_def BSIZE_def)
  show "dirty_blocks tx_state = {5}"
    by (auto simp: dirty_blocks_def zero_buf_def NBUF_def split: if_splits intro!: exI [of _ 0])
  show "view tx_state 5 = replicate 512 7"
    using view_buffered [OF inv, of 0] by (simp add: NBUF_def)
qed

lemma tx_log_wf: "log_wf (abs_bcache tx_state) tx_log [5]"
  using tx_state_inv(2) zero_disk_ok(2)
  by (simp add: log_wf_def tx_log_def small_log_def abs_bcache_def LOGSIZE_def log_area_def)

theorem commit_crash_atomic_witness:
  "\<exists>bs' ws r lg' r2 lg2. commit tx_state tx_log = Ok (bs', tx_log\<lparr>lh_n := 0\<rparr>) \<and> trace bs' = ws \<and>
     recover_from_log (binit (disk_after zero_disk (take 1 ws)) 1) small_log = Ok (r, lg') \<and> view r 5 = replicate 512 0 \<and>
     recover_from_log (binit (disk_after zero_disk (take 2 ws)) 1) small_log = Ok (r2, lg2) \<and> view r2 5 = replicate 512 7"
proof -
  have h: "word_at (memdisk tx_state ! unat (l_start tx_log)) 0 = 0"
    by (simp add: tx_log_def small_log_def zero_disk_ok(3) word_at_def get_at_def)
      (simp add: numeral_eq_Suc)
  have same: "same_log tx_log small_log" by (simp add: same_log_def tx_log_def small_log_def LOGSIZE_def)
  have area: "5 \<notin> log_area tx_log" by (simp add: log_area_def tx_log_def small_log_def)
  obtain bs' ws where c: "commit tx_state tx_log = Ok (bs', tx_log\<lparr>lh_n := 0\<rparr>)" "trace bs' = ws"
    and rec: "\<forall>k. \<exists>r lg'. recover_from_log (binit (disk_after zero_disk (take k ws)) 1) small_log = Ok (r, lg') \<and>
       (\<forall>m. m \<notin> log_area tx_log \<longrightarrow> view r m = (if k \<le> length [5 :: u32] then zero_disk ! unat m else view tx_state m))"
    using commit_crash_atomic [OF tx_state_inv(1) tx_log_wf _ _ h same, of 1, unfolded tx_state_sel append_Nil NBUF_def] by fastforce
  obtain r lg' where "recover_from_log (binit (disk_after zero_disk (take 1 ws)) 1) small_log = Ok (r, lg')" "view r 5 = replicate 512 0"
    using rec [rule_format, of 1] area by (auto simp: zero_disk_ok(3))
  moreover obtain r2 lg2 where "recover_from_log (binit (disk_after zero_disk (take 2 ws)) 1) small_log = Ok (r2, lg2)"
    "view r2 5 = replicate 512 7"
    using rec [rule_format, of 2] area by (auto simp: tx_state_inv(3))
  ultimately show ?thesis using c by blast
qed


end
