(* ===== verification/Xv6_Fs.thy ===== *)
theory Xv6_Fs
  imports Xv6_Tx Xv6_String
begin

text \<open>
  The file system layer of xv6 (\<^verbatim>\<open>src/xv6/base/fs.c\<close>): blocks, inodes, file contents, directories and
  path names, on top of the log and the buffer cache. An in-memory inode is an index of the inode
  cache. A C string is the list of its bytes before the terminating zero. Devices are a parameter:
  \<open>devsw\<close> gives what a call of a device's read or write function returns.
\<close>

section \<open>State\<close>

definition NINODE :: nat where "NINODE = 50"
definition NDEV :: int where "NDEV = 10"
definition ROOTDEV :: u32 where "ROOTDEV = 1"
definition ROOTINO :: u32 where "ROOTINO = 1"
definition NDIRECT :: nat where "NDIRECT = 12"
definition NINDIRECT :: nat where "NINDIRECT = BSIZE div 4"
definition MAXFILE :: nat where "MAXFILE = NDIRECT + NINDIRECT"
definition IPB :: nat where "IPB = BSIZE div 64"
definition BPB :: nat where "BPB = BSIZE * 8"
definition DIRSIZ :: nat where "DIRSIZ = 14"
definition T_DIR :: u16 where "T_DIR = 1"
definition T_FILE :: u16 where "T_FILE = 2"
definition T_DEV :: u16 where "T_DEV = 3"

record inode =
  i_dev :: u32
  i_inum :: u32
  i_ref :: int
  i_lock :: "nat option"
  i_valid :: bool
  i_type :: u16
  i_major :: u16
  i_minor :: u16
  i_nlink :: u16
  i_size :: u32
  i_addrs :: "u32 list"

record devsw =
  dev_read :: "nat \<Rightarrow> (u32 \<Rightarrow> int \<times> byte list) option"
  dev_write :: "nat \<Rightarrow> (byte list \<Rightarrow> int) option"

record fsys =
  bc :: bcache
  lg :: log
  sb :: superblock
  icache :: "inode list"

definition set_inode :: "fsys \<Rightarrow> nat \<Rightarrow> (inode \<Rightarrow> inode) \<Rightarrow> fsys" where
  "set_inode fs ip f = fs\<lparr>icache := (icache fs)[ip := f (icache fs ! ip)]\<rparr>"

text \<open>The calls of the buffer cache and the log on the whole state.\<close>

definition f_bread :: "fsys \<Rightarrow> u32 \<Rightarrow> u32 \<Rightarrow> (nat \<times> fsys) outcome" where
  "f_bread fs dev n = andThen (bread (bc fs) dev n) (\<lambda>(b, bs). Ok (b, fs\<lparr>bc := bs\<rparr>))"

definition f_data :: "fsys \<Rightarrow> nat \<Rightarrow> byte list" where
  "f_data fs b = buf_data (bc fs) b"

definition f_put :: "fsys \<Rightarrow> nat \<Rightarrow> byte list \<Rightarrow> fsys" where
  "f_put fs b d = fs\<lparr>bc := put_data (bc fs) b d\<rparr>"

definition f_log_write :: "fsys \<Rightarrow> nat \<Rightarrow> fsys outcome" where
  "f_log_write fs b = andThen (log_write (bc fs) (lg fs) b) (\<lambda>(bs, l). Ok (fs\<lparr>bc := bs, lg := l\<rparr>))"

definition f_brelse :: "fsys \<Rightarrow> nat \<Rightarrow> fsys outcome" where
  "f_brelse fs b = andThen (brelse (bc fs) b) (\<lambda>bs. Ok (fs\<lparr>bc := bs\<rparr>))"

section \<open>Blocks\<close>

definition bzero :: "fsys \<Rightarrow> u32 \<Rightarrow> u32 \<Rightarrow> fsys outcome" where
  "bzero fs dev bno =
     andThen (f_bread fs dev bno) (\<lambda>(bp, fs).
     andThen (f_log_write (f_put fs bp (replicate BSIZE 0)) bp) (\<lambda>fs.
       f_brelse fs bp))"

definition BBLOCK :: "nat \<Rightarrow> superblock \<Rightarrow> u32" where
  "BBLOCK b s = of_nat (b div BPB) + sb_bmapstart s"

definition IBLOCK :: "nat \<Rightarrow> superblock \<Rightarrow> u32" where
  "IBLOCK i s = of_nat (i div IPB) + sb_inodestart s"

definition bit_mask :: "nat \<Rightarrow> byte" where
  "bit_mask bi = push_bit (bi mod 8) 1"

text \<open>The bit \<open>bi\<close> of a bitmap block is clear, and the block with the bit set or cleared.\<close>

definition is_free :: "byte list \<Rightarrow> nat \<Rightarrow> bool" where
  "is_free d bi = (d ! (bi div 8) AND bit_mask bi = 0)"

definition mark_used :: "byte list \<Rightarrow> nat \<Rightarrow> byte list" where
  "mark_used d bi = d[bi div 8 := d ! (bi div 8) OR bit_mask bi]"

definition mark_free :: "byte list \<Rightarrow> nat \<Rightarrow> byte list" where
  "mark_free d bi = d[bi div 8 := d ! (bi div 8) AND NOT (bit_mask bi)]"

text \<open>The outer loop of \<^verbatim>\<open>balloc\<close>; the inner one stops at the first free bit.\<close>

function balloc_from :: "superblock \<Rightarrow> fsys \<Rightarrow> u32 \<Rightarrow> nat \<Rightarrow> (u32 \<times> fsys) outcome" where
  "balloc_from s fs dev b =
     (if b < unat (sb_size s)
      then andThen (f_bread fs dev (BBLOCK b s)) (\<lambda>(bp, fs).
           case find (is_free (f_data fs bp)) [0..<min BPB (unat (sb_size s) - b)] of
             Some bi \<Rightarrow>
               andThen (f_log_write (f_put fs bp (mark_used (f_data fs bp) bi)) bp) (\<lambda>fs.
               andThen (f_brelse fs bp) (\<lambda>fs.
               andThen (bzero fs dev (of_nat (b + bi))) (\<lambda>fs.
                 Ok (of_nat (b + bi), fs))))
           | None \<Rightarrow> andThen (f_brelse fs bp) (\<lambda>fs. balloc_from s fs dev (b + BPB)))
      else Panic ''balloc: out of blocks'')"
  by pat_completeness auto
termination
  by (relation "measure (\<lambda>(s, _, _, b). unat (sb_size s) - b)") (auto simp: BPB_def BSIZE_def)

declare balloc_from.simps [simp del]

definition balloc :: "fsys \<Rightarrow> u32 \<Rightarrow> (u32 \<times> fsys) outcome" where
  "balloc fs dev = balloc_from (sb fs) fs dev 0"

definition bfree :: "fsys \<Rightarrow> u32 \<Rightarrow> u32 \<Rightarrow> fsys outcome" where
  "bfree fs dev b =
     andThen (f_bread fs dev (BBLOCK (unat b) (sb fs))) (\<lambda>(bp, fs).
       let bi = unat b mod BPB
       in if is_free (f_data fs bp) bi then Panic ''freeing free block''
          else andThen (f_log_write (f_put fs bp (mark_free (f_data fs bp) bi)) bp) (\<lambda>fs.
               f_brelse fs bp))"

section \<open>Inodes\<close>

text \<open>The on-disk inode: four shorts, the size and the addresses, 64 bytes in all.\<close>

record dinode =
  d_type :: u16
  d_major :: u16
  d_minor :: u16
  d_nlink :: u16
  d_size :: u32
  d_addrs :: "u32 list"

definition half_at :: "byte list \<Rightarrow> nat \<Rightarrow> u16" where
  "half_at d off = un_le16 (get_at d off 2)"

definition dinode_of :: "byte list \<Rightarrow> nat \<Rightarrow> dinode" where
  "dinode_of d off = \<lparr> d_type = half_at d off, d_major = half_at d (off + 2), d_minor = half_at d (off + 4),
     d_nlink = half_at d (off + 6), d_size = word_at d (off + 8), d_addrs = words_at d (off + 12) (NDIRECT + 1) \<rparr>"

definition dinode_bytes :: "dinode \<Rightarrow> byte list" where
  "dinode_bytes di = le16 (d_type di) @ le16 (d_major di) @ le16 (d_minor di) @ le16 (d_nlink di) @ le32 (d_size di) @
     concat (map le32 (d_addrs di))"

definition dinode_off :: "u32 \<Rightarrow> nat" where
  "dinode_off inum = 64 * (unat inum mod IPB)"

definition iupdate :: "fsys \<Rightarrow> nat \<Rightarrow> fsys outcome" where
  "iupdate fs ip =
     (let i = icache fs ! ip
      in andThen (f_bread fs (i_dev i) (IBLOCK (unat (i_inum i)) (sb fs))) (\<lambda>(bp, fs).
         let d = put_at (f_data fs bp) (dinode_off (i_inum i)) (dinode_bytes
               \<lparr> d_type = i_type i, d_major = i_major i, d_minor = i_minor i, d_nlink = i_nlink i, d_size = i_size i,
                 d_addrs = i_addrs i \<rparr>)
         in andThen (f_log_write (f_put fs bp d) bp) (\<lambda>fs. f_brelse fs bp)))"

definition iget :: "fsys \<Rightarrow> u32 \<Rightarrow> u32 \<Rightarrow> (nat \<times> fsys) outcome" where
  "iget fs dev inum =
     (case find (\<lambda>ip. let i = icache fs ! ip in 0 < i_ref i \<and> i_dev i = dev \<and> i_inum i = inum) [0..<NINODE] of
        Some ip \<Rightarrow> Ok (ip, set_inode fs ip (\<lambda>i. i\<lparr>i_ref := i_ref i + 1\<rparr>))
      | None \<Rightarrow>
          (case find (\<lambda>ip. i_ref (icache fs ! ip) = 0) [0..<NINODE] of
             None \<Rightarrow> Panic ''iget: no inodes''
           | Some ip \<Rightarrow> Ok (ip, set_inode fs ip (\<lambda>i. i\<lparr>i_dev := dev, i_inum := inum, i_ref := 1, i_valid := False\<rparr>))))"

function ialloc_from :: "superblock \<Rightarrow> fsys \<Rightarrow> u32 \<Rightarrow> u16 \<Rightarrow> nat \<Rightarrow> (nat \<times> fsys) outcome" where
  "ialloc_from s fs dev type inum =
     (if inum < unat (sb_ninodes s)
      then andThen (f_bread fs dev (IBLOCK inum s)) (\<lambda>(bp, fs).
             let off = 64 * (inum mod IPB)
             in if half_at (f_data fs bp) off = 0
                then andThen (f_log_write (f_put fs bp (put_at (put_at (f_data fs bp) off (replicate 64 0)) off (le16 type))) bp) (\<lambda>fs.
                     andThen (f_brelse fs bp) (\<lambda>fs. iget fs dev (of_nat inum)))
                else andThen (f_brelse fs bp) (\<lambda>fs. ialloc_from s fs dev type (inum + 1)))
      else Panic ''ialloc: no inodes'')"
  by pat_completeness auto
termination
  by (relation "measure (\<lambda>(s, _, _, _, inum). unat (sb_ninodes s) - inum)") auto

declare ialloc_from.simps [simp del]

definition ialloc :: "fsys \<Rightarrow> u32 \<Rightarrow> u16 \<Rightarrow> (nat \<times> fsys) outcome" where
  "ialloc fs dev type = ialloc_from (sb fs) fs dev type 1"

definition idup :: "fsys \<Rightarrow> nat \<Rightarrow> nat \<times> fsys" where
  "idup fs ip = (ip, set_inode fs ip (\<lambda>i. i\<lparr>i_ref := i_ref i + 1\<rparr>))"

definition ilock :: "fsys \<Rightarrow> nat \<Rightarrow> fsys outcome" where
  "ilock fs ip =
     (if i_ref (icache fs ! ip) < 1 then Panic ''ilock''
      else if i_lock (icache fs ! ip) \<noteq> None then Sleep ''inode''
      else let fs = set_inode fs ip (\<lambda>i. i\<lparr>i_lock := Some (mypid (bc fs))\<rparr>); i = icache fs ! ip
           in if \<not> i_valid i
              then andThen (f_bread fs (i_dev i) (IBLOCK (unat (i_inum i)) (sb fs))) (\<lambda>(bp, fs).
                     let d = dinode_of (f_data fs bp) (dinode_off (i_inum i))
                     in andThen (f_brelse fs bp) (\<lambda>fs.
                          let fs = set_inode fs ip (\<lambda>i. i\<lparr>i_type := d_type d, i_major := d_major d, i_minor := d_minor d,
                                i_nlink := d_nlink d, i_size := d_size d, i_addrs := d_addrs d, i_valid := True\<rparr>)
                          in if d_type d = 0 then Panic ''ilock: no type'' else Ok fs))
              else Ok fs)"

definition iunlock :: "fsys \<Rightarrow> nat \<Rightarrow> fsys outcome" where
  "iunlock fs ip =
     (if i_lock (icache fs ! ip) \<noteq> Some (mypid (bc fs)) \<or> i_ref (icache fs ! ip) < 1 then Panic ''iunlock''
      else Ok (set_inode fs ip (\<lambda>i. i\<lparr>i_lock := None\<rparr>)))"

section \<open>File contents\<close>

definition bmap :: "fsys \<Rightarrow> nat \<Rightarrow> nat \<Rightarrow> (u32 \<times> fsys) outcome" where
  "bmap fs ip bn =
     (let i = icache fs ! ip
      in if bn < NDIRECT
         then if i_addrs i ! bn = 0
              then andThen (balloc fs (i_dev i)) (\<lambda>(addr, fs).
                     Ok (addr, set_inode fs ip (\<lambda>i. i\<lparr>i_addrs := (i_addrs i)[bn := addr]\<rparr>)))
              else Ok (i_addrs i ! bn, fs)
         else if bn - NDIRECT < NINDIRECT
         then andThen (if i_addrs i ! NDIRECT = 0
                       then andThen (balloc fs (i_dev i)) (\<lambda>(addr, fs).
                              Ok (addr, set_inode fs ip (\<lambda>i. i\<lparr>i_addrs := (i_addrs i)[NDIRECT := addr]\<rparr>)))
                       else Ok (i_addrs i ! NDIRECT, fs)) (\<lambda>(ind, fs).
              andThen (f_bread fs (i_dev i) ind) (\<lambda>(bp, fs).
              let addr = word_at (f_data fs bp) (4 * (bn - NDIRECT))
              in andThen (if addr = 0
                          then andThen (balloc fs (i_dev i)) (\<lambda>(addr, fs).
                               andThen (f_log_write (f_put fs bp (put_at (f_data fs bp) (4 * (bn - NDIRECT)) (le32 addr))) bp) (\<lambda>fs.
                                 Ok (addr, fs)))
                          else Ok (addr, fs)) (\<lambda>(addr, fs).
                 andThen (f_brelse fs bp) (\<lambda>fs. Ok (addr, fs)))))
         else Panic ''bmap: out of range'')"

text \<open>A loop over a list of values that may stop the program.\<close>

fun each :: "('x \<Rightarrow> 's \<Rightarrow> 's outcome) \<Rightarrow> 'x list \<Rightarrow> 's \<Rightarrow> 's outcome" where
  "each f [] s = Ok s"
| "each f (x # xs) s = andThen (f x s) (each f xs)"

definition itrunc :: "fsys \<Rightarrow> nat \<Rightarrow> fsys outcome" where
  "itrunc fs ip =
     andThen (each (\<lambda>k fs. let i = icache fs ! ip in
           if i_addrs i ! k \<noteq> 0
           then andThen (bfree fs (i_dev i) (i_addrs i ! k)) (\<lambda>fs.
                  Ok (set_inode fs ip (\<lambda>i. i\<lparr>i_addrs := (i_addrs i)[k := 0]\<rparr>)))
           else Ok fs) [0..<NDIRECT] fs) (\<lambda>fs.
     andThen (let i = icache fs ! ip in
           if i_addrs i ! NDIRECT \<noteq> 0
           then andThen (f_bread fs (i_dev i) (i_addrs i ! NDIRECT)) (\<lambda>(bp, fs).
                andThen (each (\<lambda>j fs. let a = word_at (f_data fs bp) (4 * j) in
                    if a \<noteq> 0 then bfree fs (i_dev i) a else Ok fs) [0..<NINDIRECT] fs) (\<lambda>fs.
                andThen (f_brelse fs bp) (\<lambda>fs.
                andThen (bfree fs (i_dev i) (i_addrs i ! NDIRECT)) (\<lambda>fs.
                  Ok (set_inode fs ip (\<lambda>i. i\<lparr>i_addrs := (i_addrs i)[NDIRECT := 0]\<rparr>))))))
           else Ok fs) (\<lambda>fs.
       iupdate (set_inode fs ip (\<lambda>i. i\<lparr>i_size := 0\<rparr>)) ip))"

definition iput :: "fsys \<Rightarrow> nat \<Rightarrow> fsys outcome" where
  "iput fs ip =
     (if i_lock (icache fs ! ip) \<noteq> None then Sleep ''inode''
      else let fs = set_inode fs ip (\<lambda>i. i\<lparr>i_lock := Some (mypid (bc fs))\<rparr>); i = icache fs ! ip
           in andThen (if i_valid i \<and> i_nlink i = 0 \<and> i_ref i = 1
                       then andThen (itrunc fs ip) (\<lambda>fs.
                            andThen (iupdate (set_inode fs ip (\<lambda>i. i\<lparr>i_type := 0\<rparr>)) ip) (\<lambda>fs.
                              Ok (set_inode fs ip (\<lambda>i. i\<lparr>i_valid := False\<rparr>))))
                       else Ok fs) (\<lambda>fs.
              Ok (set_inode fs ip (\<lambda>i. i\<lparr>i_lock := None, i_ref := i_ref i - 1\<rparr>))))"

definition iunlockput :: "fsys \<Rightarrow> nat \<Rightarrow> fsys outcome" where
  "iunlockput fs ip = andThen (iunlock fs ip) (\<lambda>fs. iput fs ip)"

record statbuf =
  st_type :: u16
  st_dev :: u32
  st_ino :: u32
  st_nlink :: u16
  st_size :: u32

definition stati :: "fsys \<Rightarrow> nat \<Rightarrow> statbuf" where
  "stati fs ip = (let i = icache fs ! ip
     in \<lparr> st_type = i_type i, st_dev = i_dev i, st_ino = i_inum i, st_nlink = i_nlink i, st_size = i_size i \<rparr>)"

text \<open>The loops of \<^verbatim>\<open>readi\<close> and \<^verbatim>\<open>writei\<close>; \<open>n\<close> is what remains to be copied. The reading loop returns the bytes.\<close>

definition chunk :: "nat \<Rightarrow> nat \<Rightarrow> nat" where
  "chunk off n = min n (BSIZE - off mod BSIZE)"

lemma chunk_bounds: "0 < n \<Longrightarrow> 0 < chunk off n" "chunk off n \<le> n" "off mod BSIZE + chunk off n \<le> BSIZE"
  using mod_less_divisor [of BSIZE off] by (auto simp: chunk_def BSIZE_def)

function readi_loop :: "fsys \<Rightarrow> nat \<Rightarrow> nat \<Rightarrow> nat \<Rightarrow> (byte list \<times> fsys) outcome" where
  "readi_loop fs ip off n =
     (if 0 < n
      then andThen (bmap fs ip (off div BSIZE)) (\<lambda>(addr, fs).
           andThen (f_bread fs (i_dev (icache fs ! ip)) addr) (\<lambda>(bp, fs).
             let m = chunk off n; bs = get_at (f_data fs bp) (off mod BSIZE) m
             in andThen (f_brelse fs bp) (\<lambda>fs.
                andThen (readi_loop fs ip (off + m) (n - m)) (\<lambda>(rest, fs).
                  Ok (bs @ rest, fs)))))
      else Ok ([], fs))"
  by pat_completeness auto
termination
  by (relation "measure (\<lambda>(_, _, _, n). n)") (auto simp: chunk_bounds)

declare readi_loop.simps [simp del]

definition dev_ok :: "inode \<Rightarrow> bool" where
  "dev_ok i \<longleftrightarrow> 0 \<le> sint (i_major i) \<and> sint (i_major i) < NDEV"

definition readi :: "devsw \<Rightarrow> fsys \<Rightarrow> nat \<Rightarrow> u32 \<Rightarrow> u32 \<Rightarrow> ((int \<times> byte list) \<times> fsys) outcome" where
  "readi dv fs ip off n =
     (let i = icache fs ! ip
      in if i_type i = T_DEV
         then case (if dev_ok i then dev_read dv (unat (i_major i)) else None) of
                None \<Rightarrow> Ok ((-1, []), fs)
              | Some f \<Rightarrow> Ok (f n, fs)
         else if i_size i < off \<or> off + n < off then Ok ((-1, []), fs)
         else let n = (if i_size i < off + n then i_size i - off else n)
              in andThen (readi_loop fs ip (unat off) (unat n)) (\<lambda>(bs, fs). Ok ((sint n, bs), fs)))"

function writei_loop :: "fsys \<Rightarrow> nat \<Rightarrow> nat \<Rightarrow> byte list \<Rightarrow> fsys outcome" where
  "writei_loop fs ip off src =
     (if src \<noteq> []
      then andThen (bmap fs ip (off div BSIZE)) (\<lambda>(addr, fs).
           andThen (f_bread fs (i_dev (icache fs ! ip)) addr) (\<lambda>(bp, fs).
             let m = chunk off (length src)
             in andThen (f_log_write (f_put fs bp (put_at (f_data fs bp) (off mod BSIZE) (take m src))) bp) (\<lambda>fs.
                andThen (f_brelse fs bp) (\<lambda>fs.
                  writei_loop fs ip (off + m) (drop m src)))))
      else Ok fs)"
  by pat_completeness auto
termination
  by (relation "measure (\<lambda>(_, _, _, src). length src)") (auto simp: chunk_bounds)

declare writei_loop.simps [simp del]

definition writei :: "devsw \<Rightarrow> fsys \<Rightarrow> nat \<Rightarrow> byte list \<Rightarrow> u32 \<Rightarrow> u32 \<Rightarrow> (int \<times> fsys) outcome" where
  "writei dv fs ip src off n =
     (let i = icache fs ! ip
      in if i_type i = T_DEV
         then case (if dev_ok i then dev_write dv (unat (i_major i)) else None) of
                None \<Rightarrow> Ok (-1, fs)
              | Some f \<Rightarrow> Ok (f (take (unat n) src), fs)
         else if i_size i < off \<or> off + n < off then Ok (-1, fs)
         else if of_nat (MAXFILE * BSIZE) < off + n then Ok (-1, fs)
         else andThen (writei_loop fs ip (unat off) (take (unat n) src)) (\<lambda>fs.
              andThen (if 0 < n \<and> i_size (icache fs ! ip) < off + n
                       then iupdate (set_inode fs ip (\<lambda>i. i\<lparr>i_size := off + n\<rparr>)) ip
                       else Ok fs) (\<lambda>fs.
                Ok (sint n, fs))))"

section \<open>Directories\<close>

text \<open>A directory entry: an inode number of two bytes and a name of \<^verbatim>\<open>DIRSIZ\<close> bytes.\<close>

definition de_inum :: "byte list \<Rightarrow> u16" where
  "de_inum de = half_at de 0"

definition de_name :: "byte list \<Rightarrow> byte list" where
  "de_name de = get_at de 2 DIRSIZ"

text \<open>\<^verbatim>\<open>strncmp\<close> on a C string and the name field of an entry.\<close>

definition namecmp :: "byte list \<Rightarrow> byte list \<Rightarrow> int" where
  "namecmp s t = strncmp (s @ [0] @ t @ [0]) 0 (length s + 1) DIRSIZ"

function dirlookup_from :: "devsw \<Rightarrow> fsys \<Rightarrow> nat \<Rightarrow> byte list \<Rightarrow> u32 \<Rightarrow> nat \<Rightarrow> ((nat \<times> nat) option \<times> fsys) outcome" where
  "dirlookup_from dv fs dp name sz off =
     (if off < unat sz
      then andThen (readi dv fs dp (of_nat off) 16) (\<lambda>((r, de), fs).
             if r \<noteq> 16 then Panic ''dirlookup read''
             else if de_inum de = 0 then dirlookup_from dv fs dp name sz (off + 16)
             else if namecmp name (de_name de) = 0
             then andThen (iget fs (i_dev (icache fs ! dp)) (ucast (de_inum de))) (\<lambda>(ip, fs).
                    Ok (Some (ip, off), fs))
             else dirlookup_from dv fs dp name sz (off + 16))
      else Ok (None, fs))"
  by pat_completeness auto
termination
  by (relation "measure (\<lambda>(_, _, _, _, sz, off). unat sz - off)") auto

declare dirlookup_from.simps [simp del]

definition dirlookup :: "devsw \<Rightarrow> fsys \<Rightarrow> nat \<Rightarrow> byte list \<Rightarrow> ((nat \<times> nat) option \<times> fsys) outcome" where
  "dirlookup dv fs dp name =
     (if i_type (icache fs ! dp) \<noteq> T_DIR then Panic ''dirlookup not DIR''
      else dirlookup_from dv fs dp name (i_size (icache fs ! dp)) 0)"

function free_dirent :: "devsw \<Rightarrow> fsys \<Rightarrow> nat \<Rightarrow> u32 \<Rightarrow> nat \<Rightarrow> (nat \<times> fsys) outcome" where
  "free_dirent dv fs dp sz off =
     (if off < unat sz
      then andThen (readi dv fs dp (of_nat off) 16) (\<lambda>((r, de), fs).
             if r \<noteq> 16 then Panic ''dirlink read''
             else if de_inum de = 0 then Ok (off, fs)
             else free_dirent dv fs dp sz (off + 16))
      else Ok (off, fs))"
  by pat_completeness auto
termination
  by (relation "measure (\<lambda>(_, _, _, sz, off). unat sz - off)") auto

declare free_dirent.simps [simp del]

text \<open>The name field that \<^verbatim>\<open>strncpy\<close> makes of a C string.\<close>

definition dir_name :: "byte list \<Rightarrow> byte list" where
  "dir_name name = take DIRSIZ (name @ replicate DIRSIZ 0)"

definition dirlink :: "devsw \<Rightarrow> fsys \<Rightarrow> nat \<Rightarrow> byte list \<Rightarrow> u32 \<Rightarrow> (int \<times> fsys) outcome" where
  "dirlink dv fs dp name inum =
     andThen (dirlookup dv fs dp name) (\<lambda>(r, fs).
       case r of
         Some (ip, _) \<Rightarrow> andThen (iput fs ip) (\<lambda>fs. Ok (-1, fs))
       | None \<Rightarrow>
           andThen (free_dirent dv fs dp (i_size (icache fs ! dp)) 0) (\<lambda>(off, fs).
           andThen (writei dv fs dp (le16 (ucast inum) @ dir_name name) (of_nat off) 16) (\<lambda>(w, fs).
             if w \<noteq> 16 then Panic ''dirlink'' else Ok (0, fs))))"

section \<open>Paths\<close>

definition slash :: byte where "slash = 47"

text \<open>The name that the caller gets and the rest of the path, or nothing if the path has no element.\<close>

definition skipelem :: "byte list \<Rightarrow> (byte list \<times> byte list) option" where
  "skipelem path =
     (let path = dropWhile (\<lambda>c. c = slash) path
      in if path = [] then None
         else let s = path;
                  path = dropWhile (\<lambda>c. c \<noteq> slash) path;
                  len = length s - length path;
                  name = (if DIRSIZ \<le> len then take DIRSIZ s else take len s)
              in Some (name, dropWhile (\<lambda>c. c = slash) path))"

lemma skipelem_shorter:
  assumes "skipelem path = Some (name, rest)"
  shows "length rest < length path"
proof -
  let ?p = "dropWhile (\<lambda>c. c = slash) path"
  have ne: "?p \<noteq> []" and rest: "rest = dropWhile (\<lambda>c. c = slash) (dropWhile (\<lambda>c. c \<noteq> slash) ?p)"
    using assms by (auto simp: skipelem_def Let_def split: if_splits)
  then obtain c cs where p: "?p = c # cs" "c \<noteq> slash" using hd_dropWhile [of "\<lambda>c. c = slash" path] by (cases ?p) auto
  have "length rest \<le> length (dropWhile (\<lambda>c. c \<noteq> slash) ?p)" unfolding rest by (rule length_dropWhile_le)
  also have "\<dots> \<le> length cs" using p length_dropWhile_le [of "\<lambda>c. c \<noteq> slash" cs] by simp
  also have "\<dots> < length ?p" using p by simp
  also have "\<dots> \<le> length path" by (rule length_dropWhile_le)
  finally show ?thesis .
qed

function namex_from :: "devsw \<Rightarrow> fsys \<Rightarrow> nat \<Rightarrow> byte list \<Rightarrow> bool \<Rightarrow> byte list \<Rightarrow> ((nat \<times> byte list) option \<times> fsys) outcome" where
  "namex_from dv fs ip path nameiparent name =
     (case skipelem path of
        Some (name, path) \<Rightarrow>
          andThen (ilock fs ip) (\<lambda>fs.
            if i_type (icache fs ! ip) \<noteq> T_DIR then andThen (iunlockput fs ip) (\<lambda>fs. Ok (None, fs))
            else if nameiparent \<and> path = [] then andThen (iunlock fs ip) (\<lambda>fs. Ok (Some (ip, name), fs))
            else andThen (dirlookup dv fs ip name) (\<lambda>(r, fs).
                   andThen (iunlockput fs ip) (\<lambda>fs.
                     case r of None \<Rightarrow> Ok (None, fs)
                     | Some (next, _) \<Rightarrow> namex_from dv fs next path nameiparent name)))
      | None \<Rightarrow> if nameiparent then andThen (iput fs ip) (\<lambda>fs. Ok (None, fs)) else Ok (Some (ip, name), fs))"
  by pat_completeness auto
termination
  by (relation "measure (\<lambda>(_, _, _, path, _, _). length path)") (auto dest: skipelem_shorter)

declare namex_from.simps [simp del]

definition namex :: "devsw \<Rightarrow> fsys \<Rightarrow> nat \<Rightarrow> byte list \<Rightarrow> bool \<Rightarrow> ((nat \<times> byte list) option \<times> fsys) outcome" where
  "namex dv fs cwd path nameiparent =
     andThen (if path \<noteq> [] \<and> hd path = slash then iget fs ROOTDEV ROOTINO else Ok (idup fs cwd)) (\<lambda>(ip, fs).
       namex_from dv fs ip path nameiparent [])"

definition namei :: "devsw \<Rightarrow> fsys \<Rightarrow> nat \<Rightarrow> byte list \<Rightarrow> (nat option \<times> fsys) outcome" where
  "namei dv fs cwd path = andThen (namex dv fs cwd path False) (\<lambda>(r, fs). Ok (map_option fst r, fs))"

definition nameiparent :: "devsw \<Rightarrow> fsys \<Rightarrow> nat \<Rightarrow> byte list \<Rightarrow> ((nat \<times> byte list) option \<times> fsys) outcome" where
  "nameiparent dv fs cwd path = namex dv fs cwd path True"

definition iinit :: "fsys \<Rightarrow> u32 \<Rightarrow> fsys outcome" where
  "iinit fs dev =
     (let fs = fs\<lparr>icache := map (\<lambda>i. i\<lparr>i_lock := None\<rparr>) (icache fs)\<rparr>
      in andThen (readsb (bc fs) dev) (\<lambda>(s, bs). Ok (fs\<lparr>bc := bs, sb := s\<rparr>)))"

end
