(* ===== verification/Xv6_Blocks.thy ===== *)
theory Xv6_Blocks
  imports Xv6_Fs
begin

text \<open>
  Blocks and file contents of the xv6 file system: reading and changing a block inside a transaction,
  allocation in the bitmap, and that \<^verbatim>\<open>readi\<close> returns what \<^verbatim>\<open>writei\<close> wrote.
\<close>

section \<open>Blocks inside a transaction\<close>

abbreviation seen_fs :: "fsys \<Rightarrow> u32 \<Rightarrow> byte list" where
  "seen_fs fs \<equiv> seen (abs_bcache (bc fs))"

text \<open>The invariant of a transaction with the logged blocks \<open>bl\<close>, and a block that file system code may change.\<close>

definition fs_tx :: "fsys \<Rightarrow> u32 list \<Rightarrow> bool" where
  "fs_tx fs bl \<longleftrightarrow> tx_inv (bc fs) (lg fs) bl"

definition fs_block :: "fsys \<Rightarrow> u32 \<Rightarrow> bool" where
  "fs_block fs n \<longleftrightarrow> unat n < nblocks (abs_bcache (bc fs)) \<and> n \<notin> log_area (lg fs)"

definition log_room :: "fsys \<Rightarrow> nat \<Rightarrow> bool" where
  "log_room fs k \<longleftrightarrow> k < LOGSIZE \<and> Suc k < unat (l_size (lg fs))"

text \<open>What operations on blocks leave alone.\<close>

definition same_fs :: "fsys \<Rightarrow> fsys \<Rightarrow> bool" where
  "same_fs fs fs' \<longleftrightarrow> icache fs' = icache fs \<and> sb fs' = sb fs \<and> l_start (lg fs') = l_start (lg fs) \<and> l_size (lg fs') = l_size (lg fs) \<and>
     nblocks (abs_bcache (bc fs')) = nblocks (abs_bcache (bc fs))"

lemma same_fs_trans: "same_fs a b \<Longrightarrow> same_fs b c \<Longrightarrow> same_fs a c"
  by (simp add: same_fs_def)

lemma same_fs_block: "same_fs fs fs' \<Longrightarrow> fs_block fs' n = fs_block fs n" "same_fs fs fs' \<Longrightarrow> log_room fs' k = log_room fs k"
  by (simp_all add: same_fs_def fs_block_def log_room_def log_area_def)

lemma fs_write_block:
  assumes "fs_tx fs bl" "fs_block fs n" "length d = BSIZE" "log_room fs (length bl)"
  obtains bp fs1 fs2 fs3 where "f_bread fs 1 n = Ok (bp, fs1)" "f_data fs1 bp = seen_fs fs n"
    "f_log_write (f_put fs1 bp d) bp = Ok fs2" "f_brelse fs2 bp = Ok fs3" "fs_tx fs3 (logged bl n)"
    "seen_fs fs3 = (seen_fs fs)(n := d)" "same_fs fs fs3"
proof -
  have tx: "tx_inv (bc fs) (lg fs) bl" "unat n < nblocks (abs_bcache (bc fs))" "n \<notin> log_area (lg fs)"
    "length bl < LOGSIZE" "Suc (length bl) < unat (l_size (lg fs))"
    using assms by (simp_all add: fs_tx_def fs_block_def log_room_def)
  obtain i s1 s2 l2 s3 where w: "bread (bc fs) 1 n = Ok (i, s1)" "buf_data s1 i = seen_fs fs n"
    "log_write (put_data s1 i d) (lg fs) i = Ok (s2, l2)" "brelse s2 i = Ok s3" "tx_inv s3 l2 (logged bl n)"
    "abs_bcache s3 = pin_spec n (put_spec n d (abs_bcache (bc fs)))"
    "l_start l2 = l_start (lg fs)" "l_size l2 = l_size (lg fs)"
    using tx_write_block [OF tx(1-3) assms(3) tx(4,5)] by blast
  show ?thesis
    by (rule that [of i "fs\<lparr>bc := s1\<rparr>" "fs\<lparr>bc := s2, lg := l2\<rparr>" "fs\<lparr>bc := s3, lg := l2\<rparr>"])
      (use w in \<open>simp_all add: f_bread_def f_data_def f_log_write_def f_put_def f_brelse_def fs_tx_def same_fs_def block_specs\<close>)
qed

lemma fs_read_block:
  assumes "fs_tx fs bl" "fs_block fs n" "length bl < NBUF"
  obtains bp fs1 fs2 where "f_bread fs 1 n = Ok (bp, fs1)" "f_data fs1 bp = seen_fs fs n" "f_brelse fs1 bp = Ok fs2"
    "fs_tx fs2 bl" "seen_fs fs2 = seen_fs fs" "same_fs fs fs2"
proof -
  have tx: "bio_inv (bc fs) {}" "log_wf (abs_bcache (bc fs)) (lg fs) bl" "unat n < nblocks (abs_bcache (bc fs))"
    using assms by (simp_all add: fs_tx_def tx_inv_def fs_block_def)
  have "card (pinned (abs_bcache (bc fs))) < NBUF" using card_pinned [OF tx(2)] assms(3) by simp
  then obtain i s1 s2 where r: "bread (bc fs) 1 n = Ok (i, s1)" "buf_data s1 i = seen_fs fs n" "brelse s1 i = Ok s2"
    "bio_inv s2 {}" "abs_bcache s2 = abs_bcache (bc fs)"
    using bio.read_block [OF tx(1,3)] by blast
  show ?thesis
    by (rule that [of i "fs\<lparr>bc := s1\<rparr>" "fs\<lparr>bc := s2\<rparr>"])
      (use r assms(1) in \<open>simp_all add: f_bread_def f_data_def f_brelse_def fs_tx_def tx_inv_def same_fs_def\<close>)
qed

lemma length_seen_fs: "fs_tx fs bl \<Longrightarrow> fs_block fs n \<Longrightarrow> length (seen_fs fs n) = BSIZE"
  using bio.length_law [of "bc fs" "{}" n] by (simp add: fs_tx_def tx_inv_def fs_block_def)

lemma length_logged: "length (logged bl n) \<le> Suc (length bl)"
  by (simp add: logged_def)

lemma log_room_mono: "log_room fs k \<Longrightarrow> j \<le> k \<Longrightarrow> log_room fs j"
  by (auto simp: log_room_def)

lemma log_room_NBUF: "log_room fs k \<Longrightarrow> k < NBUF"
  by (simp add: log_room_def LOGSIZE_def NBUF_def)

section \<open>The bitmap\<close>

lemma bit_bit_mask: "bit (bit_mask bi) k \<longleftrightarrow> k = bi mod 8"
  by (auto simp: bit_mask_def bit_simps)

lemma and_bit_mask: "w AND bit_mask k = 0 \<longleftrightarrow> \<not> bit w (k mod 8)"
proof -
  have "w AND bit_mask k = 0 \<longleftrightarrow> (\<forall>n<8. \<not> bit (w AND bit_mask k) n)"
    by (subst bit_eq_iff) simp
  moreover have "k mod 8 < 8" by simp
  ultimately show ?thesis by (simp only: bit_and_iff bit_bit_mask) blast
qed

lemma is_free_bit: "is_free d bi \<longleftrightarrow> \<not> bit (d ! (bi div 8)) (bi mod 8)"
  by (simp add: is_free_def and_bit_mask)

lemma div_mod_8_eq: "(a :: nat) div 8 = b div 8 \<Longrightarrow> a mod 8 = b mod 8 \<Longrightarrow> a = b"
  by (metis div_mult_mod_eq)

lemma is_free_mark_used:
  assumes "bi div 8 < length d"
  shows "is_free (mark_used d bi) bj \<longleftrightarrow> is_free d bj \<and> bj \<noteq> bi"
proof (cases "bi div 8 = bj div 8")
  case True
  then have "bj = bi \<longleftrightarrow> bj mod 8 = bi mod 8" using div_mod_8_eq [of bj bi] by auto
  with assms True show ?thesis by (simp add: is_free_bit mark_used_def bit_or_iff bit_bit_mask)
next
  case False
  then have "bj \<noteq> bi" by auto
  with False show ?thesis by (simp add: is_free_bit mark_used_def)
qed

lemma is_free_mark_free:
  assumes "bi div 8 < length d"
  shows "is_free (mark_free d bi) bj \<longleftrightarrow> is_free d bj \<or> bj = bi"
proof (cases "bi div 8 = bj div 8")
  case True
  then have "bj = bi \<longleftrightarrow> bj mod 8 = bi mod 8" using div_mod_8_eq [of bj bi] by auto
  moreover have "bit (NOT (bit_mask bi)) (bj mod 8) \<longleftrightarrow> bj mod 8 \<noteq> bi mod 8" by (simp add: bit_not_iff bit_bit_mask)
  ultimately show ?thesis using assms True by (auto simp: is_free_bit mark_free_def bit_and_iff)
next
  case False
  then have "bj \<noteq> bi" by auto
  with False show ?thesis by (simp add: is_free_bit mark_free_def)
qed

lemma length_mark [simp]: "length (mark_used d bi) = length d" "length (mark_free d bi) = length d"
  by (simp_all add: mark_used_def mark_free_def)

text \<open>The block \<open>b\<close> is free according to the bitmap.\<close>

definition block_free :: "fsys \<Rightarrow> nat \<Rightarrow> bool" where
  "block_free fs b \<longleftrightarrow> b < unat (sb_size (sb fs)) \<and> is_free (seen_fs fs (BBLOCK b (sb fs))) (b mod BPB)"

text \<open>
  The layout that \<^verbatim>\<open>mkfs\<close> establishes: the bitmap covers the disk, its blocks are ordinary blocks, and
  only ordinary blocks that are not part of it are free.
\<close>

definition bitmap_ok :: "fsys \<Rightarrow> bool" where
  "bitmap_ok fs \<longleftrightarrow> (\<forall>b<unat (sb_size (sb fs)). fs_block fs (BBLOCK b (sb fs)) \<and>
       unat (BBLOCK b (sb fs)) = b div BPB + unat (sb_bmapstart (sb fs))) \<and>
     (\<forall>b. block_free fs b \<longrightarrow> fs_block fs (of_nat b) \<and> (\<forall>c<unat (sb_size (sb fs)). of_nat b \<noteq> BBLOCK c (sb fs)))"

lemma bzero_ok:
  assumes "fs_tx fs bl" "fs_block fs n" "log_room fs (length bl)"
  shows "\<exists>fs'. bzero fs 1 n = Ok fs' \<and> fs_tx fs' (logged bl n) \<and> seen_fs fs' = (seen_fs fs)(n := replicate BSIZE 0) \<and> same_fs fs fs'"
  by (rule fs_write_block [OF assms(1,2) length_replicate [of BSIZE 0] assms(3)]) (simp add: bzero_def)

lemma BBLOCK_add:
  assumes "BPB dvd b" "bi < BPB"
  shows "BBLOCK (b + bi) s = BBLOCK b s" "(b + bi) mod BPB = bi"
  using assms by (auto simp: BBLOCK_def elim!: dvdE)

lemma balloc_from_ok:
  assumes "fs_tx fs bl" "bitmap_ok fs" "log_room fs (Suc (length bl))" "BPB dvd b" "\<forall>c<b. \<not> block_free fs c" "block_free fs c"
  shows "\<exists>a fs'. balloc_from (sb fs) fs 1 b = Ok (of_nat a, fs') \<and> block_free fs a \<and> (\<forall>c. block_free fs c \<longrightarrow> a \<le> c) \<and>
    fs_tx fs' (logged (logged bl (BBLOCK a (sb fs))) (of_nat a)) \<and> same_fs fs fs' \<and>
    seen_fs fs' = (seen_fs fs)(BBLOCK a (sb fs) := mark_used (seen_fs fs (BBLOCK a (sb fs))) (a mod BPB), of_nat a := replicate BSIZE 0)"
  using assms
proof (induction "unat (sb_size (sb fs)) - b" arbitrary: b fs rule: less_induct)
  case less
  let ?s = "sb fs" and ?n = "BBLOCK b (sb fs)" and ?lim = "min BPB (unat (sb_size (sb fs)) - b)"
  have b: "b < unat (sb_size ?s)" using less.prems(5,6) by (metis block_free_def le_less_trans not_less)
  then have blk: "fs_block fs ?n" using less.prems(2) by (simp add: bitmap_ok_def)
  have room: "log_room fs (length bl)" using log_room_mono [OF less.prems(3)] by simp
  have free: "block_free fs (b + bi) \<longleftrightarrow> is_free (seen_fs fs ?n) bi" if "bi < ?lim" for bi
    using that BBLOCK_add [OF less.prems(4), where bi = bi] by (auto simp: block_free_def)
  show ?case
  proof (cases "find (is_free (seen_fs fs ?n)) [0..<?lim]")
    case (Some bi)
    define a where "a = b + bi"
    let ?d = "mark_used (seen_fs fs ?n) bi"
    have bi: "bi < ?lim" "is_free (seen_fs fs ?n) bi" "\<And>j. j < bi \<Longrightarrow> \<not> is_free (seen_fs fs ?n) j"
      using Some by (auto simp: find_Some_iff)
    have af: "BBLOCK a ?s = ?n" "a mod BPB = bi" "block_free fs a"
      using bi free BBLOCK_add [OF less.prems(4), where bi = bi] by (auto simp: a_def)
    have blka: "fs_block fs (of_nat a)" using less.prems(2) af(3) by (simp add: bitmap_ok_def)
    have d: "length ?d = BSIZE" using length_seen_fs [OF less.prems(1) blk] by simp
    obtain bp fs1 fs2 fs3 where w: "f_bread fs 1 ?n = Ok (bp, fs1)" "f_data fs1 bp = seen_fs fs ?n"
      "f_log_write (f_put fs1 bp ?d) bp = Ok fs2" "f_brelse fs2 bp = Ok fs3" "fs_tx fs3 (logged bl ?n)"
      "seen_fs fs3 = (seen_fs fs)(?n := ?d)" "same_fs fs fs3"
      by (rule fs_write_block [OF less.prems(1) blk d room])
    have "fs_block fs3 (of_nat a)" "log_room fs3 (length (logged bl ?n))"
      using blka log_room_mono [OF less.prems(3) length_logged] same_fs_block [OF w(7)] by simp_all
    then obtain fs4 where z: "bzero fs3 1 (of_nat a) = Ok fs4" "fs_tx fs4 (logged (logged bl ?n) (of_nat a))"
      "seen_fs fs4 = (seen_fs fs3)(of_nat a := replicate BSIZE 0)" "same_fs fs3 fs4"
      using bzero_ok [OF w(5)] by blast
    have "balloc_from ?s fs 1 b = Ok (of_nat a, fs4)"
      using b w Some z(1) by (subst balloc_from.simps) (simp add: a_def)
    moreover have "a \<le> c" if "block_free fs c" for c
    proof (rule ccontr)
      assume "\<not> a \<le> c"
      then have "c < b + bi" by (simp add: a_def)
      moreover have "b \<le> c" using less.prems(5) that by (meson not_less)
      ultimately have "c - b < bi" "b + (c - b) = c" by auto
      then show False using bi(1,3) free [of "c - b"] that by auto
    qed
    ultimately show ?thesis using af z w(6) same_fs_trans [OF w(7) z(4)] by (intro exI [of _ a] exI [of _ fs4]) simp
  next
    case None
    have none: "\<not> block_free fs c" if "c < b + BPB" for c
    proof (cases "c < b")
      case False
      then have "c - b < BPB" "b + (c - b) = c" using that by auto
      then show ?thesis
        using free [of "c - b"] None that by (cases "c < unat (sb_size ?s)") (auto simp: find_None_iff block_free_def)
    qed (use less.prems(5) in simp)
    obtain bp fs1 fs2 where r: "f_bread fs 1 ?n = Ok (bp, fs1)" "f_data fs1 bp = seen_fs fs ?n" "f_brelse fs1 bp = Ok fs2"
      "fs_tx fs2 bl" "seen_fs fs2 = seen_fs fs" "same_fs fs fs2"
      by (rule fs_read_block [OF less.prems(1) blk log_room_NBUF [OF room]])
    have s2: "sb fs2 = ?s" using r(6) by (simp add: same_fs_def)
    have bf: "block_free fs2 c = block_free fs c" for c by (simp add: block_free_def r(5) s2)
    have "bitmap_ok fs2" using less.prems(2) same_fs_block(1) [OF r(6)] by (simp add: bitmap_ok_def bf s2)
    moreover have "unat (sb_size (sb fs2)) - (b + BPB) < unat (sb_size ?s) - b" using b by (simp add: s2 BPB_def BSIZE_def)
    moreover have "balloc_from ?s fs 1 b = balloc_from (sb fs2) fs2 1 (b + BPB)"
      using b r None by (subst balloc_from.simps) (simp add: s2)
    ultimately show ?thesis
      using less.hyps [of fs2 "b + BPB"] r(4) less.prems none same_fs_block(2) [OF r(6)] same_fs_trans [OF r(6)]
      unfolding bf s2 r(5) by (metis dvd_add dvd_refl)
  qed
qed

text \<open>
  C4: When some block is free, \<^verbatim>\<open>balloc\<close> returns the first free block, marks exactly that block as used in
  the bitmap, fills it with zeros and changes no other block.
\<close>

theorem balloc_takes_free_block:
  assumes "fs_tx fs bl" "bitmap_ok fs" "log_room fs (Suc (length bl))" "block_free fs c"
  shows "\<exists>a fs'. balloc fs 1 = Ok (of_nat a, fs') \<and> block_free fs a \<and> (\<forall>c. block_free fs c \<longrightarrow> a \<le> c) \<and>
    (\<forall>c. block_free fs' c \<longleftrightarrow> block_free fs c \<and> c \<noteq> a) \<and> seen_fs fs' (of_nat a) = replicate BSIZE 0 \<and>
    (\<forall>m. m \<noteq> of_nat a \<longrightarrow> m \<noteq> BBLOCK a (sb fs) \<longrightarrow> seen_fs fs' m = seen_fs fs m)"
proof -
  obtain a fs' where r: "balloc fs 1 = Ok (of_nat a, fs')" "block_free fs a" "\<forall>c. block_free fs c \<longrightarrow> a \<le> c" "same_fs fs fs'"
    "seen_fs fs' = (seen_fs fs)(BBLOCK a (sb fs) := mark_used (seen_fs fs (BBLOCK a (sb fs))) (a mod BPB), of_nat a := replicate BSIZE 0)"
    using balloc_from_ok [OF assms(1-3) dvd_0_right _ assms(4)] unfolding balloc_def by blast
  let ?B = "\<lambda>c. BBLOCK c (sb fs)"
  have s: "sb fs' = sb fs" using r(4) by (simp add: same_fs_def)
  have a: "a < unat (sb_size (sb fs))" using r(2) by (simp add: block_free_def)
  have u: "unat (?B c) = c div BPB + unat (sb_bmapstart (sb fs))" "of_nat a \<noteq> ?B c" if "c < unat (sb_size (sb fs))" for c
    using assms(2) r(2) that by (simp_all add: bitmap_ok_def)
  have "length (seen_fs fs (?B a)) = BSIZE"
    using length_seen_fs [OF assms(1)] assms(2) a by (simp add: bitmap_ok_def)
  then have len: "a mod BPB div 8 < length (seen_fs fs (?B a))"
    by (simp add: BPB_def BSIZE_def less_mult_imp_div_less)
  have "block_free fs' c \<longleftrightarrow> block_free fs c \<and> c \<noteq> a" for c
  proof (cases "c < unat (sb_size (sb fs))")
    case True
    have same: "?B c = ?B a \<longleftrightarrow> c div BPB = a div BPB" using u(1) [OF True] u(1) [OF a] by (simp add: word_unat_eq_iff)
    have "c = a \<longleftrightarrow> ?B c = ?B a \<and> c mod BPB = a mod BPB" unfolding same by (metis div_mult_mod_eq)
    with True u(2) [OF True] show ?thesis
      by (auto simp: block_free_def s r(5) is_free_mark_used [OF len])
  qed (simp add: block_free_def s)
  with r u(2) [OF a] show ?thesis by (intro exI [of _ a] exI [of _ fs']) auto
qed

section \<open>File contents\<close>

text \<open>The byte at position \<open>p\<close> of a file with the addresses \<open>as\<close>, and the blocks of a file that are in place.\<close>

definition file_byte :: "(u32 \<Rightarrow> byte list) \<Rightarrow> u32 list \<Rightarrow> nat \<Rightarrow> byte" where
  "file_byte D as p = D (as ! (p div BSIZE)) ! (p mod BSIZE)"

definition mapped :: "fsys \<Rightarrow> u32 list \<Rightarrow> nat \<Rightarrow> bool" where
  "mapped fs as k \<longleftrightarrow> k < NDIRECT \<and> as ! k \<noteq> 0 \<and> fs_block fs (as ! k)"

definition separate :: "u32 list \<Rightarrow> bool" where
  "separate as \<longleftrightarrow> (\<forall>k<NDIRECT. \<forall>l<NDIRECT. as ! k = as ! l \<longrightarrow> as ! k \<noteq> 0 \<longrightarrow> k = l)"

lemma bmap_mapped: "mapped fs (i_addrs (icache fs ! ip)) k \<Longrightarrow> bmap fs ip k = Ok (i_addrs (icache fs ! ip) ! k, fs)"
  by (simp add: mapped_def bmap_def)

lemma mapped_same: "same_fs fs fs' \<Longrightarrow> mapped fs' as k = mapped fs as k"
  by (simp add: mapped_def same_fs_block)

lemma chunk_div:
  assumes "off \<le> p" "p < off + chunk off n"
  shows "p div BSIZE = off div BSIZE" "p mod BSIZE = off mod BSIZE + (p - off)"
proof -
  have "off mod BSIZE + (p - off) < BSIZE" using chunk_bounds(3) [of off n] assms by linarith
  moreover have "p = off div BSIZE * BSIZE + (off mod BSIZE + (p - off))" using assms by (simp add: add.assoc [symmetric])
  ultimately show "p div BSIZE = off div BSIZE" "p mod BSIZE = off mod BSIZE + (p - off)"
    by (metis add.commute div_mult_self3 div_less add_0_right mult.commute neq0_conv not_less_zero,
        metis mod_less mod_mult_self3)
qed

lemma chunk_iff:
  "p div BSIZE = off div BSIZE \<and> off mod BSIZE \<le> p mod BSIZE \<and> p mod BSIZE < off mod BSIZE + chunk off n \<longleftrightarrow>
   off \<le> p \<and> p < off + chunk off n"
proof
  assume "off \<le> p \<and> p < off + chunk off n"
  then show "p div BSIZE = off div BSIZE \<and> off mod BSIZE \<le> p mod BSIZE \<and> p mod BSIZE < off mod BSIZE + chunk off n"
    using chunk_div [of off p n] by auto
next
  assume "p div BSIZE = off div BSIZE \<and> off mod BSIZE \<le> p mod BSIZE \<and> p mod BSIZE < off mod BSIZE + chunk off n"
  moreover from this have "p = off div BSIZE * BSIZE + p mod BSIZE" using div_mult_mod_eq [of p BSIZE] by simp
  moreover have "off = off div BSIZE * BSIZE + off mod BSIZE" by simp
  ultimately show "off \<le> p \<and> p < off + chunk off n" by linarith
qed

text \<open>One block is written.\<close>

lemma file_byte_put:
  assumes "separate as" "k < NDIRECT" "p div BSIZE < NDIRECT" "as ! k \<noteq> 0"
    and "length (D (as ! k)) = BSIZE" "o' + length bs \<le> BSIZE"
  shows "file_byte (D(as ! k := put_at (D (as ! k)) o' bs)) as p =
    (if p div BSIZE = k \<and> o' \<le> p mod BSIZE \<and> p mod BSIZE < o' + length bs then bs ! (p mod BSIZE - o') else file_byte D as p)"
proof -
  have "p mod BSIZE < BSIZE" by (simp add: BSIZE_def)
  moreover have "as ! (p div BSIZE) = as ! k \<longleftrightarrow> p div BSIZE = k" using assms(1-4) unfolding separate_def by metis
  ultimately show ?thesis using assms(5,6) by (simp add: file_byte_def nth_put_at)
qed

lemma writei_chunk:
  fixes off ip src
  defines "m \<equiv> chunk off (length src)"
  assumes tx: "fs_tx fs bl" and dev: "i_dev (icache fs ! ip) = 1" and as: "as = i_addrs (icache fs ! ip)" "separate as"
    and map: "mapped fs as (off div BSIZE)" and room: "log_room fs (length bl)" and src: "src \<noteq> []"
  obtains fs' where "writei_loop fs ip off src = writei_loop fs' ip (off + m) (drop m src)"
    "fs_tx fs' (logged bl (as ! (off div BSIZE)))" "same_fs fs fs'"
    "\<forall>p. mapped fs as (p div BSIZE) \<longrightarrow> file_byte (seen_fs fs') as p =
       (if off \<le> p \<and> p < off + m then src ! (p - off) else file_byte (seen_fs fs) as p)"
proof -
  let ?b = "off div BSIZE" and ?o = "off mod BSIZE"
  have m: "0 < m" "m \<le> length src" "?o + m \<le> BSIZE"
    using chunk_bounds [where n = "length src" and off = off] src by (auto simp: m_def)
  have blk: "fs_block fs (as ! ?b)" "?b < NDIRECT" "as ! ?b \<noteq> 0" using map by (simp_all add: mapped_def)
  let ?d = "put_at (seen_fs fs (as ! ?b)) ?o (take m src)"
  have len: "length (seen_fs fs (as ! ?b)) = BSIZE" by (rule length_seen_fs [OF tx blk(1)])
  have d: "length ?d = BSIZE" using len m by simp
  obtain bp fs1 fs2 fs3 where w: "f_bread fs 1 (as ! ?b) = Ok (bp, fs1)" "f_data fs1 bp = seen_fs fs (as ! ?b)"
    "f_log_write (f_put fs1 bp ?d) bp = Ok fs2" "f_brelse fs2 bp = Ok fs3" "fs_tx fs3 (logged bl (as ! ?b))"
    "seen_fs fs3 = (seen_fs fs)(as ! ?b := ?d)" "same_fs fs fs3"
    by (rule fs_write_block [OF tx blk(1) d room])
  have step: "writei_loop fs ip off src = writei_loop fs3 ip (off + m) (drop m src)"
    using src w(1-4) dev as(1) bmap_mapped [of fs ip ?b] map by (subst writei_loop.simps) (simp add: m_def Let_def)
  have "file_byte (seen_fs fs3) as p = (if off \<le> p \<and> p < off + m then src ! (p - off) else file_byte (seen_fs fs) as p)"
    if p: "mapped fs as (p div BSIZE)" for p
  proof -
    have now: "file_byte (seen_fs fs3) as p = (if off \<le> p \<and> p < off + m then take m src ! (p mod BSIZE - ?o)
        else file_byte (seen_fs fs) as p)"
      using file_byte_put [OF as(2) blk(2), of p "seen_fs fs" ?o "take m src"] blk(3) len p m chunk_iff [of p off "length src"]
      by (simp add: mapped_def w(6) m_def)
    show ?thesis
    proof (cases "off \<le> p \<and> p < off + m")
      case True
      then have "p mod BSIZE - ?o = p - off" "p - off < m" using chunk_div(2) [of off p "length src"] by (auto simp: m_def)
      then show ?thesis using now True by simp
    qed (use now in auto)
  qed
  with step w(5,7) show ?thesis using that by blast
qed

lemma writei_loop_ok:
  assumes "fs_tx fs bl" "i_dev (icache fs ! ip) = 1" "separate (i_addrs (icache fs ! ip))"
    "\<forall>p. off \<le> p \<and> p < off + length src \<longrightarrow> mapped fs (i_addrs (icache fs ! ip)) (p div BSIZE)"
    "log_room fs (length bl + k)" "src \<noteq> [] \<longrightarrow> off mod BSIZE + length src \<le> k * BSIZE"
  shows "\<exists>fs' bl'. writei_loop fs ip off src = Ok fs' \<and> fs_tx fs' bl' \<and> length bl' \<le> length bl + k \<and> same_fs fs fs' \<and>
    (\<forall>p. mapped fs (i_addrs (icache fs ! ip)) (p div BSIZE) \<longrightarrow> file_byte (seen_fs fs') (i_addrs (icache fs ! ip)) p =
      (if off \<le> p \<and> p < off + length src then src ! (p - off) else file_byte (seen_fs fs) (i_addrs (icache fs ! ip)) p))"
  using assms
proof (induction "length src" arbitrary: fs bl off src k rule: less_induct)
  case less
  let ?as = "i_addrs (icache fs ! ip)" and ?m = "chunk off (length src)" and ?a = "i_addrs (icache fs ! ip) ! (off div BSIZE)"
  show ?case
  proof (cases "src = []")
    case True
    then have "writei_loop fs ip off src = Ok fs" by (subst writei_loop.simps) simp
    moreover have "length bl \<le> length bl + k" "same_fs fs fs" by (simp_all add: same_fs_def)
    ultimately show ?thesis using less.prems(1) True by (intro exI [of _ fs] exI [of _ bl] conjI allI) auto
  next
    case False
    then have m: "0 < ?m" "?m \<le> length src" using chunk_bounds [where n = "length src" and off = off] by auto
    obtain k' where k: "k = Suc k'" using less.prems(6) m False by (cases k) auto
    have "mapped fs ?as (off div BSIZE)" using less.prems(4) False by auto
    then obtain fs3 where w: "writei_loop fs ip off src = writei_loop fs3 ip (off + ?m) (drop ?m src)"
      "fs_tx fs3 (logged bl ?a)" "same_fs fs fs3"
      "\<forall>p. mapped fs ?as (p div BSIZE) \<longrightarrow> file_byte (seen_fs fs3) ?as p =
        (if off \<le> p \<and> p < off + ?m then src ! (p - off) else file_byte (seen_fs fs) ?as p)"
      using writei_chunk [OF less.prems(1,2) refl less.prems(3) _ _ False] log_room_mono [OF less.prems(5)] by auto
    have ic: "icache fs3 = icache fs" using w(3) by (simp add: same_fs_def)
    have room3: "log_room fs3 (length (logged bl ?a) + k')"
      using log_room_mono [OF less.prems(5)] length_logged [of bl ?a] same_fs_block(2) [OF w(3)] by (simp add: k)
    have fit: "(off + ?m) mod BSIZE + length (drop ?m src) \<le> k' * BSIZE" if "drop ?m src \<noteq> []"
    proof -
      have "off mod BSIZE + ?m = BSIZE" using that m by (auto simp: chunk_def min_def split: if_splits)
      moreover from this have "(off + ?m) mod BSIZE = 0" by (metis mod_add_left_eq mod_self)
      ultimately show ?thesis using less.prems(6) False k m by simp
    qed
    have map3: "\<forall>p. off + ?m \<le> p \<and> p < off + ?m + length (drop ?m src) \<longrightarrow> mapped fs ?as (p div BSIZE)"
      using less.prems(4) m by auto
    have lt: "length (drop ?m src) < length src" using m by simp
    obtain fs' bl' where IH: "writei_loop fs3 ip (off + ?m) (drop ?m src) = Ok fs'" "fs_tx fs' bl'"
      "length bl' \<le> length (logged bl ?a) + k'" "same_fs fs3 fs'"
      "\<forall>p. mapped fs ?as (p div BSIZE) \<longrightarrow> file_byte (seen_fs fs') ?as p =
        (if off + ?m \<le> p \<and> p < off + ?m + length (drop ?m src) then drop ?m src ! (p - (off + ?m)) else file_byte (seen_fs fs3) ?as p)"
      using less.hyps [OF lt w(2), unfolded ic mapped_same [OF w(3)], OF less.prems(2,3) map3 room3] fit by blast
    have "file_byte (seen_fs fs') ?as p = (if off \<le> p \<and> p < off + length src then src ! (p - off) else file_byte (seen_fs fs) ?as p)"
      if p: "mapped fs ?as (p div BSIZE)" for p
      using IH(5) w(4) p m by (cases "p < off + ?m") auto
    moreover have "length bl' \<le> length bl + k" using IH(3) length_logged [of bl ?a] k by simp
    ultimately show ?thesis using w(1) IH same_fs_trans [OF w(3) IH(4)] by auto
  qed
qed

lemma readi_loop_ok:
  assumes "fs_tx fs bl" "i_dev (icache fs ! ip) = 1" "length bl < NBUF"
    "\<forall>p. off \<le> p \<and> p < off + n \<longrightarrow> mapped fs (i_addrs (icache fs ! ip)) (p div BSIZE)"
  shows "\<exists>fs'. readi_loop fs ip off n = Ok (map (file_byte (seen_fs fs) (i_addrs (icache fs ! ip))) [off..<off + n], fs') \<and>
    fs_tx fs' bl \<and> same_fs fs fs' \<and> seen_fs fs' = seen_fs fs"
  using assms
proof (induction n arbitrary: fs off rule: less_induct)
  case (less n)
  let ?as = "i_addrs (icache fs ! ip)" and ?m = "chunk off n" and ?a = "i_addrs (icache fs ! ip) ! (off div BSIZE)"
  show ?case
  proof (cases "n = 0")
    case True
    then show ?thesis using less.prems(1) by (subst readi_loop.simps) (simp add: same_fs_def)
  next
    case False
    then have m: "0 < ?m" "?m \<le> n" "off mod BSIZE + ?m \<le> BSIZE" using chunk_bounds [where n = n and off = off] by auto
    have map: "mapped fs ?as (off div BSIZE)" using less.prems(4) False by auto
    then have blk: "fs_block fs ?a" by (simp add: mapped_def)
    obtain bp fs1 fs2 where r: "f_bread fs 1 ?a = Ok (bp, fs1)" "f_data fs1 bp = seen_fs fs ?a" "f_brelse fs1 bp = Ok fs2"
      "fs_tx fs2 bl" "seen_fs fs2 = seen_fs fs" "same_fs fs fs2"
      by (rule fs_read_block [OF less.prems(1) blk less.prems(3)])
    have ic: "icache fs2 = icache fs" using r(6) by (simp add: same_fs_def)
    have map2: "\<forall>p. off + ?m \<le> p \<and> p < off + ?m + (n - ?m) \<longrightarrow> mapped fs ?as (p div BSIZE)" using less.prems(4) m by auto
    have lt: "n - ?m < n" using m by simp
    obtain fs' where IH: "readi_loop fs2 ip (off + ?m) (n - ?m) =
        Ok (map (file_byte (seen_fs fs) ?as) [off + ?m..<off + ?m + (n - ?m)], fs')" "fs_tx fs' bl" "same_fs fs2 fs'" "seen_fs fs' = seen_fs fs"
      using less.IH [OF lt r(4), unfolded ic mapped_same [OF r(6)] r(5), OF less.prems(2,3) map2] by blast
    have "get_at (seen_fs fs ?a) (off mod BSIZE) ?m = map (file_byte (seen_fs fs) ?as) [off..<off + ?m]"
    proof (rule nth_equalityI)
      have len: "length (seen_fs fs ?a) = BSIZE" by (rule length_seen_fs [OF less.prems(1) blk])
      then show "length (get_at (seen_fs fs ?a) (off mod BSIZE) ?m) = length (map (file_byte (seen_fs fs) ?as) [off..<off + ?m])"
        using m by simp
      fix i assume "i < length (get_at (seen_fs fs ?a) (off mod BSIZE) ?m)"
      then have "i < ?m" by simp
      then show "get_at (seen_fs fs ?a) (off mod BSIZE) ?m ! i = map (file_byte (seen_fs fs) ?as) [off..<off + ?m] ! i"
        using len m chunk_div [of off "off + i" n] by (simp add: nth_get_at file_byte_def)
    qed
    then have "readi_loop fs ip off n = Ok (map (file_byte (seen_fs fs) ?as) ([off..<off + ?m] @ [off + ?m..<off + n]), fs')"
      using False r IH(1) less.prems(2) bmap_mapped [OF map] m by (subst readi_loop.simps) (simp add: Let_def)
    moreover have "[off..<off + ?m] @ [off + ?m..<off + n] = [off..<off + n]"
      using m upt_add_eq_append [of off "off + ?m" "n - ?m"] by simp
    ultimately show ?thesis using IH(2-4) same_fs_trans [OF r(6)] by auto
  qed
qed

text \<open>
  C3: \<^verbatim>\<open>writei\<close> into blocks that a file already has (its direct blocks, at most as many as fit in the
  transaction) returns the number of bytes, \<^verbatim>\<open>readi\<close> of the same range then returns exactly these bytes,
  and no other byte of the file has changed, whatever the offset and however many blocks the range spans.
\<close>

theorem writei_then_readi:
  assumes "fs_tx fs bl" "i_dev (icache fs ! ip) = 1" "i_type (icache fs ! ip) \<noteq> T_DEV" "separate (i_addrs (icache fs ! ip))"
    and "unat off + length src \<le> unat (i_size (icache fs ! ip))" "unat off + length src \<le> MAXFILE * BSIZE"
    and "\<forall>p. unat off \<le> p \<and> p < unat off + length src \<longrightarrow> mapped fs (i_addrs (icache fs ! ip)) (p div BSIZE)"
    and "log_room fs (length bl + k)" "unat off mod BSIZE + length src \<le> k * BSIZE"
  shows "\<exists>fs' fs''. writei dv fs ip src off (of_nat (length src)) = Ok (int (length src), fs') \<and>
    readi dv fs' ip off (of_nat (length src)) = Ok ((int (length src), src), fs'') \<and>
    (\<forall>p. mapped fs (i_addrs (icache fs ! ip)) (p div BSIZE) \<longrightarrow> p < unat off \<or> unat off + length src \<le> p \<longrightarrow>
      file_byte (seen_fs fs') (i_addrs (icache fs ! ip)) p = file_byte (seen_fs fs) (i_addrs (icache fs ! ip)) p)"
proof -
  let ?i = "icache fs ! ip" and ?as = "i_addrs (icache fs ! ip)" and ?n = "of_nat (length src) :: u32"
  have max: "MAXFILE * BSIZE = 71680" by (simp add: MAXFILE_def NDIRECT_def NINDIRECT_def BSIZE_def)
  have n: "unat ?n = length src" "unat (off + ?n) = unat off + length src" "sint ?n = int (length src)"
    using assms(6) max by (auto simp: unat_of_nat unat_word_ariths sint_eq_unat)
  have guards: "\<not> i_size ?i < off" "\<not> off + ?n < off" "\<not> of_nat (MAXFILE * BSIZE) < off + ?n" "\<not> i_size ?i < off + ?n"
    using assms(5,6) n max by (simp_all add: word_less_nat_alt)
  obtain fs' bl' where w: "writei_loop fs ip (unat off) src = Ok fs'" "fs_tx fs' bl'" "length bl' \<le> length bl + k" "same_fs fs fs'"
    "\<forall>p. mapped fs ?as (p div BSIZE) \<longrightarrow> file_byte (seen_fs fs') ?as p =
      (if unat off \<le> p \<and> p < unat off + length src then src ! (p - unat off) else file_byte (seen_fs fs) ?as p)"
    using writei_loop_ok [OF assms(1,2,4,7,8)] assms(9) by blast
  have ic: "icache fs' = icache fs" using w(4) by (simp add: same_fs_def)
  have "writei dv fs ip src off ?n = Ok (int (length src), fs')"
    using assms(3) guards w(1) n ic by (simp add: writei_def Let_def)
  moreover obtain fs'' where r: "readi_loop fs' ip (unat off) (length src) =
      Ok (map (file_byte (seen_fs fs') ?as) [unat off..<unat off + length src], fs'')"
    using readi_loop_ok [OF w(2), of ip "unat off" "length src"] w(3) assms(2,7) log_room_NBUF [OF assms(8)]
    unfolding ic mapped_same [OF w(4)] by auto
  moreover have "map (file_byte (seen_fs fs') ?as) [unat off..<unat off + length src] = src"
    using w(5) assms(7) by (intro nth_equalityI) simp_all
  ultimately have "readi dv fs' ip off ?n = Ok ((int (length src), src), fs'')"
    using assms(3) guards n by (simp add: readi_def Let_def ic)
  with \<open>writei dv fs ip src off ?n = Ok (int (length src), fs')\<close> w(5) show ?thesis by auto
qed

section \<open>An instance\<close>

text \<open>
  A disk with the log in blocks 2 to 5, a bitmap in block 6 that marks blocks 0 to 6 as used, and a file with
  its content in block 1.
\<close>

definition one_log :: log where
  "one_log = \<lparr> l_start = 2, l_size = 4, l_outstanding = 1, l_committing = False, l_dev = 1, lh_n = 0, lh_block = replicate 30 0 \<rparr>"

definition one_disk :: "byte list list" where
  "one_disk = zero_disk[6 := 0x7F # replicate 511 0]"

definition one_file :: inode where
  "one_file = \<lparr> i_dev = 1, i_inum = 2, i_ref = 1, i_lock = None, i_valid = True, i_type = T_FILE, i_major = 0, i_minor = 0,
     i_nlink = 1, i_size = 512, i_addrs = 1 # replicate 12 0 \<rparr>"

definition one_fs :: fsys where
  "one_fs = \<lparr> bc = binit one_disk 1, lg = one_log,
     sb = \<lparr> sb_size = 8, sb_nblocks = 1, sb_ninodes = 8, sb_nlog = 4, sb_logstart = 2, sb_inodestart = 1, sb_bmapstart = 6 \<rparr>,
     icache = [one_file] \<rparr>"

definition no_dev :: devsw where
  "no_dev = \<lparr> dev_read = (\<lambda>_. None), dev_write = (\<lambda>_. None) \<rparr>"

lemma one_disk_ok: "\<forall>d\<in>set one_disk. length d = BSIZE" "length one_disk = 8"
  using set_update_subset_insert [of zero_disk 6 "0x7F # replicate 511 0"] zero_disk_ok(1,2)
  by (auto simp: one_disk_def BSIZE_def)

lemma one_fs_ok: "fs_tx one_fs []" "log_room one_fs 1" "fs_block one_fs n \<longleftrightarrow> unat n < 8 \<and> \<not> (2 \<le> unat n \<and> unat n < 6)"
  "seen_fs one_fs n = one_disk ! unat n"
proof -
  note ok = binit_ok [OF one_disk_ok(1), of 1]
  have abs: "abs_bcache (bc one_fs) = \<lparr> seen = (\<lambda>n. one_disk ! unat n), ondisk = (\<lambda>n. one_disk ! unat n), written = [],
      pinned = {}, nblocks = 8 \<rparr>"
    using ok(2) one_disk_ok(2) by (simp add: one_fs_def)
  then show "seen_fs one_fs n = one_disk ! unat n" by simp
  show "fs_tx one_fs []"
    using ok(1) abs by (simp add: fs_tx_def tx_inv_def one_fs_def log_wf_def one_log_def LOGSIZE_def)
  show "log_room one_fs 1" by (simp add: log_room_def one_fs_def one_log_def LOGSIZE_def)
  show "fs_block one_fs n \<longleftrightarrow> unat n < 8 \<and> \<not> (2 \<le> unat n \<and> unat n < 6)"
    using abs by (simp add: fs_block_def log_area_def one_fs_def one_log_def)
qed

theorem writei_then_readi_witness:
  "\<exists>fs' fs''. writei no_dev one_fs 0 [7, 8] 510 2 = Ok (2, fs') \<and> readi no_dev fs' 0 510 2 = Ok ((2, [7, 8]), fs'')"
proof -
  have ic: "icache one_fs ! 0 = one_file" by (simp add: one_fs_def)
  have "separate (i_addrs one_file)"
    by (auto simp: separate_def one_file_def nth_Cons NDIRECT_def split: nat.splits)
  moreover have "\<forall>p. 510 \<le> p \<and> p < 512 \<longrightarrow> mapped one_fs (i_addrs one_file) (p div BSIZE)"
    using one_fs_ok(3) [of 1] by (auto simp: mapped_def BSIZE_def NDIRECT_def one_file_def)
  ultimately obtain fs' fs'' where "writei no_dev one_fs 0 [7, 8] 510 2 = Ok (2, fs')" "readi no_dev fs' 0 510 2 = Ok ((2, [7, 8]), fs'')"
    using writei_then_readi [OF one_fs_ok(1), of 0 510 "[7, 8]" 1 no_dev] one_fs_ok(2)
    by (auto simp: ic one_file_def T_FILE_def T_DEV_def MAXFILE_def NDIRECT_def NINDIRECT_def BSIZE_def)
  then show ?thesis by auto
qed

lemma one_bitmap: "b < 8 \<Longrightarrow> BBLOCK b (sb one_fs) = 6"
  by (simp add: BBLOCK_def BPB_def BSIZE_def one_fs_def)

lemma one_free: "block_free one_fs b \<longleftrightarrow> b = 7"
proof (cases "b < 8")
  case True
  have "one_disk ! 6 ! 0 = 0x7F" by (simp add: one_disk_def zero_disk_ok(2))
  moreover have "b = 0 \<or> b = 1 \<or> b = 2 \<or> b = 3 \<or> b = 4 \<or> b = 5 \<or> b = 6 \<or> b = 7" using True by linarith
  moreover have "b mod BPB = b" "sb_size (sb one_fs) = 8" using True by (simp_all add: BPB_def BSIZE_def one_fs_def)
  ultimately show ?thesis
    using True by (auto simp: block_free_def one_fs_ok(4) one_bitmap is_free_def bit_mask_def)
qed (auto simp: block_free_def one_fs_def)

theorem balloc_takes_free_block_witness:
  "\<exists>fs'. balloc one_fs 1 = Ok (7, fs') \<and> \<not> block_free fs' 7 \<and> seen_fs fs' 7 = replicate 512 0"
proof -
  have "fs_block one_fs 6" "fs_block one_fs 7" by (simp_all add: one_fs_ok(3))
  moreover have "sb_size (sb one_fs) = 8" "sb_bmapstart (sb one_fs) = 6" by (simp_all add: one_fs_def)
  ultimately have "bitmap_ok one_fs"
    by (auto simp: bitmap_ok_def one_free one_bitmap BPB_def BSIZE_def)
  moreover have "log_room one_fs (Suc (length []))" using one_fs_ok(2) by simp
  ultimately obtain a fs' where "balloc one_fs 1 = Ok (of_nat a, fs')" "block_free one_fs a"
    "\<forall>c. block_free fs' c \<longleftrightarrow> block_free one_fs c \<and> c \<noteq> a" "seen_fs fs' (of_nat a) = replicate BSIZE 0"
    using balloc_takes_free_block [OF one_fs_ok(1), of 7] one_free by blast
  then show ?thesis by (auto simp: one_free BSIZE_def)
qed

end
