(* ===== verification/Xv6_Icache.thy ===== *)
theory Xv6_Icache
  imports Xv6_Fs
begin

text \<open>
  The inode cache and path names: the cache has at most one entry for an inode, its reference counts
  are the numbers of pointers handed out, and \<^verbatim>\<open>skipelem\<close> takes a path apart.
\<close>

section \<open>What the operations leave alone\<close>

definition ids :: "fsys \<Rightarrow> (u32 \<times> u32 \<times> int) list" where
  "ids fs = map (\<lambda>i. (i_dev i, i_inum i, i_ref i)) (icache fs)"

lemma f_icache:
  "f_bread fs dev n = Ok (b, fs') \<Longrightarrow> icache fs' = icache fs" "f_log_write fs b = Ok fs' \<Longrightarrow> icache fs' = icache fs"
  "f_brelse fs b = Ok fs' \<Longrightarrow> icache fs' = icache fs" "icache (f_put fs b d) = icache fs"
  by (auto simp: f_bread_def f_log_write_def f_brelse_def f_put_def andThen_eq_Ok)

lemma bfree_icache: "bfree fs dev b = Ok fs' \<Longrightarrow> icache fs' = icache fs"
  by (auto simp: bfree_def andThen_eq_Ok Let_def f_icache split: if_splits dest!: f_icache(1-3))

lemma iupdate_icache: "iupdate fs ip = Ok fs' \<Longrightarrow> icache fs' = icache fs"
  by (auto simp: iupdate_def andThen_eq_Ok Let_def f_icache dest!: f_icache(1-3))

lemma each_preserves:
  assumes "each f xs s = Ok s'" "\<And>x s s'. P s \<Longrightarrow> f x s = Ok s' \<Longrightarrow> P s'" "P s"
  shows "P s'"
  using assms(1,3) by (induction xs arbitrary: s) (auto simp: andThen_eq_Ok intro: assms(2))

lemma ids_set_inode:
  "i_dev (f (icache fs ! ip)) = i_dev (icache fs ! ip) \<Longrightarrow> i_inum (f (icache fs ! ip)) = i_inum (icache fs ! ip) \<Longrightarrow>
   i_ref (f (icache fs ! ip)) = i_ref (icache fs ! ip) \<Longrightarrow> ids (set_inode fs ip f) = ids fs"
  by (cases "ip < length (icache fs)") (simp_all add: ids_def set_inode_def map_update list_update_same_conv list_update_beyond)

lemma ids_icache: "icache fs' = icache fs \<Longrightarrow> ids fs' = ids fs"
  by (simp add: ids_def)

lemma itrunc_ids:
  assumes "itrunc fs ip = Ok fs'"
  shows "ids fs' = ids fs"
proof -
  let ?P = "\<lambda>s. ids s = ids fs"
  from assms obtain fs1 fs2 where
    1: "each (\<lambda>k fs. let i = icache fs ! ip in
           if i_addrs i ! k \<noteq> 0
           then andThen (bfree fs (i_dev i) (i_addrs i ! k)) (\<lambda>fs.
                  Ok (set_inode fs ip (\<lambda>i. i\<lparr>i_addrs := (i_addrs i)[k := 0]\<rparr>)))
           else Ok fs) [0..<NDIRECT] fs = Ok fs1" and
    2: "(let i = icache fs1 ! ip in
           if i_addrs i ! NDIRECT \<noteq> 0
           then andThen (f_bread fs1 (i_dev i) (i_addrs i ! NDIRECT)) (\<lambda>(bp, fs).
                andThen (each (\<lambda>j fs. let a = word_at (f_data fs bp) (4 * j) in
                    if a \<noteq> 0 then bfree fs (i_dev i) a else Ok fs) [0..<NINDIRECT] fs) (\<lambda>fs.
                andThen (f_brelse fs bp) (\<lambda>fs.
                andThen (bfree fs (i_dev i) (i_addrs i ! NDIRECT)) (\<lambda>fs.
                  Ok (set_inode fs ip (\<lambda>i. i\<lparr>i_addrs := (i_addrs i)[NDIRECT := 0]\<rparr>))))))
           else Ok fs1) = Ok fs2" and
    3: "iupdate (set_inode fs2 ip (\<lambda>i. i\<lparr>i_size := 0\<rparr>)) ip = Ok fs'"
    unfolding itrunc_def andThen_eq_Ok by blast
  have p1: "?P fs1"
    by (rule each_preserves [OF 1, where P = ?P])
      (auto simp: Let_def andThen_eq_Ok ids_set_inode split: if_splits dest!: bfree_icache ids_icache)
  have "?P fs2"
  proof (cases "i_addrs (icache fs1 ! ip) ! NDIRECT = 0")
    case False
    then obtain bp b1 b2 b3 b4 where b: "f_bread fs1 (i_dev (icache fs1 ! ip)) (i_addrs (icache fs1 ! ip) ! NDIRECT) = Ok (bp, b1)"
      "each (\<lambda>j fs. let a = word_at (f_data fs bp) (4 * j) in
         if a \<noteq> 0 then bfree fs (i_dev (icache fs1 ! ip)) a else Ok fs) [0..<NINDIRECT] b1 = Ok b2"
      "f_brelse b2 bp = Ok b3" "bfree b3 (i_dev (icache fs1 ! ip)) (i_addrs (icache fs1 ! ip) ! NDIRECT) = Ok b4"
      "fs2 = set_inode b4 ip (\<lambda>i. i\<lparr>i_addrs := (i_addrs i)[NDIRECT := 0]\<rparr>)"
      using 2 by (auto simp: Let_def andThen_eq_Ok)
    have "?P b1" using p1 ids_icache [OF f_icache(1) [OF b(1)]] by simp
    then have "?P b2"
      by (rule each_preserves [OF b(2), where P = ?P, rotated])
        (auto simp: Let_def split: if_splits dest!: bfree_icache ids_icache)
    then show ?thesis
      using b(5) ids_icache [OF f_icache(3) [OF b(3)]] ids_icache [OF bfree_icache [OF b(4)]] by (simp add: ids_set_inode)
  qed (use 2 p1 in \<open>simp add: Let_def\<close>)
  then show ?thesis using ids_icache [OF iupdate_icache [OF 3]] by (simp add: ids_set_inode)
qed

section \<open>One entry for an inode\<close>

definition icache_ok :: "(u32 \<times> u32 \<times> int) list \<Rightarrow> (nat \<Rightarrow> nat) \<Rightarrow> bool" where
  "icache_ok es held \<longleftrightarrow> length es = NINODE \<and> (\<forall>ip<NINODE. snd (snd (es ! ip)) = int (held ip)) \<and>
     (\<forall>a<NINODE. \<forall>b<NINODE. 0 < held a \<longrightarrow> 0 < held b \<longrightarrow> fst (es ! a) = fst (es ! b) \<longrightarrow>
        fst (snd (es ! a)) = fst (snd (es ! b)) \<longrightarrow> a = b)"

text \<open>
  The pointers to inodes in the kernel: \<open>held ip\<close> of them are to the entry \<open>ip\<close>. \<^verbatim>\<open>iget\<close> and \<^verbatim>\<open>idup\<close> make a new
  one, \<^verbatim>\<open>iput\<close> takes one away, and code that only uses an inode leaves the identities and counts alone.
\<close>

inductive inode_step :: "fsys \<times> (nat \<Rightarrow> nat) \<Rightarrow> fsys \<times> (nat \<Rightarrow> nat) \<Rightarrow> bool" where
  get: "iget fs dev inum = Ok (ip, fs') \<Longrightarrow> inode_step (fs, held) (fs', held(ip := held ip + 1))"
| dup: "idup fs ip = (ip', fs') \<Longrightarrow> 0 < held ip \<Longrightarrow> ip < NINODE \<Longrightarrow> inode_step (fs, held) (fs', held(ip := held ip + 1))"
| put: "iput fs ip = Ok fs' \<Longrightarrow> 0 < held ip \<Longrightarrow> ip < NINODE \<Longrightarrow> inode_step (fs, held) (fs', held(ip := held ip - 1))"
| use: "ids fs' = ids fs \<Longrightarrow> inode_step (fs, held) (fs', held)"

lemma ids_nth: "ip < length (icache fs) \<Longrightarrow> ids fs ! ip = (i_dev (icache fs ! ip), i_inum (icache fs ! ip), i_ref (icache fs ! ip))"
  by (simp add: ids_def)

lemma ids_update:
  "ids (set_inode fs ip f) = (ids fs)[ip := (i_dev (f (icache fs ! ip)), i_inum (f (icache fs ! ip)), i_ref (f (icache fs ! ip)))]"
  by (simp add: ids_def set_inode_def map_update)

lemma iput_ids:
  assumes "iput fs ip = Ok fs'" "ip < length (icache fs)"
  shows "ids fs' = (ids fs)[ip := (i_dev (icache fs ! ip), i_inum (icache fs ! ip), i_ref (icache fs ! ip) - 1)]"
proof -
  let ?l = "set_inode fs ip (\<lambda>i. i\<lparr>i_lock := Some (mypid (bc fs))\<rparr>)"
  obtain fs1 where 1: "(if i_valid (icache ?l ! ip) \<and> i_nlink (icache ?l ! ip) = 0 \<and> i_ref (icache ?l ! ip) = 1
      then andThen (itrunc ?l ip) (\<lambda>fs.
           andThen (iupdate (set_inode fs ip (\<lambda>i. i\<lparr>i_type := 0\<rparr>)) ip) (\<lambda>fs.
             Ok (set_inode fs ip (\<lambda>i. i\<lparr>i_valid := False\<rparr>))))
      else Ok ?l) = Ok fs1" and 2: "fs' = set_inode fs1 ip (\<lambda>i. i\<lparr>i_lock := None, i_ref := i_ref i - 1\<rparr>)"
    using assms by (auto simp: iput_def andThen_eq_Ok Let_def split: if_splits)
  have "ids fs1 = ids ?l"
    using 1 by (auto simp: andThen_eq_Ok ids_set_inode split: if_splits dest!: itrunc_ids iupdate_icache ids_icache)
  then have e: "ids fs1 = ids fs" by (simp add: ids_set_inode)
  have "length (ids fs1) = length (ids fs)" using e by simp
  then have "length (icache fs1) = length (icache fs)" by (simp add: ids_def)
  then have "(i_dev (icache fs1 ! ip), i_inum (icache fs1 ! ip), i_ref (icache fs1 ! ip)) =
      (i_dev (icache fs ! ip), i_inum (icache fs ! ip), i_ref (icache fs ! ip))"
    using e ids_nth [of ip fs1] ids_nth [of ip fs] assms(2) by simp
  then show ?thesis unfolding 2 ids_update e by simp
qed

lemma iget_cases:
  assumes "iget fs dev inum = Ok (ip, fs')" "length (icache fs) = NINODE"
  obtains (hit) "ip < NINODE" "0 < i_ref (icache fs ! ip)" "i_dev (icache fs ! ip) = dev" "i_inum (icache fs ! ip) = inum"
      "ids fs' = (ids fs)[ip := (dev, inum, i_ref (icache fs ! ip) + 1)]"
  | (new) "ip < NINODE" "i_ref (icache fs ! ip) = 0" "ids fs' = (ids fs)[ip := (dev, inum, 1)]"
      "\<forall>a<NINODE. 0 < i_ref (icache fs ! a) \<longrightarrow> i_dev (icache fs ! a) = dev \<longrightarrow> i_inum (icache fs ! a) \<noteq> inum"
proof (cases "find (\<lambda>ip. let i = icache fs ! ip in 0 < i_ref i \<and> i_dev i = dev \<and> i_inum i = inum) [0..<NINODE]")
  case None
  then have "\<forall>a<NINODE. 0 < i_ref (icache fs ! a) \<longrightarrow> i_dev (icache fs ! a) = dev \<longrightarrow> i_inum (icache fs ! a) \<noteq> inum"
    by (auto simp: find_None_iff Let_def)
  with None assms show ?thesis
    using new by (auto simp: iget_def ids_update split: option.splits dest!: find_SomeD)
next
  case (Some a)
  with assms show ?thesis using hit find_SomeD [OF Some] by (auto simp: iget_def ids_update Let_def)
qed

lemma icache_ok_update:
  assumes ok: "icache_ok es held" and ip: "ip < NINODE"
    and only: "0 < r \<Longrightarrow> \<forall>a<NINODE. a \<noteq> ip \<longrightarrow> 0 < held a \<longrightarrow> fst (es ! a) = d \<longrightarrow> fst (snd (es ! a)) \<noteq> n"
  shows "icache_ok (es[ip := (d, n, int r)]) (held(ip := r))"
proof -
  let ?es = "es[ip := (d, n, int r)]" and ?held = "held(ip := r)"
  have nth: "?es ! a = (if a = ip then (d, n, int r) else es ! a)" if "a < NINODE" for a
    using ok that by (simp add: icache_ok_def nth_list_update)
  have "a = b" if "a < NINODE" "b < NINODE" "0 < ?held a" "0 < ?held b" "fst (?es ! a) = fst (?es ! b)"
    "fst (snd (?es ! a)) = fst (snd (?es ! b))" for a b
  proof (cases "a = ip \<or> b = ip")
    case True
    then show ?thesis using that only unfolding nth [OF that(1)] nth [OF that(2)] by (auto split: if_splits)
  next
    case False
    then show ?thesis using that ok unfolding icache_ok_def by (metis fun_upd_other nth)
  qed
  moreover have "snd (snd (?es ! a)) = int (?held a)" if "a < NINODE" for a
    using ok that by (simp add: nth icache_ok_def)
  moreover have "length ?es = NINODE" using ok by (simp add: icache_ok_def)
  ultimately show ?thesis unfolding icache_ok_def by blast
qed

lemma icache_okD:
  assumes "icache_ok (ids fs) held"
  shows "length (icache fs) = NINODE" "ip < NINODE \<Longrightarrow> i_ref (icache fs ! ip) = int (held ip)"
    "a < NINODE \<Longrightarrow> b < NINODE \<Longrightarrow> 0 < held a \<Longrightarrow> 0 < held b \<Longrightarrow> i_dev (icache fs ! a) = i_dev (icache fs ! b) \<Longrightarrow>
      i_inum (icache fs ! a) = i_inum (icache fs ! b) \<Longrightarrow> a = b"
proof -
  show len: "length (icache fs) = NINODE" using assms by (simp add: icache_ok_def ids_def)
  show "i_ref (icache fs ! ip) = int (held ip)" if "ip < NINODE" using assms that by (simp add: icache_ok_def ids_nth len)
  show "a = b" if "a < NINODE" "b < NINODE" "0 < held a" "0 < held b" "i_dev (icache fs ! a) = i_dev (icache fs ! b)"
    "i_inum (icache fs ! a) = i_inum (icache fs ! b)"
    using assms that ids_nth [of a fs] ids_nth [of b fs] len unfolding icache_ok_def by (metis fst_conv snd_conv)
qed

lemma icache_ok_same:
  assumes "icache_ok (ids fs) held" "ip < NINODE" "0 < held ip"
  shows "icache_ok ((ids fs)[ip := (i_dev (icache fs ! ip), i_inum (icache fs ! ip), int r)]) (held(ip := r))"
proof (rule icache_ok_update [OF assms(1,2)], intro allI impI)
  fix a assume a: "a < NINODE" "a \<noteq> ip" "0 < held a" "fst (ids fs ! a) = i_dev (icache fs ! ip)"
  then show "fst (snd (ids fs ! a)) \<noteq> i_inum (icache fs ! ip)"
    using icache_okD(3) [OF assms(1) a(1) assms(2) a(3) assms(3)] ids_nth [of a fs] icache_okD(1) [OF assms(1)] by auto
qed

lemma icache_ok_step:
  assumes "inode_step s s'" "icache_ok (ids (fst s)) (snd s)"
  shows "icache_ok (ids (fst s')) (snd s')"
  using assms(1)
proof cases
  case (get fs dev inum ip fs' held)
  then have ok: "icache_ok (ids fs) held" using assms(2) by simp
  note D = icache_okD [OF ok]
  from get(3) D(1) show ?thesis
  proof (cases rule: iget_cases)
    case hit
    then show ?thesis
      using icache_ok_same [OF ok hit(1), of "held ip + 1"] D(2) [OF hit(1)] get(1,2) by (simp add: add.commute)
  next
    case new
    have "\<forall>a<NINODE. a \<noteq> ip \<longrightarrow> 0 < held a \<longrightarrow> fst (ids fs ! a) = dev \<longrightarrow> fst (snd (ids fs ! a)) \<noteq> inum"
      using new(4) D(2) by (simp add: ids_nth D(1))
    then show ?thesis
      using icache_ok_update [OF ok new(1), of 1 dev inum] new(2,3) D(2) [OF new(1)] get(1,2) by simp
  qed
next
  case (dup fs ip ip' fs' held)
  then have ok: "icache_ok (ids fs) held" using assms(2) by simp
  have "ids fs' = (ids fs)[ip := (i_dev (icache fs ! ip), i_inum (icache fs ! ip), int (held ip + 1))]"
    using dup icache_okD(2) [OF ok dup(5)] by (auto simp: idup_def ids_update add.commute)
  then show ?thesis using icache_ok_same [OF ok dup(5,4), of "held ip + 1"] dup(2) by simp
next
  case (put fs ip fs' held)
  then have ok: "icache_ok (ids fs) held" using assms(2) by simp
  have "ids fs' = (ids fs)[ip := (i_dev (icache fs ! ip), i_inum (icache fs ! ip), i_ref (icache fs ! ip) - 1)]"
    using put icache_okD(1) [OF ok] by (intro iput_ids) simp_all
  moreover have "i_ref (icache fs ! ip) - 1 = int (held ip - 1)" using icache_okD(2) [OF ok put(5)] put(4) by simp
  ultimately show ?thesis using icache_ok_same [OF ok put(5,4), of "held ip - 1"] put(2) by simp
next
  case (use fs' fs held)
  then show ?thesis using assms(2) by simp
qed

text \<open>
  C13: In every sequence of \<^verbatim>\<open>iget\<close>, \<^verbatim>\<open>idup\<close> and \<^verbatim>\<open>iput\<close> from an empty inode cache, with any other code that leaves
  identities and counts alone in between, each entry's reference count is the number of pointers to
  it, two pointers to the same inode are to the same entry, and \<^verbatim>\<open>iget\<close> returns that entry.
\<close>

theorem inode_cache_unique:
  assumes "inode_step\<^sup>*\<^sup>* (fs0, \<lambda>_. 0) (fs, held)" "length (icache fs0) = NINODE" "\<forall>i\<in>set (icache fs0). i_ref i = 0"
  shows "(\<forall>ip<NINODE. i_ref (icache fs ! ip) = int (held ip)) \<and>
    (\<forall>a<NINODE. \<forall>b<NINODE. 0 < held a \<and> 0 < held b \<and> i_dev (icache fs ! a) = i_dev (icache fs ! b) \<and>
       i_inum (icache fs ! a) = i_inum (icache fs ! b) \<longrightarrow> a = b) \<and>
    (\<forall>a<NINODE. \<forall>ip fs'. 0 < held a \<and> iget fs (i_dev (icache fs ! a)) (i_inum (icache fs ! a)) = Ok (ip, fs') \<longrightarrow> ip = a)"
proof -
  have "icache_ok (ids (fst (fs, held))) (snd (fs, held))"
    using assms(1)
  proof (induction rule: rtranclp_induct)
    case base
    then show ?case using assms(2,3) by (simp add: icache_ok_def ids_def)
  qed (rule icache_ok_step)
  then have ok: "icache_ok (ids fs) held" by simp
  note D = icache_okD [OF ok]
  have "ip = a" if a: "a < NINODE" "0 < held a" and get: "iget fs (i_dev (icache fs ! a)) (i_inum (icache fs ! a)) = Ok (ip, fs')" for a ip fs'
    using get D(1)
  proof (cases rule: iget_cases)
    case hit
    then show ?thesis using D(2) [OF hit(1)] D(3) [OF hit(1) a(1)] a(2) by simp
  next
    case new
    then show ?thesis using new(4) [rule_format, OF a(1)] D(2) [OF a(1)] a(2) by simp
  qed
  with D(2,3) show ?thesis by blast
qed

definition free_inode :: inode where
  "free_inode = \<lparr> i_dev = 0, i_inum = 0, i_ref = 0, i_lock = None, i_valid = False, i_type = 0, i_major = 0, i_minor = 0,
     i_nlink = 0, i_size = 0, i_addrs = replicate 13 0 \<rparr>"

definition empty_fs :: fsys where
  "empty_fs = \<lparr> bc = binit zero_disk 1, lg = small_log, sb = superblock_of (replicate 512 0), icache = replicate NINODE free_inode \<rparr>"

theorem inode_cache_unique_witness:
  "\<exists>fs'. iget empty_fs 1 2 = Ok (0, fs') \<and> i_ref (icache fs' ! 0) = 1"
proof -
  have upt: "[0..<NINODE] = 0 # [1..<NINODE]" by (simp add: NINODE_def upt_conv_Cons)
  have "find (\<lambda>ip. let i = icache empty_fs ! ip in 0 < i_ref i \<and> i_dev i = 1 \<and> i_inum i = 2) [0..<NINODE] = None"
    by (auto simp: find_None_iff empty_fs_def free_inode_def)
  moreover have "find (\<lambda>ip. i_ref (icache empty_fs ! ip) = 0) [0..<NINODE] = Some 0"
    unfolding upt by (simp add: empty_fs_def free_inode_def NINODE_def)
  ultimately obtain fs' where get: "iget empty_fs 1 2 = Ok (0, fs')" by (simp add: iget_def)
  then have "inode_step (empty_fs, \<lambda>_. 0) (fs', (\<lambda>_. 0)(0 := 0 + 1))" by (rule inode_step.get)
  then have "inode_step\<^sup>*\<^sup>* (empty_fs, \<lambda>_. 0) (fs', (\<lambda>_. 0)(0 := 0 + 1))" by (rule r_into_rtranclp)
  from inode_cache_unique [OF this] have "i_ref (icache fs' ! 0) = 1"
    by (simp add: empty_fs_def free_inode_def NINODE_def)
  with get show ?thesis by blast
qed

section \<open>Path names\<close>

text \<open>The elements of a path: the parts between slashes that are not empty.\<close>

fun split_path :: "byte list \<Rightarrow> byte list list" where
  "split_path [] = [[]]"
| "split_path (c # cs) = (if c = slash then [] # split_path cs
     else case split_path cs of [] \<Rightarrow> [[c]] | w # ws \<Rightarrow> (c # w) # ws)"

definition path_elems :: "byte list \<Rightarrow> byte list list" where
  "path_elems path = filter (\<lambda>w. w \<noteq> []) (split_path path)"

text \<open>The names that the loop of \<^verbatim>\<open>namex\<close> gets from \<^verbatim>\<open>skipelem\<close>.\<close>

function skip_names :: "byte list \<Rightarrow> byte list list" where
  "skip_names path = (case skipelem path of None \<Rightarrow> [] | Some (name, rest) \<Rightarrow> name # skip_names rest)"
  by pat_completeness auto
termination
  by (relation "measure length") (auto dest: skipelem_shorter)

declare skip_names.simps [simp del]

lemma split_path_not_Nil [simp]: "split_path path \<noteq> []"
  by (induction path) (auto split: list.splits)

lemma split_path_word:
  "\<forall>c\<in>set w. c \<noteq> slash \<Longrightarrow> split_path (w @ rest) = (case split_path rest of [] \<Rightarrow> [w] | v # vs \<Rightarrow> (w @ v) # vs)"
  by (induction w) (auto split: list.splits)

lemma path_elems_slashes: "path_elems (dropWhile (\<lambda>c. c = slash) path) = path_elems path"
  by (induction path) (auto simp: path_elems_def)

lemma path_elems_word:
  assumes "\<forall>c\<in>set w. c \<noteq> slash" "w \<noteq> []" "rest = [] \<or> hd rest = slash"
  shows "path_elems (w @ rest) = w # path_elems rest"
proof (cases rest)
  case Nil
  then show ?thesis using assms split_path_word [OF assms(1), of "[]"] by (simp add: path_elems_def)
next
  case (Cons c cs)
  then have "split_path rest = [] # split_path cs" using assms(3) by simp
  then show ?thesis using assms(2) split_path_word [OF assms(1), of rest] by (simp add: path_elems_def)
qed

lemma first_word:
  assumes "dropWhile (\<lambda>c. c = slash) path \<noteq> []"
  obtains w r where "dropWhile (\<lambda>c. c = slash) path = w @ r" "w \<noteq> []" "\<forall>c\<in>set w. c \<noteq> slash" "r = [] \<or> hd r = slash"
proof -
  obtain c cs where p: "dropWhile (\<lambda>c. c = slash) path = c # cs" using assms by (meson neq_Nil_conv)
  then have c: "c \<noteq> slash" using hd_dropWhile [OF assms] by simp
  let ?w = "takeWhile (\<lambda>c. c \<noteq> slash) cs" and ?r = "dropWhile (\<lambda>c. c \<noteq> slash) cs"
  have "dropWhile (\<lambda>c. c = slash) path = (c # ?w) @ ?r" using p by simp
  moreover have "\<forall>x\<in>set (c # ?w). x \<noteq> slash" using c set_takeWhileD [of _ "\<lambda>c. c \<noteq> slash" cs] by fastforce
  moreover have "?r = [] \<or> hd ?r = slash" using hd_dropWhile [of "\<lambda>c. c \<noteq> slash" cs] by blast
  ultimately show thesis using that by blast
qed

lemma skipelem_word:
  assumes p: "dropWhile (\<lambda>c. c = slash) path = w @ r" and w: "w \<noteq> []" "\<forall>c\<in>set w. c \<noteq> slash" and r: "r = [] \<or> hd r = slash"
  shows "skipelem path = Some (take DIRSIZ w, dropWhile (\<lambda>c. c = slash) r)"
proof -
  have "dropWhile (\<lambda>c. c \<noteq> slash) r = r" using r by (cases r) simp_all
  then have "dropWhile (\<lambda>c. c \<noteq> slash) (w @ r) = r" using w(2) by (simp add: dropWhile_append2)
  then show ?thesis unfolding skipelem_def Let_def p using w(1) by simp
qed

text \<open>
  C39: The names that \<^verbatim>\<open>skipelem\<close> takes off a path one after the other are the non-empty parts of the path
  between slashes, in their order, each cut to \<^verbatim>\<open>DIRSIZ\<close> bytes, for every path, also with leading,
  trailing or repeated slashes.
\<close>

theorem skipelem_splits_path: "skip_names path = map (take DIRSIZ) (path_elems path)"
proof (induction path rule: skip_names.induct)
  case (1 path)
  show ?case
  proof (cases "dropWhile (\<lambda>c. c = slash) path = []")
    case True
    have "path_elems path = path_elems []" using path_elems_slashes [of path, unfolded True] by (rule sym)
    then show ?thesis using True by (simp add: skip_names.simps [of path] skipelem_def path_elems_def)
  next
    case False
    then obtain w r where wr: "dropWhile (\<lambda>c. c = slash) path = w @ r" "w \<noteq> []" "\<forall>c\<in>set w. c \<noteq> slash" "r = [] \<or> hd r = slash"
      by (rule first_word)
    let ?rest = "dropWhile (\<lambda>c. c = slash) r"
    have s: "skipelem path = Some (take DIRSIZ w, ?rest)" by (rule skipelem_word [OF wr])
    have "path_elems path = w # path_elems ?rest"
      using path_elems_word [OF wr(3,2,4)] path_elems_slashes [of path, unfolded wr(1)] path_elems_slashes [of r] by metis
    then show ?thesis using 1 [OF s refl] s by (simp add: skip_names.simps [of path])
  qed
qed

end
