(* ===== verification/Xv6_Vm.thy ===== *)
theory Xv6_Vm
  imports Xv6_Fs Xv6_Kalloc
begin

text \<open>
  Page tables of xv6 (\<^verbatim>\<open>src/xv6/base/vm.c\<close>). A page directory and its page tables lie in the memory of the
  page allocator, and an entry is a word of that memory. A pointer is an address, 0 the null pointer;
  reading through a null pointer is a \<open>Fault\<close>. So is the endless loop of a 32-bit address that wraps
  around, which no call with sizes up to \<^verbatim>\<open>KERNBASE\<close> reaches. The parameter \<open>kend\<close> is the symbol \<^verbatim>\<open>end\<close> and
  \<open>kdata\<close> the symbol \<^verbatim>\<open>data\<close> of the linker script. Segment descriptors and the register of the page table
  are not modelled.
\<close>

section \<open>Memory\<close>

definition copy_mem :: "memory \<Rightarrow> u32 \<Rightarrow> u32 \<Rightarrow> nat \<Rightarrow> memory" where
  "copy_mem m dst src n = (\<lambda>b. if unat (b - dst) < n then m (src + (b - dst)) else m b)"

definition put_mem :: "memory \<Rightarrow> u32 \<Rightarrow> byte list \<Rightarrow> memory" where
  "put_mem m dst bs = (\<lambda>b. if unat (b - dst) < length bs then bs ! unat (b - dst) else m b)"

definition poke :: "kmem \<Rightarrow> u32 \<Rightarrow> u32 \<Rightarrow> kmem" where
  "poke k a w = k\<lparr>mem := store32 (mem k) a w\<rparr>"

definition zero_page :: "kmem \<Rightarrow> u32 \<Rightarrow> kmem" where
  "zero_page k a = k\<lparr>mem := fill (mem k) a 0 4096\<rparr>"

section \<open>Entries\<close>

definition PDX :: "u32 \<Rightarrow> u32" where "PDX va = drop_bit 22 va AND 0x3FF"
definition PTX :: "u32 \<Rightarrow> u32" where "PTX va = drop_bit 12 va AND 0x3FF"
definition PGADDR :: "u32 \<Rightarrow> u32 \<Rightarrow> u32 \<Rightarrow> u32" where
  "PGADDR d t off = push_bit 22 d OR push_bit 12 t OR off"
definition NPDENTRIES :: nat where "NPDENTRIES = 1024"
definition PTE_P :: u32 where "PTE_P = 1"
definition PTE_W :: u32 where "PTE_W = 2"
definition PTE_U :: u32 where "PTE_U = 4"
definition PTE_ADDR :: "u32 \<Rightarrow> u32" where "PTE_ADDR pte = pte AND NOT 0xFFF"
definition PTE_FLAGS :: "u32 \<Rightarrow> u32" where "PTE_FLAGS pte = pte AND 0xFFF"
definition EXTMEM :: u32 where "EXTMEM = 0x100000"
definition DEVSPACE :: u32 where "DEVSPACE = 0xFE000000"
definition KERNLINK :: u32 where "KERNLINK = KERNBASE + EXTMEM"

definition walkpgdir :: "kmem \<Rightarrow> u32 \<Rightarrow> u32 \<Rightarrow> bool \<Rightarrow> u32 \<times> kmem" where
  "walkpgdir k pgdir va alloc =
     (let pde = pgdir + 4 * PDX va; e = load32 (mem k) pde
      in if e AND PTE_P \<noteq> 0 then (P2V (PTE_ADDR e) + 4 * PTX va, k)
         else if \<not> alloc then (0, k)
         else let (pgtab, k) = kalloc k
              in if pgtab = 0 then (0, k)
                 else (pgtab + 4 * PTX va, poke (zero_page k pgtab) pde (V2P pgtab OR PTE_P OR PTE_W OR PTE_U)))"

text \<open>The loop of \<^verbatim>\<open>mappages\<close>, with the number of pages from \<open>a\<close> to \<^verbatim>\<open>last\<close> as its argument.\<close>

fun mappages_loop :: "kmem \<Rightarrow> u32 \<Rightarrow> u32 \<Rightarrow> u32 \<Rightarrow> u32 \<Rightarrow> nat \<Rightarrow> (int \<times> kmem) outcome" where
  "mappages_loop k pgdir a pa perm n =
     (let (pte, k) = walkpgdir k pgdir a True
      in if pte = 0 then Ok (-1, k)
         else if load32 (mem k) pte AND PTE_P \<noteq> 0 then Panic ''remap''
         else let k = poke k pte (pa OR perm OR PTE_P)
              in case n of 0 \<Rightarrow> Ok (0, k) | Suc n \<Rightarrow> mappages_loop k pgdir (a + PGSIZE) (pa + PGSIZE) perm n)"

declare mappages_loop.simps [simp del]

definition mappages :: "kmem \<Rightarrow> u32 \<Rightarrow> u32 \<Rightarrow> u32 \<Rightarrow> u32 \<Rightarrow> u32 \<Rightarrow> (int \<times> kmem) outcome" where
  "mappages k pgdir va len pa perm =
     (let a = PGROUNDDOWN va; last = PGROUNDDOWN (va + len - 1)
      in mappages_loop k pgdir a pa perm (unat (last - a) div 4096))"

section \<open>User memory\<close>

function dealloc_range :: "u32 \<Rightarrow> kmem \<Rightarrow> u32 \<Rightarrow> u32 \<Rightarrow> u32 \<Rightarrow> kmem outcome" where
  "dealloc_range kend k pgdir a oldsz =
     (if a < oldsz
      then let (pte, _) = walkpgdir k pgdir a False;
               next = (if pte = 0 then PGADDR (PDX a + 1) 0 0 else a + PGSIZE);
               e = load32 (mem k) pte
           in andThen (if pte = 0 \<or> e AND PTE_P = 0 then Ok k
                       else if PTE_ADDR e = 0 then Panic ''kfree''
                       else andThen (kfree kend k (P2V (PTE_ADDR e))) (\<lambda>k. Ok (poke k pte 0))) (\<lambda>k.
              if next \<le> a then Fault ''address wraps around'' else dealloc_range kend k pgdir next oldsz)
      else Ok k)"
  by pat_completeness auto
termination
proof (relation "measure (\<lambda>(_, _, _, a, _). 2 ^ 32 - unat a)", goal_cases)
  case (2 kend k pgdir a oldsz pk pte k0 nxt e k')
  then have "unat a < unat nxt" by (simp add: word_less_nat_alt not_le)
  then show ?case using unat_bound [of nxt] by simp
qed simp

declare dealloc_range.simps [simp del]

definition deallocuvm :: "u32 \<Rightarrow> kmem \<Rightarrow> u32 \<Rightarrow> u32 \<Rightarrow> u32 \<Rightarrow> (u32 \<times> kmem) outcome" where
  "deallocuvm kend k pgdir oldsz newsz =
     (if oldsz \<le> newsz then Ok (oldsz, k)
      else andThen (dealloc_range kend k pgdir (PGROUNDUP newsz) oldsz) (\<lambda>k. Ok (newsz, k)))"

function alloc_range :: "u32 \<Rightarrow> kmem \<Rightarrow> u32 \<Rightarrow> u32 \<Rightarrow> u32 \<Rightarrow> u32 \<Rightarrow> (u32 \<times> kmem) outcome" where
  "alloc_range kend k pgdir oldsz newsz a =
     (if a < newsz
      then let (pg, k) = kalloc k
           in if pg = 0 then andThen (deallocuvm kend k pgdir newsz oldsz) (\<lambda>(_, k). Ok (0, k))
              else andThen (mappages (zero_page k pg) pgdir a PGSIZE (V2P pg) (PTE_W OR PTE_U)) (\<lambda>(r, k).
                   if r < 0
                   then andThen (deallocuvm kend k pgdir newsz oldsz) (\<lambda>(_, k).
                        andThen (kfree kend k pg) (\<lambda>k. Ok (0, k)))
                   else if a + PGSIZE \<le> a then Fault ''address wraps around''
                   else alloc_range kend k pgdir oldsz newsz (a + PGSIZE))
      else Ok (newsz, k))"
  by pat_completeness auto
termination
proof (relation "measure (\<lambda>(_, _, _, _, _, a). 2 ^ 32 - unat a)", goal_cases)
  case (2 kend k pgdir oldsz newsz a)
  then have "unat a < unat (a + PGSIZE)" by (simp add: word_less_nat_alt not_le)
  then show ?case using unat_bound [of "a + PGSIZE"] by simp
qed simp

declare alloc_range.simps [simp del]

definition allocuvm :: "u32 \<Rightarrow> kmem \<Rightarrow> u32 \<Rightarrow> u32 \<Rightarrow> u32 \<Rightarrow> (u32 \<times> kmem) outcome" where
  "allocuvm kend k pgdir oldsz newsz =
     (if KERNBASE \<le> newsz then Ok (0, k)
      else if newsz < oldsz then Ok (oldsz, k)
      else alloc_range kend k pgdir oldsz newsz (PGROUNDUP oldsz))"

definition freevm :: "u32 \<Rightarrow> kmem \<Rightarrow> u32 \<Rightarrow> kmem outcome" where
  "freevm kend k pgdir =
     (if pgdir = 0 then Panic ''freevm: no pgdir''
      else andThen (deallocuvm kend k pgdir KERNBASE 0) (\<lambda>(_, k).
           andThen (each (\<lambda>i k. let e = load32 (mem k) (pgdir + 4 * of_nat i)
                                in if e AND PTE_P \<noteq> 0 then kfree kend k (P2V (PTE_ADDR e)) else Ok k) [0..<NPDENTRIES] k) (\<lambda>k.
             kfree kend k pgdir)))"

section \<open>Kernel part\<close>

record kmap_entry =
  virt :: u32
  phys_start :: u32
  phys_end :: u32
  perm :: u32

definition kmap :: "u32 \<Rightarrow> kmap_entry list" where
  "kmap kdata =
     [\<lparr> virt = KERNBASE, phys_start = 0, phys_end = EXTMEM, perm = PTE_W \<rparr>,
      \<lparr> virt = KERNLINK, phys_start = V2P KERNLINK, phys_end = V2P kdata, perm = 0 \<rparr>,
      \<lparr> virt = kdata, phys_start = V2P kdata, phys_end = PHYSTOP, perm = PTE_W \<rparr>,
      \<lparr> virt = DEVSPACE, phys_start = DEVSPACE, phys_end = 0, perm = PTE_W \<rparr>]"

fun map_kernel :: "u32 \<Rightarrow> kmem \<Rightarrow> u32 \<Rightarrow> kmap_entry list \<Rightarrow> (u32 \<times> kmem) outcome" where
  "map_kernel kend k pgdir [] = Ok (pgdir, k)"
| "map_kernel kend k pgdir (e # es) =
     andThen (mappages k pgdir (virt e) (phys_end e - phys_start e) (phys_start e) (perm e)) (\<lambda>(r, k).
       if r < 0 then andThen (freevm kend k pgdir) (\<lambda>k. Ok (0, k)) else map_kernel kend k pgdir es)"

definition setupkvm :: "u32 \<Rightarrow> u32 \<Rightarrow> kmem \<Rightarrow> (u32 \<times> kmem) outcome" where
  "setupkvm kend kdata k =
     (let (pgdir, k) = kalloc k
      in if pgdir = 0 then Ok (0, k)
         else if DEVSPACE < P2V PHYSTOP then Panic ''PHYSTOP too high''
         else map_kernel kend (zero_page k pgdir) pgdir (kmap kdata))"

definition inituvm :: "kmem \<Rightarrow> u32 \<Rightarrow> byte list \<Rightarrow> kmem outcome" where
  "inituvm k pgdir init =
     (if 4096 \<le> length init then Panic ''inituvm: more than a page''
      else let (pg, k) = kalloc k
           in if pg = 0 then Fault ''null pointer''
              else andThen (mappages (zero_page k pg) pgdir 0 PGSIZE (V2P pg) (PTE_W OR PTE_U)) (\<lambda>(_, k).
                     Ok (k\<lparr>mem := put_mem (mem k) pg init\<rparr>)))"

function load_loop :: "devsw \<Rightarrow> fsys \<Rightarrow> kmem \<Rightarrow> u32 \<Rightarrow> u32 \<Rightarrow> nat \<Rightarrow> u32 \<Rightarrow> u32 \<Rightarrow> u32 \<Rightarrow> (int \<times> fsys \<times> kmem) outcome" where
  "load_loop dv fs k pgdir addr ip offset sz i =
     (if i < sz
      then let (pte, _) = walkpgdir k pgdir (addr + i) False
           in if pte = 0 then Panic ''loaduvm: address should exist''
              else let n = (if sz - i < PGSIZE then sz - i else PGSIZE)
                   in andThen (readi dv fs ip (offset + i) n) (\<lambda>((r, bs), fs).
                        let k = k\<lparr>mem := put_mem (mem k) (P2V (PTE_ADDR (load32 (mem k) pte))) bs\<rparr>
                        in if r \<noteq> int (unat n) then Ok (-1, fs, k)
                           else if i + PGSIZE \<le> i then Fault ''address wraps around''
                           else load_loop dv fs k pgdir addr ip offset sz (i + PGSIZE))
      else Ok (0, fs, k))"
  by pat_completeness auto
termination
proof (relation "measure (\<lambda>(_, _, _, _, _, _, _, _, i). 2 ^ 32 - unat i)", goal_cases)
  case (2 dv fs k pgdir addr ip offset sz i)
  then have "unat i < unat (i + PGSIZE)" by (simp add: word_less_nat_alt not_le)
  then show ?case using unat_bound [of "i + PGSIZE"] by simp
qed simp

declare load_loop.simps [simp del]

definition loaduvm :: "devsw \<Rightarrow> fsys \<Rightarrow> kmem \<Rightarrow> u32 \<Rightarrow> u32 \<Rightarrow> nat \<Rightarrow> u32 \<Rightarrow> u32 \<Rightarrow> (int \<times> fsys \<times> kmem) outcome" where
  "loaduvm dv fs k pgdir addr ip offset sz =
     (if addr mod PGSIZE \<noteq> 0 then Panic ''loaduvm: addr must be page aligned''
      else load_loop dv fs k pgdir addr ip offset sz 0)"

definition clearpteu :: "kmem \<Rightarrow> u32 \<Rightarrow> u32 \<Rightarrow> kmem outcome" where
  "clearpteu k pgdir uva =
     (let (pte, k) = walkpgdir k pgdir uva False
      in if pte = 0 then Panic ''clearpteu'' else Ok (poke k pte (load32 (mem k) pte AND NOT PTE_U)))"

function copyuvm_loop :: "u32 \<Rightarrow> kmem \<Rightarrow> u32 \<Rightarrow> u32 \<Rightarrow> u32 \<Rightarrow> u32 \<Rightarrow> (u32 \<times> kmem) outcome" where
  "copyuvm_loop kend k pgdir d sz i =
     (if i < sz
      then let (pte, _) = walkpgdir k pgdir i False; e = load32 (mem k) pte
           in if pte = 0 then Panic ''copyuvm: pte should exist''
              else if e AND PTE_P = 0 then Panic ''copyuvm: page not present''
              else let (pg, k) = kalloc k
                   in if pg = 0 then andThen (freevm kend k d) (\<lambda>k. Ok (0, k))
                      else andThen (mappages (k\<lparr>mem := copy_mem (mem k) pg (P2V (PTE_ADDR e)) 4096\<rparr>) d i PGSIZE (V2P pg) (PTE_FLAGS e)) (\<lambda>(r, k).
                           if r < 0 then andThen (kfree kend k pg) (\<lambda>k. andThen (freevm kend k d) (\<lambda>k. Ok (0, k)))
                           else if i + PGSIZE \<le> i then Fault ''address wraps around''
                           else copyuvm_loop kend k pgdir d sz (i + PGSIZE))
      else Ok (d, k))"
  by pat_completeness auto
termination
proof (relation "measure (\<lambda>(_, _, _, _, _, i). 2 ^ 32 - unat i)", goal_cases)
  case (2 kend k pgdir d sz i)
  then have "unat i < unat (i + PGSIZE)" by (simp add: word_less_nat_alt not_le)
  then show ?case using unat_bound [of "i + PGSIZE"] by simp
qed simp

declare copyuvm_loop.simps [simp del]

definition copyuvm :: "u32 \<Rightarrow> u32 \<Rightarrow> kmem \<Rightarrow> u32 \<Rightarrow> u32 \<Rightarrow> (u32 \<times> kmem) outcome" where
  "copyuvm kend kdata k pgdir sz =
     andThen (setupkvm kend kdata k) (\<lambda>(d, k). if d = 0 then Ok (0, k) else copyuvm_loop kend k pgdir d sz 0)"

section \<open>Copying to user memory\<close>

definition uva2ka :: "kmem \<Rightarrow> u32 \<Rightarrow> u32 \<Rightarrow> u32 outcome" where
  "uva2ka k pgdir uva =
     (let (pte, _) = walkpgdir k pgdir uva False
      in if pte = 0 then Fault ''null pointer''
         else let e = load32 (mem k) pte
              in if e AND PTE_P = 0 then Ok 0
                 else if e AND PTE_U = 0 then Ok 0
                 else Ok (P2V (PTE_ADDR e)))"

lemma page_rest: "0 < unat (PGSIZE - (va - PGROUNDDOWN va))"
proof -
  have "unat (va - PGROUNDDOWN va) = unat va mod 4096"
    using unat_PGROUNDDOWN [of va] by (simp add: unat_sub word_le_nat_alt minus_div_mult_eq_mod)
  then have "unat (va - PGROUNDDOWN va) < 4096" by simp
  then have "va - PGROUNDDOWN va < PGSIZE" by (simp add: word_less_nat_alt PGSIZE_def)
  then show ?thesis by (simp add: unat_gt_0)
qed

function copyout :: "kmem \<Rightarrow> u32 \<Rightarrow> u32 \<Rightarrow> byte list \<Rightarrow> (int \<times> kmem) outcome" where
  "copyout k pgdir va buf =
     (if buf \<noteq> []
      then let va0 = PGROUNDDOWN va
           in andThen (uva2ka k pgdir va0) (\<lambda>pa0.
                if pa0 = 0 then Ok (-1, k)
                else let n = min (unat (PGSIZE - (va - va0))) (length buf)
                     in copyout (k\<lparr>mem := put_mem (mem k) (pa0 + (va - va0)) (take n buf)\<rparr>) pgdir (va0 + PGSIZE) (drop n buf))
      else Ok (0, k))"
  by pat_completeness auto
termination
  by (relation "measure (\<lambda>(_, _, _, buf). length buf)") (auto simp: page_rest)

declare copyout.simps [simp del]

end
