(* ===== verification/Xv6_Paging.thy ===== *)
theory Xv6_Paging
  imports Xv6_Vm
begin

text \<open>
  What the page tables of theory \<open>Xv6_Vm\<close> mean: the mapping from pages to frames that the processor reads from
  a page directory, and how \<^verbatim>\<open>mappages\<close> changes it.
\<close>

section \<open>Words of a page\<close>

definition ent :: "u32 \<Rightarrow> u32 \<Rightarrow> u32" where
  "ent pg i = pg + 4 * i"

lemma page_top:
  assumes "pg mod PGSIZE = 0"
  shows "4096 dvd unat pg" "unat pg \<le> 2 ^ 32 - 4096"
proof -
  have "unat pg mod 4096 = 0" using arg_cong [OF assms, of unat] by (simp add: PGSIZE_def unat_mod)
  then show d: "4096 dvd unat pg" by (simp add: mod_eq_0_iff_dvd)
  have "4096 dvd (2 ^ 32 :: nat)" by (rule dvdI [of _ _ 1048576]) simp
  with d have "4096 dvd 2 ^ 32 - unat pg" by (simp add: dvd_diff_nat)
  moreover have "0 < 2 ^ 32 - unat pg" using unat_bound [of pg] by simp
  ultimately have "4096 \<le> 2 ^ 32 - unat pg" by (rule dvd_imp_le)
  then show "unat pg \<le> 2 ^ 32 - 4096" by linarith
qed

lemma unat_ent:
  assumes "pg mod PGSIZE = 0" "i < 1024"
  shows "unat (ent pg i) = unat pg + 4 * unat i"
proof -
  have i: "unat i < 1024" using assms(2) by (simp add: word_less_nat_alt)
  then have f: "unat (4 * i) = 4 * unat i" by (simp add: unat_word_ariths)
  have "unat (ent pg i) = (unat pg + 4 * unat i) mod 2 ^ 32" unfolding ent_def unat_word_ariths(1) f by simp
  then show ?thesis using i page_top(2) [OF assms(1)] by simp
qed

lemma ent_eq_iff:
  assumes "p mod PGSIZE = 0" "q mod PGSIZE = 0" "i < 1024" "j < 1024"
  shows "ent p i = ent q j \<longleftrightarrow> p = q \<and> i = j"
proof
  assume "ent p i = ent q j"
  then have e: "unat p + 4 * unat i = unat q + 4 * unat j" using assms unat_ent by metis
  have ij: "unat i < 1024" "unat j < 1024" using assms(3,4) by (simp_all add: word_less_nat_alt)
  obtain x y where xy: "unat p = 4096 * x" "unat q = 4096 * y" using page_top(1) assms(1,2) by (meson dvdE)
  have "(4096 * x + 4 * unat i) div 4096 = x" "(4096 * y + 4 * unat j) div 4096 = y" using ij by simp_all
  then have "x = y" using e xy by metis
  then have "unat p = unat q" "unat i = unat j" using e xy by simp_all
  then show "p = q \<and> i = j" by (simp only: word_unat_eq_iff)
qed simp

lemma words_apart:
  fixes d :: u32
  assumes "d = 4 * z" "d \<noteq> 0" "n < 4"
  shows "4 \<le> unat (d + of_nat n)"
proof -
  have "unat d = 4 * unat z mod 2 ^ 32" unfolding assms(1) by (simp add: unat_word_ariths)
  also have "\<dots> = 4 * (unat z mod 2 ^ 30)" using mult_mod_right [of 4 "unat z" "2 ^ 30"] by simp
  finally have u: "unat d = 4 * (unat z mod 2 ^ 30)" .
  have "unat z mod 1073741824 < 1073741824" by simp
  then have "unat d \<le> 2 ^ 32 - 4" using u by simp
  then have "unat (d + of_nat n) = unat d + n" using assms(3) by (simp add: unat_word_ariths unat_of_nat)
  moreover have "unat d \<noteq> 0" using assms(2) by (simp add: unat_eq_0)
  ultimately show ?thesis using u by (cases "unat z mod 2 ^ 30") simp_all
qed

lemma load_store_ent:
  assumes "p mod PGSIZE = 0" "q mod PGSIZE = 0" "i < 1024" "j < 1024"
  shows "load32 (store32 m (ent p i) w) (ent q j) = (if p = q \<and> i = j then w else load32 m (ent q j))"
proof (cases "p = q \<and> i = j")
  case False
  let ?a = "ent p i" and ?b = "ent q j"
  have ne: "?a \<noteq> ?b" using False ent_eq_iff [OF assms] by simp
  have "?b - ?a = 4 * (1024 * (q div PGSIZE) + j - (1024 * (p div PGSIZE) + i))"
    using div_mult_mod_eq [of p PGSIZE] div_mult_mod_eq [of q PGSIZE] assms(1,2) by (simp add: ent_def PGSIZE_def algebra_simps)
  moreover have "?b - ?a \<noteq> 0" using ne by simp
  ultimately have d: "4 \<le> unat (?b - ?a + of_nat n)" if "n < 4" for n :: nat using that by (rule words_apart)
  have far: "\<not> unat (?b + of_nat n - ?a) < 4" if "n < 4" for n :: nat
  proof -
    have "?b + of_nat n - ?a = ?b - ?a + of_nat n" by simp
    then show ?thesis using d [OF that] by (simp only: not_less)
  qed
  have "store32 m ?a w (?b + of_nat n) = m (?b + of_nat n)" if "n < 4" for n :: nat
    using far [OF that] by (simp add: store32_def)
  from this [of 0] this [of 1] this [of 2] this [of 3] 
  have "load32 (store32 m ?a w) ?b = load32 m ?b" by (simp add: load32_def)
  then show ?thesis using False by (simp only: if_False)
qed simp

lemma load_fill_ent:
  assumes "p mod PGSIZE = 0" "q mod PGSIZE = 0" "j < 1024"
  shows "load32 (fill m p 0 4096) (ent q j) = (if p = q then 0 else load32 m (ent q j))"
proof -
  have j: "unat j < 1024" using assms(3) by (simp add: word_less_nat_alt)
  have a: "ent q j + of_nat n = q + of_nat (4 * unat j + n)" for n by (simp add: ent_def)
  show ?thesis
  proof (cases "p = q")
    case True
    have "fill m p 0 4096 (ent q j + of_nat n) = 0" if "n < 4" for n
    proof -
      have "ent q j + of_nat n - p = of_nat (4 * unat j + n)" using a [of n] True by simp
      then have "unat (ent q j + of_nat n - p) = 4 * unat j + n" using j that by (simp add: unat_of_nat del: of_nat_add)
      then show ?thesis using j that by (simp add: fill_def)
    qed
    from this [of 0] this [of 1] this [of 2] this [of 3] show ?thesis using True by (simp add: load32_def)
  next
    case False
    have "fill m p 0 4096 (ent q j + of_nat n) = m (ent q j + of_nat n)" if "n < 4" for n
      using page_distance [OF assms(1,2), of "4 * unat j + n"] False j that unfolding a by (simp add: fill_def del: of_nat_add)
    from this [of 0] this [of 1] this [of 2] this [of 3] show ?thesis using False by (simp add: load32_def)
  qed
qed

lemma load_page_ent: "load32 m x = load32 m (ent x 0)"
  by (simp add: ent_def)

section \<open>Entries\<close>

lemma entry_mask: "(0xFFF :: u32) = mask 12"
  by (simp add: mask_eq_exp_minus_1)

lemma page_bits: "x mod PGSIZE = 0 \<Longrightarrow> n < 12 \<Longrightarrow> \<not> bit (x :: u32) n"
proof -
  assume "x mod PGSIZE = 0" "n < 12"
  then have "take_bit 12 x = 0" by (simp add: take_bit_eq_mod PGSIZE_def)
  then have "\<not> bit (take_bit 12 x) n" by simp
  then show ?thesis using \<open>n < 12\<close> by (simp add: bit_take_bit_iff)
qed

lemma flag_bits: "f \<le> 0xFFF \<Longrightarrow> 12 \<le> n \<Longrightarrow> \<not> bit (f :: u32) n"
proof -
  assume "f \<le> 0xFFF" "12 \<le> n"
  then have "f = f mod 4096" by (simp add: word_le_nat_alt word_arith_nat_mod)
  then have "take_bit 12 f = f" by (simp add: take_bit_eq_mod)
  then have "bit f n = bit (take_bit 12 f) n" by simp
  then show ?thesis using \<open>12 \<le> n\<close> by (simp add: bit_take_bit_iff)
qed

lemma entry_parts:
  assumes "x mod PGSIZE = 0" "f \<le> 0xFFF"
  shows "PTE_ADDR (x OR f) = x" "PTE_FLAGS (x OR f) = f"
  unfolding PTE_ADDR_def PTE_FLAGS_def entry_mask
  using page_bits [OF assms(1)] flag_bits [OF assms(2)]
  by (auto intro!: bit_word_eqI simp: bit_simps) (metis not_le)+

lemma PTE_ADDR_page: "PTE_ADDR e mod PGSIZE = 0"
proof -
  have "take_bit 12 (PTE_ADDR e) = 0" unfolding PTE_ADDR_def entry_mask by (auto intro!: bit_word_eqI simp: bit_simps)
  then show ?thesis by (simp add: take_bit_eq_mod PGSIZE_def)
qed

lemma P2V_page: "x mod PGSIZE = 0 \<Longrightarrow> P2V x mod PGSIZE = 0" "x mod PGSIZE = 0 \<Longrightarrow> V2P x mod PGSIZE = 0"
proof -
  assume "x mod PGSIZE = 0"
  then have "x = x div PGSIZE * PGSIZE" using div_mult_mod_eq [of x PGSIZE] by simp
  then have "P2V x = (x div PGSIZE + 0x80000) * PGSIZE" by (simp add: P2V_def KERNBASE_def PGSIZE_def distrib_right)
  then have "P2V x = push_bit 12 (x div PGSIZE + 0x80000)" by (simp add: push_bit_eq_mult PGSIZE_def)
  then have "take_bit 12 (P2V x) = 0" by (simp add: take_bit_push_bit)
  then show "P2V x mod PGSIZE = 0" by (simp add: take_bit_eq_mod PGSIZE_def)
  moreover have "V2P x = P2V x" by (simp add: V2P_def P2V_def KERNBASE_def)
  ultimately show "V2P x mod PGSIZE = 0" by simp
qed

lemma P2V_V2P [simp]: "P2V (V2P x) = x" "V2P (P2V x) = x"
  by (simp_all add: P2V_def V2P_def)

lemma index_less: "PDX va < 1024" "PTX va < 1024"
proof -
  have "x AND 0x3FF < 1024" for x :: u32
  proof -
    have "x AND 0x3FF = take_bit 10 x" by (simp add: take_bit_eq_mask mask_eq_exp_minus_1)
    then show ?thesis by (simp add: take_bit_eq_mod word_mod_less_divisor)
  qed
  then show "PDX va < 1024" "PTX va < 1024" by (simp_all add: PDX_def PTX_def)
qed

lemma page_index_iff: "PDX u = PDX v \<and> PTX u = PTX v \<longleftrightarrow> PGROUNDDOWN u = PGROUNDDOWN v"
proof -
  have m: "(0x3FF :: u32) = mask 10" by (simp add: mask_eq_exp_minus_1)
  have d: "bit (PDX w) n \<longleftrightarrow> bit w (22 + n) \<and> n < 10" and t: "bit (PTX w) n \<longleftrightarrow> bit w (12 + n) \<and> n < 10" for w n
    unfolding PDX_def PTX_def m by (auto simp: bit_simps add.commute)
  have g: "bit (PGROUNDDOWN w) n \<longleftrightarrow> 12 \<le> n \<and> bit w n" for w n
    unfolding PGROUNDDOWN_def and_not_page by (auto simp: bit_simps dest: bit_imp_le_length)
  show ?thesis
  proof
    assume e: "PDX u = PDX v \<and> PTX u = PTX v"
    show "PGROUNDDOWN u = PGROUNDDOWN v"
    proof (rule bit_word_eqI)
      fix n assume n: "n < LENGTH(32)"
      consider "n < 12" | "12 \<le> n" "n < 22" | "22 \<le> n" by linarith
      then show "bit (PGROUNDDOWN u) n = bit (PGROUNDDOWN v) n"
      proof cases
        case 2
        then obtain j where "n = 12 + j" by (meson le_Suc_ex)
        then show ?thesis using 2 e t [of u j] t [of v j] by (simp add: g)
      next
        case 3
        then obtain j where "n = 22 + j" by (meson le_Suc_ex)
        then show ?thesis using n e d [of u j] d [of v j] by (simp add: g)
      qed (simp add: g)
    qed
  next
    assume "PGROUNDDOWN u = PGROUNDDOWN v"
    then have "bit u n = bit v n" if "12 \<le> n" for n using that g by metis
    then show "PDX u = PDX v \<and> PTX u = PTX v" by (auto intro!: bit_word_eqI simp: d t)
  qed
qed

section \<open>The mapping of a page directory\<close>

definition pde_of :: "memory \<Rightarrow> u32 \<Rightarrow> u32 \<Rightarrow> u32" where
  "pde_of m pgdir i = load32 m (ent pgdir i)"

definition present :: "u32 \<Rightarrow> bool" where
  "present e \<longleftrightarrow> e AND PTE_P \<noteq> 0"

definition table_of :: "memory \<Rightarrow> u32 \<Rightarrow> u32 \<Rightarrow> u32" where
  "table_of m pgdir i = P2V (PTE_ADDR (pde_of m pgdir i))"

text \<open>The frame and the flags that the processor finds for the page of an address.\<close>

definition mapping :: "memory \<Rightarrow> u32 \<Rightarrow> u32 \<Rightarrow> (u32 \<times> u32) option" where
  "mapping m pgdir va =
     (if present (pde_of m pgdir (PDX va))
      then let e = load32 m (ent (table_of m pgdir (PDX va)) (PTX va))
           in if present e then Some (PTE_ADDR e, PTE_FLAGS e) else None
      else None)"

text \<open>
  The directory and its tables are pages of their own: no two entries share a table, and neither the
  directory nor a table is on the free list \<open>xs\<close> of the page allocator.
\<close>

definition vm_ok :: "u32 \<Rightarrow> kmem \<Rightarrow> u32 \<Rightarrow> u32 list \<Rightarrow> bool" where
  "vm_ok kend k pgdir xs \<longleftrightarrow> kmem_ok kend k xs \<and> pgdir mod PGSIZE = 0 \<and> pgdir \<notin> set xs \<and>
     (\<forall>i<1024. present (pde_of (mem k) pgdir i) \<longrightarrow>
        table_of (mem k) pgdir i \<noteq> pgdir \<and> table_of (mem k) pgdir i \<notin> set xs \<and>
        (\<forall>j<1024. present (pde_of (mem k) pgdir j) \<longrightarrow> table_of (mem k) pgdir i = table_of (mem k) pgdir j \<longrightarrow> i = j))"

lemma table_page: "table_of m pgdir i mod PGSIZE = 0"
  unfolding table_of_def by (rule P2V_page(1) [OF PTE_ADDR_page])

lemma present_or: "present (e OR PTE_P)"
proof -
  have "bit ((e OR PTE_P) AND PTE_P) 0" by (simp add: PTE_P_def bit_simps)
  then show ?thesis unfolding present_def by (metis bit_0_eq bot_apply bot_bool_def)
qed

lemma pde_cong:
  assumes "load32 m' (ent pgdir i) = load32 m (ent pgdir i)"
  shows "pde_of m' pgdir i = pde_of m pgdir i" "table_of m' pgdir i = table_of m pgdir i"
  using assms by (simp_all add: table_of_def pde_of_def)

lemma chain_cong: "\<forall>x\<in>set xs. load32 m' x = load32 m x \<Longrightarrow> chain m' h xs = chain m h xs"
  by (induction xs arbitrary: h) auto

lemma free_page: "kmem_ok kend k xs \<Longrightarrow> x \<in> set xs \<Longrightarrow> x mod PGSIZE = 0"
  by (simp add: kmem_ok_def page_ok_def)

text \<open>A write to an entry of a page that is not free leaves the free list alone.\<close>

lemma poke_free:
  assumes "kmem_ok kend k xs" "p mod PGSIZE = 0" "p \<notin> set xs" "i < 1024"
  shows "kmem_ok kend (poke k (ent p i) w) xs"
proof -
  have "load32 (store32 (mem k) (ent p i) w) x = load32 (mem k) x" if "x \<in> set xs" for x
    using load_store_ent [OF assms(2) free_page [OF assms(1) that] assms(4), of 0] that assms(3)
    by (auto simp: load_page_ent [of _ x])
  then show ?thesis using assms(1) by (simp add: kmem_ok_def poke_def chain_cong [of xs "store32 (mem k) (ent p i) w" "mem k"])
qed

lemma zero_free:
  assumes "kmem_ok kend k xs" "p mod PGSIZE = 0" "p \<notin> set xs"
  shows "kmem_ok kend (zero_page k p) xs"
proof -
  have "load32 (fill (mem k) p 0 4096) x = load32 (mem k) x" if "x \<in> set xs" for x
    using load_fill_ent [OF assms(2) free_page [OF assms(1) that], of 0] that assms(3)
    by (auto simp: load_page_ent [of _ x])
  then show ?thesis using assms(1) by (simp add: kmem_ok_def zero_page_def chain_cong [of xs "fill (mem k) p 0 4096" "mem k"])
qed

lemma vm_okD:
  assumes "vm_ok kend k pgdir xs"
  shows "kmem_ok kend k xs" "pgdir mod PGSIZE = 0" "pgdir \<notin> set xs"
    "i < 1024 \<Longrightarrow> present (pde_of (mem k) pgdir i) \<Longrightarrow> table_of (mem k) pgdir i \<noteq> pgdir \<and> table_of (mem k) pgdir i \<notin> set xs"
    "i < 1024 \<Longrightarrow> j < 1024 \<Longrightarrow> present (pde_of (mem k) pgdir i) \<Longrightarrow> present (pde_of (mem k) pgdir j) \<Longrightarrow>
       table_of (mem k) pgdir i = table_of (mem k) pgdir j \<Longrightarrow> i = j"
  using assms by (auto simp: vm_ok_def)

text \<open>Writing an entry of a present table.\<close>

lemma poke_entry:
  assumes ok: "vm_ok kend k pgdir xs" and pr: "present (pde_of (mem k) pgdir (PDX va))"
    and w: "present w"
  defines "k' \<equiv> poke k (ent (table_of (mem k) pgdir (PDX va)) (PTX va)) w"
  shows "vm_ok kend k' pgdir xs"
    and "mapping (mem k') pgdir v = (if PGROUNDDOWN v = PGROUNDDOWN va then Some (PTE_ADDR w, PTE_FLAGS w) else mapping (mem k) pgdir v)"
proof -
  let ?t = "table_of (mem k) pgdir (PDX va)"
  note d = vm_okD [OF ok]
  note t = d(4) [OF index_less(1) pr]
  have m: "load32 (mem k') (ent q j) = (if ?t = q \<and> PTX va = j then w else load32 (mem k) (ent q j))"
    if "q mod PGSIZE = 0" "j < 1024" for q j
    unfolding k'_def poke_def using load_store_ent [OF table_page that(1) index_less(2) that(2)] by simp
  have "load32 (mem k') (ent pgdir i) = load32 (mem k) (ent pgdir i)" if "i < 1024" for i
    using m [OF d(2) that] t by simp
  note pd = pde_cong [OF this]
  have "kmem_ok kend k' xs" unfolding k'_def using poke_free [OF d(1) table_page _ index_less(2)] t by blast
  then show "vm_ok kend k' pgdir xs" using ok pd by (simp add: vm_ok_def)
  show "mapping (mem k') pgdir v = (if PGROUNDDOWN v = PGROUNDDOWN va then Some (PTE_ADDR w, PTE_FLAGS w) else mapping (mem k) pgdir v)"
  proof (cases "present (pde_of (mem k) pgdir (PDX v))")
    case False
    then have "PDX v \<noteq> PDX va" using pr by auto
    then show ?thesis using False pd [OF index_less(1)] page_index_iff [of v va] by (auto simp: mapping_def)
  next
    case True
    have "?t = table_of (mem k) pgdir (PDX v) \<and> PTX va = PTX v \<longleftrightarrow> PGROUNDDOWN v = PGROUNDDOWN va"
      unfolding page_index_iff [symmetric] using d(5) [OF index_less(1) index_less(1) True pr] by metis
    then have "load32 (mem k') (ent (table_of (mem k) pgdir (PDX v)) (PTX v)) =
        (if PGROUNDDOWN v = PGROUNDDOWN va then w else load32 (mem k) (ent (table_of (mem k) pgdir (PDX v)) (PTX v)))"
      unfolding m [OF table_page index_less(2)] by (simp only:)
    then show ?thesis using True w pd [OF index_less(1)] by (simp add: mapping_def)
  qed
qed

text \<open>A walk that may allocate a table changes no mapping.\<close>

lemma walk_entry:
  assumes ok: "vm_ok kend k pgdir xs" and w: "walkpgdir k pgdir va True = (pte, k')" "pte \<noteq> 0"
  shows "\<exists>ys. vm_ok kend k' pgdir ys \<and> set ys \<subseteq> set xs \<and> present (pde_of (mem k') pgdir (PDX va)) \<and>
    pte = ent (table_of (mem k') pgdir (PDX va)) (PTX va) \<and> (\<forall>v. mapping (mem k') pgdir v = mapping (mem k) pgdir v)"
proof (cases "present (pde_of (mem k) pgdir (PDX va))")
  case True
  then have "k' = k" "pte = ent (table_of (mem k) pgdir (PDX va)) (PTX va)"
    using w(1) by (auto simp: walkpgdir_def Let_def present_def pde_of_def table_of_def ent_def)
  then show ?thesis using ok True by blast
next
  case False
  obtain p k1 where p: "kalloc k = (p, k1)" by (cases "kalloc k")
  let ?e = "V2P p OR PTE_P OR PTE_W OR PTE_U"
  have res: "p \<noteq> 0" "pte = ent p (PTX va)" "k' = poke (zero_page k1 p) (ent pgdir (PDX va)) ?e"
    using w False p by (auto simp: walkpgdir_def Let_def present_def pde_of_def ent_def split: if_splits)
  note d = vm_okD [OF ok]
  obtain ys where ys: "xs = p # ys" "mem k1 = mem k" "kmem_ok kend k1 ys"
    using kalloc_ok [OF d(1)] p res(1) by (cases xs) auto
  have pg: "p mod PGSIZE = 0" "p \<notin> set ys" "p \<noteq> pgdir" using d(1,3) ys(1) by (auto simp: kmem_ok_def page_ok_def)
  have m: "load32 (mem k') (ent q j) = (if q = pgdir \<and> j = PDX va then ?e else if q = p then 0 else load32 (mem k) (ent q j))"
    if "q mod PGSIZE = 0" "j < 1024" for q j
    unfolding res(3) poke_def zero_page_def
    using load_store_ent [OF d(2) that(1) index_less(1) that(2)] load_fill_ent [OF pg(1) that] ys(2) by auto
  have pd: "pde_of (mem k') pgdir i = (if i = PDX va then ?e else pde_of (mem k) pgdir i)" if "i < 1024" for i
    using m [OF d(2) that] pg(3) by (simp add: pde_of_def)
  have "?e = V2P p OR 7" by (simp add: PTE_P_def PTE_W_def PTE_U_def or.assoc)
  then have te: "P2V (PTE_ADDR ?e) = p" using entry_parts(1) [OF P2V_page(2) [OF pg(1)], of 7] by simp
  then have tb: "table_of (mem k') pgdir i = (if i = PDX va then p else table_of (mem k) pgdir i)" if "i < 1024" for i
    using pd [OF that] by (simp add: table_of_def)
  have pe: "present ?e" using present_or [of "V2P p OR (PTE_W OR PTE_U)"] by (simp add: ac_simps)
  have "kmem_ok kend k' ys" unfolding res(3)
    by (rule poke_free [OF zero_free [OF ys(3) pg(1,2)] d(2) _ index_less(1)]) (use d(3) ys(1) in simp)
  then have "vm_ok kend k' pgdir ys"
    using ok pg(2,3) ys(1) pd tb unfolding vm_ok_def by (auto split: if_splits)
  moreover have "mapping (mem k') pgdir v = mapping (mem k) pgdir v" for v
  proof (cases "PDX v = PDX va")
    case True
    have "load32 (mem k') (ent p (PTX v)) = 0" using m [OF pg(1) index_less(2)] pg(3) by simp
    then show ?thesis
      using True False pd [OF index_less(1), of v] tb [OF index_less(1), of v] by (simp add: mapping_def present_def)
  next
    case other: False
    note e = pd [OF index_less(1), of v] tb [OF index_less(1), of v]
    show ?thesis
    proof (cases "present (pde_of (mem k) pgdir (PDX v))")
      case True
      have t: "table_of (mem k) pgdir (PDX v) \<noteq> pgdir" "table_of (mem k) pgdir (PDX v) \<noteq> p"
        using d(4) [OF index_less(1) True] ys(1) by auto
      have "load32 (mem k') (ent (table_of (mem k) pgdir (PDX v)) (PTX v)) = load32 (mem k) (ent (table_of (mem k) pgdir (PDX v)) (PTX v))"
        using m [OF table_page index_less(2)] t by simp
      then show ?thesis using e other by (simp add: mapping_def)
    qed (use e other in \<open>simp add: mapping_def\<close>)
  qed
  ultimately show ?thesis using pd [OF index_less(1)] tb [OF index_less(1)] pe res(2) ys(1) by (intro exI [of _ ys]) auto
qed

section \<open>Mapping a range of pages\<close>

lemma unat_next_page:
  fixes d :: u32
  assumes "d mod PGSIZE = 0" "d \<noteq> 0"
  shows "unat (d - PGSIZE) = unat d - 4096" "4096 \<le> unat d"
proof -
  have "unat d \<noteq> 0" using assms(2) by (simp add: unat_eq_0)
  then show d: "4096 \<le> unat d" using page_top(1) [OF assms(1)] by (simp add: dvd_imp_le)
  then have "PGSIZE \<le> d" by (simp add: word_le_nat_alt PGSIZE_def)
  then show "unat (d - PGSIZE) = unat d - 4096" by (simp add: unat_sub PGSIZE_def)
qed

lemma PGROUNDDOWN_ADDR: "PGROUNDDOWN a = PTE_ADDR a"
  by (simp add: PGROUNDDOWN_def PTE_ADDR_def PGSIZE_def)

lemma page_iff: "x mod PGSIZE = 0 \<longleftrightarrow> (\<exists>y. x = y * PGSIZE)" for x :: u32
proof
  show "\<exists>y. x = y * PGSIZE" if "x mod PGSIZE = 0" using that div_mult_mod_eq [of x PGSIZE] by (metis add.right_neutral)
next
  assume "\<exists>y. x = y * PGSIZE"
  then obtain y where "x = push_bit 12 y" by (auto simp: push_bit_eq_mult PGSIZE_def)
  then have "take_bit 12 x = 0" by (simp add: take_bit_push_bit)
  then show "x mod PGSIZE = 0" by (simp add: take_bit_eq_mod PGSIZE_def)
qed

lemma page_diff: "a mod PGSIZE = 0 \<Longrightarrow> (PGROUNDDOWN v - a) mod PGSIZE = 0"
  using PTE_ADDR_page [of v] unfolding PGROUNDDOWN_ADDR page_iff by (metis left_diff_distrib)

lemma page_add: "a mod PGSIZE = 0 \<Longrightarrow> (a + PGSIZE) mod PGSIZE = 0"
  unfolding page_iff by (metis distrib_right mult_1)

lemma PGROUNDDOWN_page: "a mod PGSIZE = 0 \<Longrightarrow> PGROUNDDOWN a = a"
  using entry_parts(1) [of a 0] by (simp add: PGROUNDDOWN_ADDR)

lemma flags_present: "fl \<le> 0xFFF \<Longrightarrow> fl OR PTE_P \<le> 0xFFF"
proof -
  assume "fl \<le> 0xFFF"
  then have "take_bit 12 (fl OR PTE_P) = fl OR PTE_P"
    using flag_bits [of fl] by (intro bit_word_eqI) (auto simp: bit_simps PTE_P_def bit_1_iff not_less simp flip: not_le)
  then have "fl OR PTE_P = (fl OR PTE_P) mod 4096" by (simp add: take_bit_eq_mod)
  moreover have "(fl OR PTE_P) mod 4096 < 4096" by (simp add: word_mod_less_divisor)
  ultimately have "fl OR PTE_P < 4096" by metis
  then show ?thesis by (simp add: word_le_nat_alt word_less_nat_alt)
qed

lemma mappages_step:
  assumes ok: "vm_ok kend k pgdir xs" and w: "walkpgdir k pgdir a True = (pte, k1)" "pte \<noteq> 0"
    and pa: "pa mod PGSIZE = 0" and fl: "fl \<le> 0xFFF"
  shows "\<exists>ys. vm_ok kend (poke k1 pte (pa OR fl OR PTE_P)) pgdir ys \<and> set ys \<subseteq> set xs \<and>
    (\<forall>v. mapping (mem (poke k1 pte (pa OR fl OR PTE_P))) pgdir v =
       (if PGROUNDDOWN v = PGROUNDDOWN a then Some (pa, fl OR PTE_P) else mapping (mem k) pgdir v))"
proof -
  obtain ys where ys: "vm_ok kend k1 pgdir ys" "set ys \<subseteq> set xs" "present (pde_of (mem k1) pgdir (PDX a))"
    "pte = ent (table_of (mem k1) pgdir (PDX a)) (PTX a)" "\<forall>v. mapping (mem k1) pgdir v = mapping (mem k) pgdir v"
    using walk_entry [OF ok w] by blast
  have e: "PTE_ADDR (pa OR fl OR PTE_P) = pa" "PTE_FLAGS (pa OR fl OR PTE_P) = fl OR PTE_P"
    using entry_parts [OF pa flags_present [OF fl]] by (simp_all add: or.assoc)
  have pr: "present (pa OR fl OR PTE_P)" using present_or [of "pa OR fl"] by (simp add: or.assoc)
  show ?thesis using poke_entry [OF ys(1,3) pr] ys(2,5) unfolding ys(4) [symmetric] e by auto
qed

lemma mappages_loop_maps:
  assumes "vm_ok kend k pgdir xs" "mappages_loop k pgdir a pa fl n = Ok (0, k')" "a mod PGSIZE = 0" "pa mod PGSIZE = 0"
    "fl \<le> 0xFFF" "n < 2 ^ 20"
  shows "\<exists>ys. vm_ok kend k' pgdir ys \<and> set ys \<subseteq> set xs \<and>
    (\<forall>v. mapping (mem k') pgdir v =
       (if unat (PGROUNDDOWN v - a) \<le> 4096 * n then Some (pa + (PGROUNDDOWN v - a), fl OR PTE_P) else mapping (mem k) pgdir v))"
  using assms(1-4,6)
proof (induction n arbitrary: k xs a pa)
  case (0 k xs a pa)
  obtain pte k1 where w: "walkpgdir k pgdir a True = (pte, k1)" by (cases "walkpgdir k pgdir a True")
  have r: "pte \<noteq> 0" "k' = poke k1 pte (pa OR fl OR PTE_P)"
    using "0.prems"(2) w by (auto simp: mappages_loop.simps [of k] Let_def split: if_splits)
  have "unat (PGROUNDDOWN v - a) \<le> 4096 * 0 \<longleftrightarrow> PGROUNDDOWN v = PGROUNDDOWN a" for v
    using PGROUNDDOWN_page [OF "0.prems"(3)] by (auto simp: unat_eq_0)
  then show ?case using mappages_step [OF "0.prems"(1) w r(1) "0.prems"(4) assms(5)] PGROUNDDOWN_page [OF "0.prems"(3)] r(2) by auto
next
  case (Suc n k xs a pa)
  obtain pte k1 where w: "walkpgdir k pgdir a True = (pte, k1)" by (cases "walkpgdir k pgdir a True")
  let ?k2 = "poke k1 pte (pa OR fl OR PTE_P)"
  have r: "pte \<noteq> 0" "mappages_loop ?k2 pgdir (a + PGSIZE) (pa + PGSIZE) fl n = Ok (0, k')"
    using Suc.prems(2) w by (auto simp: mappages_loop.simps [of k] Let_def split: if_splits)
  obtain ys where ys: "vm_ok kend ?k2 pgdir ys" "set ys \<subseteq> set xs"
    "\<And>v. mapping (mem ?k2) pgdir v = (if PGROUNDDOWN v = a then Some (pa, fl OR PTE_P) else mapping (mem k) pgdir v)"
    using mappages_step [OF Suc.prems(1) w r(1) Suc.prems(4) assms(5)] PGROUNDDOWN_page [OF Suc.prems(3)] by auto
  obtain zs where zs: "vm_ok kend k' pgdir zs" "set zs \<subseteq> set ys"
    "\<And>v. mapping (mem k') pgdir v = (if unat (PGROUNDDOWN v - (a + PGSIZE)) \<le> 4096 * n
       then Some (pa + PGSIZE + (PGROUNDDOWN v - (a + PGSIZE)), fl OR PTE_P) else mapping (mem ?k2) pgdir v)"
    using Suc.IH [OF ys(1) r(2) page_add [OF Suc.prems(3)] page_add [OF Suc.prems(4)]] Suc.prems(5) by auto
  have "mapping (mem k') pgdir v =
      (if unat (PGROUNDDOWN v - a) \<le> 4096 * Suc n then Some (pa + (PGROUNDDOWN v - a), fl OR PTE_P) else mapping (mem k) pgdir v)" for v
  proof -
    let ?d = "PGROUNDDOWN v - a"
    have e: "PGROUNDDOWN v - (a + PGSIZE) = ?d - PGSIZE" "pa + PGSIZE + (?d - PGSIZE) = pa + ?d" by simp_all
    show ?thesis
    proof (cases "?d = 0")
      case True
      have "unat (?d - PGSIZE) = 2 ^ 32 - 4096" unfolding True by (simp add: PGSIZE_def)
      then show ?thesis using zs(3) [of v] ys(3) [of v] True Suc.prems(5) unfolding e by simp
    next
      case False
      note u = unat_next_page [OF page_diff [OF Suc.prems(3)] False]
      have "unat (?d - PGSIZE) \<le> 4096 * n \<longleftrightarrow> unat ?d \<le> 4096 * Suc n" unfolding u(1) using u(2) by auto
      then show ?thesis using zs(3) [of v] ys(3) [of v] False unfolding e by auto
    qed
  qed
  then show ?case using zs(1,2) ys(2) by blast
qed

text \<open>
  C15: When \<^verbatim>\<open>mappages\<close> succeeds, every page from the one of \<open>va\<close> to the one of \<open>va + len - 1\<close> is mapped to its
  frame behind \<open>pa\<close> with the given permissions, every other page has the mapping it had before, and
  the directory and its tables are still pages of their own, outside the free list.
\<close>

theorem mappages_maps_range:
  assumes "vm_ok kend k pgdir xs" "mappages k pgdir va len pa fl = Ok (0, k')" "pa mod PGSIZE = 0" "fl \<le> 0xFFF"
  shows "(\<exists>ys. vm_ok kend k' pgdir ys \<and> set ys \<subseteq> set xs) \<and>
    (\<forall>v. mapping (mem k') pgdir v =
       (if PGROUNDDOWN v - PGROUNDDOWN va \<le> PGROUNDDOWN (va + len - 1) - PGROUNDDOWN va
        then Some (pa + (PGROUNDDOWN v - PGROUNDDOWN va), fl OR PTE_P) else mapping (mem k) pgdir v))"
proof -
  let ?a = "PGROUNDDOWN va" and ?n = "unat (PGROUNDDOWN (va + len - 1) - PGROUNDDOWN va) div 4096"
  have a: "?a mod PGSIZE = 0" unfolding PGROUNDDOWN_ADDR by (rule PTE_ADDR_page)
  have n: "4096 * ?n = unat (PGROUNDDOWN (va + len - 1) - ?a)" using page_top(1) [OF page_diff [OF a]] by simp
  have "?n < 2 ^ 20" using unat_bound [of "PGROUNDDOWN (va + len - 1) - ?a"] by simp
  from mappages_loop_maps [OF assms(1) assms(2) [unfolded mappages_def Let_def] a assms(3,4) this]
  show ?thesis unfolding n word_le_nat_alt by blast
qed

text \<open>An empty directory and one free page, which becomes the page table.\<close>

definition empty_vm :: kmem where
  "empty_vm = \<lparr> mem = (\<lambda>_. 0), use_lock = True, freelist = 0x80401000 \<rparr>"

lemma empty_vm_load: "load32 (mem empty_vm) a = 0"
  by (simp add: empty_vm_def load32_def)

lemma empty_vm_ok: "vm_ok 0x80400000 empty_vm 0x80400000 [0x80401000]"
proof -
  have "\<not> present (pde_of (mem empty_vm) 0x80400000 i)" for i by (simp add: present_def pde_of_def empty_vm_load)
  moreover have "kmem_ok 0x80400000 empty_vm [0x80401000]"
    by (simp add: kmem_ok_def empty_vm_load page_ok_def PGSIZE_def PHYSTOP_def V2P_def KERNBASE_def) (simp add: empty_vm_def)
  ultimately show ?thesis by (simp add: vm_ok_def PGSIZE_def)
qed

lemma empty_vm_maps: "\<exists>k'. mappages empty_vm 0x80400000 0x1000 4096 0x5000 6 = Ok (0, k')"
proof -
  have d: "PGROUNDDOWN 0x1000 = 0x1000" "PGROUNDDOWN 0x1FFF = 0x1000" by (simp_all add: PGROUNDDOWN_def PGSIZE_def)
  have i: "PDX 0x1000 = 0" "PTX 0x1000 = 1" by (simp_all add: PDX_def PTX_def drop_bit_eq_div)
  let ?k = "poke (zero_page (empty_vm\<lparr>freelist := 0\<rparr>) 0x80401000) 0x80400000 0x401007"
  have w: "walkpgdir empty_vm 0x80400000 0x1000 True = (0x80401004, ?k)"
    by (simp add: walkpgdir_def i empty_vm_load kalloc_def Let_def V2P_def KERNBASE_def PTE_P_def PTE_W_def PTE_U_def)
      (simp add: empty_vm_def load32_def)
  have "load32 (mem ?k) (ent 0x80401000 1) = 0"
    using load_store_ent [where p = "0x80400000" and q = "0x80401000" and i = 0 and j = 1]
      load_fill_ent [where p = "0x80401000" and q = "0x80401000" and j = 1]
    by (simp add: poke_def zero_page_def PGSIZE_def ent_def)
  then have "load32 (mem ?k) 0x80401004 = 0" by (simp add: ent_def)
  then show ?thesis by (simp add: mappages_def Let_def d mappages_loop.simps [of empty_vm] w)
qed

theorem mappages_maps_range_witness:
  "\<exists>k'. vm_ok 0x80400000 empty_vm 0x80400000 [0x80401000] \<and> mappages empty_vm 0x80400000 0x1000 4096 0x5000 6 = Ok (0, k') \<and>
     (0x5000 :: u32) mod PGSIZE = 0 \<and> (6 :: u32) \<le> 0xFFF \<and> mapping (mem k') 0x80400000 0x1234 = Some (0x5000, 7)"
proof -
  obtain k' where k': "mappages empty_vm 0x80400000 0x1000 4096 0x5000 6 = Ok (0, k')" using empty_vm_maps by blast
  have h: "(0x5000 :: u32) mod PGSIZE = 0" "(6 :: u32) \<le> 0xFFF" by (simp_all add: PGSIZE_def)
  have d: "PGROUNDDOWN 0x1234 = 0x1000" "PGROUNDDOWN 0x1000 = 0x1000" by (simp_all add: PGROUNDDOWN_def PGSIZE_def)
  have m: "mapping (mem k') 0x80400000 0x1234 = Some (0x5000, 7)"
    using mappages_maps_range [OF empty_vm_ok k' h, THEN conjunct2, THEN spec, of "0x1234"] unfolding d by (simp add: PTE_P_def)
  show ?thesis by (intro exI [of _ k'] conjI empty_vm_ok k' h m)
qed

text \<open>
  \<^verbatim>\<open>copyout\<close> tests the address that \<^verbatim>\<open>uva2ka\<close> returns, but \<^verbatim>\<open>uva2ka\<close> has by then read through the null pointer that
  \<^verbatim>\<open>walkpgdir\<close> returns for an address without a page table.
\<close>

lemma copyout_unmapped_faults:
  assumes "\<not> present (pde_of (mem k) pgdir (PDX va))" "buf \<noteq> []"
  shows "copyout k pgdir va buf = Fault ''null pointer''"
proof -
  have "PGROUNDDOWN (PGROUNDDOWN va) = PGROUNDDOWN va"
    using PGROUNDDOWN_page [OF PTE_ADDR_page [of va]] by (simp add: PGROUNDDOWN_ADDR)
  then have "PDX (PGROUNDDOWN va) = PDX va" using page_index_iff by blast
  then have "uva2ka k pgdir (PGROUNDDOWN va) = Fault ''null pointer''"
    using assms(1) by (simp add: uva2ka_def walkpgdir_def Let_def present_def pde_of_def ent_def)
  then show ?thesis using assms(2) by (simp add: copyout.simps [of k] Let_def)
qed

end
