(* ===== verification/Xv6_File.thy ===== *)
theory Xv6_File
  imports Xv6_Fs Xv6_Pipe Xv6_Kalloc
begin

text \<open>
  Open files of xv6 (\<^verbatim>\<open>src/xv6/base/file.c\<close>, \<^verbatim>\<open>pipealloc\<close> and the calls of \<^verbatim>\<open>pipe.c\<close> on the shared state)
  and the fetching of system call arguments (\<^verbatim>\<open>src/xv6/base/syscall.c\<close>). The state \<open>ksys\<close> is what one
  process sees in a system call: the file system, the table of open files, the pipes by the address
  of their page, the page allocator, and of its own \<^verbatim>\<open>struct proc\<close> the memory, the saved stack
  pointer, the descriptors and the current directory. The memory is the list of the bytes at the
  addresses from 0 to \<^verbatim>\<open>sz\<close>. A pointer to an open file is an index of the table.
\<close>

section \<open>State\<close>

definition NFILE :: nat where "NFILE = 100"
definition NOFILE :: nat where "NOFILE = 16"
definition MAXARG :: nat where "MAXARG = 32"

datatype file_type = FD_NONE | FD_PIPE | FD_INODE

record open_file =
  f_type :: file_type
  f_ref :: int
  f_readable :: bool
  f_writable :: bool
  f_pipe :: u32
  f_ip :: nat
  f_off :: u32

record ksys =
  k_fs :: fsys
  ftable :: "open_file list"
  k_pipes :: "u32 \<Rightarrow> pipe"
  k_kmem :: kmem
  k_end :: u32
  u_sz :: u32
  u_mem :: "byte list"
  u_esp :: u32
  u_ofile :: "nat option list"
  u_cwd :: nat
  u_killed :: bool

definition set_file :: "ksys \<Rightarrow> nat \<Rightarrow> (open_file \<Rightarrow> open_file) \<Rightarrow> ksys" where
  "set_file k f h = k\<lparr>ftable := (ftable k)[f := h (ftable k ! f)]\<rparr>"

definition set_pipe :: "ksys \<Rightarrow> u32 \<Rightarrow> pipe \<Rightarrow> ksys" where
  "set_pipe k a p = k\<lparr>k_pipes := (k_pipes k)(a := p)\<rparr>"

definition put_user :: "ksys \<Rightarrow> u32 \<Rightarrow> byte list \<Rightarrow> ksys" where
  "put_user k a bs = k\<lparr>u_mem := put_at (u_mem k) (unat a) bs\<rparr>"

text \<open>Calls of the file system and of the log on the whole state.\<close>

definition on_fs :: "ksys \<Rightarrow> (fsys \<Rightarrow> ('r \<times> fsys) outcome) \<Rightarrow> ('r \<times> ksys) outcome" where
  "on_fs k h = andThen (h (k_fs k)) (\<lambda>(r, fs). Ok (r, k\<lparr>k_fs := fs\<rparr>))"

definition f_begin_op :: "fsys \<Rightarrow> fsys outcome" where
  "f_begin_op fs = andThen (begin_op (lg fs)) (\<lambda>l. Ok (fs\<lparr>lg := l\<rparr>))"

definition f_end_op :: "fsys \<Rightarrow> fsys outcome" where
  "f_end_op fs = andThen (end_op (bc fs) (lg fs)) (\<lambda>(bs, l). Ok (fs\<lparr>bc := bs, lg := l\<rparr>))"

section \<open>System call arguments\<close>

definition fetchint :: "ksys \<Rightarrow> u32 \<Rightarrow> u32 option" where
  "fetchint k addr =
     (if u_sz k \<le> addr \<or> u_sz k < addr + 4 then None else Some (word_at (u_mem k) (unat addr)))"

text \<open>The loop of \<^verbatim>\<open>fetchstr\<close> up to the end of the memory; the string is its result.\<close>

fun scan_str :: "byte list \<Rightarrow> byte list option" where
  "scan_str [] = None"
| "scan_str (c # s) = (if c = 0 then Some [] else map_option (Cons c) (scan_str s))"

definition fetchstr :: "ksys \<Rightarrow> u32 \<Rightarrow> byte list option" where
  "fetchstr k addr =
     (if u_sz k \<le> addr then None else scan_str (get_at (u_mem k) (unat addr) (unat (u_sz k) - unat addr)))"

definition argint :: "ksys \<Rightarrow> nat \<Rightarrow> u32 option" where
  "argint k n = fetchint k (u_esp k + 4 + 4 * of_nat n)"

definition argptr :: "ksys \<Rightarrow> nat \<Rightarrow> u32 \<Rightarrow> u32 option" where
  "argptr k n len =
     (case argint k n of
        None \<Rightarrow> None
      | Some i \<Rightarrow> if sint len < 0 \<or> u_sz k \<le> i \<or> u_sz k < i + len then None else Some i)"

definition argstr :: "ksys \<Rightarrow> nat \<Rightarrow> byte list option" where
  "argstr k n = (case argint k n of None \<Rightarrow> None | Some addr \<Rightarrow> fetchstr k addr)"

section \<open>Open files\<close>

definition filealloc :: "ksys \<Rightarrow> nat option \<times> ksys" where
  "filealloc k =
     (case find (\<lambda>f. f_ref (ftable k ! f) = 0) [0..<NFILE] of
        Some f \<Rightarrow> (Some f, set_file k f (\<lambda>x. x\<lparr>f_ref := 1\<rparr>))
      | None \<Rightarrow> (None, k))"

definition filedup :: "ksys \<Rightarrow> nat \<Rightarrow> ksys outcome" where
  "filedup k f =
     (if f_ref (ftable k ! f) < 1 then Panic ''filedup''
      else Ok (set_file k f (\<lambda>x. x\<lparr>f_ref := f_ref x + 1\<rparr>)))"

definition k_pipeclose :: "ksys \<Rightarrow> u32 \<Rightarrow> bool \<Rightarrow> ksys outcome" where
  "k_pipeclose k a writable =
     (let (p, woken, freed) = pipeclose (k_pipes k a) writable; k = set_pipe k a p
      in if freed then andThen (kfree (k_end k) (k_kmem k) a) (\<lambda>km. Ok (k\<lparr>k_kmem := km\<rparr>)) else Ok k)"

definition fileclose :: "ksys \<Rightarrow> nat \<Rightarrow> ksys outcome" where
  "fileclose k f =
     (if f_ref (ftable k ! f) < 1 then Panic ''fileclose''
      else let k = set_file k f (\<lambda>x. x\<lparr>f_ref := f_ref x - 1\<rparr>)
           in if 0 < f_ref (ftable k ! f) then Ok k
              else let ff = ftable k ! f; k = set_file k f (\<lambda>x. x\<lparr>f_ref := 0, f_type := FD_NONE\<rparr>)
                   in case f_type ff of
                        FD_PIPE \<Rightarrow> k_pipeclose k (f_pipe ff) (f_writable ff)
                      | FD_INODE \<Rightarrow>
                          andThen (on_fs k (\<lambda>fs.
                            andThen (f_begin_op fs) (\<lambda>fs.
                            andThen (iput fs (f_ip ff)) (\<lambda>fs.
                            andThen (f_end_op fs) (\<lambda>fs. Ok ((), fs)))))) (\<lambda>(_, k). Ok k)
                      | FD_NONE \<Rightarrow> Ok k)"

text \<open>The status that \<^verbatim>\<open>filestat\<close> fills in, or nothing for its result -1.\<close>

definition filestat :: "ksys \<Rightarrow> nat \<Rightarrow> (statbuf option \<times> ksys) outcome" where
  "filestat k f =
     (let x = ftable k ! f
      in if f_type x = FD_INODE
         then on_fs k (\<lambda>fs.
                andThen (ilock fs (f_ip x)) (\<lambda>fs.
                  let st = stati fs (f_ip x)
                  in andThen (iunlock fs (f_ip x)) (\<lambda>fs. Ok (Some st, fs))))
         else Ok (None, k))"

text \<open>The offset moves by what a read or a write returned, if that is positive.\<close>

definition advance :: "ksys \<Rightarrow> nat \<Rightarrow> int \<Rightarrow> ksys" where
  "advance k f r = (if 0 < r then set_file k f (\<lambda>x. x\<lparr>f_off := f_off x + of_int r\<rparr>) else k)"

definition fileread :: "devsw \<Rightarrow> ksys \<Rightarrow> nat \<Rightarrow> u32 \<Rightarrow> nat \<Rightarrow> (int \<times> ksys) outcome" where
  "fileread dv k f addr n =
     (let x = ftable k ! f
      in if \<not> f_readable x then Ok (-1, k)
         else case f_type x of
           FD_PIPE \<Rightarrow>
             (case piperead (k_pipes k (f_pipe x)) (u_killed k) n of
                (p, bs, _, Returned r) \<Rightarrow> Ok (r, put_user (set_pipe k (f_pipe x) p) addr bs)
              | (p, bs, _, Asleep c) \<Rightarrow> Sleep ''nread'')
         | FD_INODE \<Rightarrow>
             andThen (on_fs k (\<lambda>fs.
               andThen (ilock fs (f_ip x)) (\<lambda>fs. readi dv fs (f_ip x) (f_off x) (of_nat n)))) (\<lambda>((r, bs), k).
             on_fs (advance (put_user k addr bs) f r) (\<lambda>fs. andThen (iunlock fs (f_ip x)) (\<lambda>fs. Ok (r, fs))))
         | FD_NONE \<Rightarrow> Panic ''fileread'')"

text \<open>The bytes that a call of \<^verbatim>\<open>writei\<close> in the loop of \<^verbatim>\<open>filewrite\<close> writes at most.\<close>

definition write_max :: nat where
  "write_max = nat (((MAXOPBLOCKS - 1 - 1 - 2) div 2) * 512)"

lemma write_max_eq: "write_max = 1536"
  by (simp add: write_max_def MAXOPBLOCKS_def)

function filewrite_loop :: "devsw \<Rightarrow> ksys \<Rightarrow> nat \<Rightarrow> u32 \<Rightarrow> nat \<Rightarrow> nat \<Rightarrow> (int \<times> ksys) outcome" where
  "filewrite_loop dv k f addr n i =
     (if i < n
      then let n1 = (if write_max < n - i then write_max else n - i); ip = f_ip (ftable k ! f)
           in andThen (on_fs k (\<lambda>fs.
                andThen (f_begin_op fs) (\<lambda>fs.
                andThen (ilock fs ip) (\<lambda>fs.
                  writei dv fs ip (get_at (u_mem k) (unat addr + i) n1) (f_off (ftable k ! f)) (of_nat n1))))) (\<lambda>(r, k).
              andThen (on_fs (advance k f r) (\<lambda>fs.
                andThen (iunlock fs ip) (\<lambda>fs.
                andThen (f_end_op fs) (\<lambda>fs. Ok ((), fs))))) (\<lambda>(_, k).
              if r < 0 then Ok (-1, k)
              else if r \<noteq> int n1 then Panic ''short filewrite''
              else filewrite_loop dv k f addr n (i + n1)))
      else Ok (int n, k))"
  by pat_completeness auto
termination
  by (relation "measure (\<lambda>(_, _, _, _, n, i). n - i)") (auto simp: write_max_eq)

declare filewrite_loop.simps [simp del]

definition filewrite :: "devsw \<Rightarrow> ksys \<Rightarrow> nat \<Rightarrow> u32 \<Rightarrow> nat \<Rightarrow> (int \<times> ksys) outcome" where
  "filewrite dv k f addr n =
     (let x = ftable k ! f
      in if \<not> f_writable x then Ok (-1, k)
         else case f_type x of
           FD_PIPE \<Rightarrow>
             (case pipewrite (k_pipes k (f_pipe x)) (u_killed k) (get_at (u_mem k) (unat addr) n) 0 n of
                (p, _, _, Returned r) \<Rightarrow> Ok (r, set_pipe k (f_pipe x) p)
              | (p, _, _, Asleep c) \<Rightarrow> Sleep ''nwrite'')
         | FD_INODE \<Rightarrow> filewrite_loop dv k f addr n 0
         | FD_NONE \<Rightarrow> Panic ''filewrite'')"

text \<open>
  \<^verbatim>\<open>pipealloc\<close>: the two files, or nothing for its result -1. The ring lies behind the lock of 52 bytes in
  the new page and keeps the bytes of the page.
\<close>

definition pipe_page :: "kmem \<Rightarrow> u32 \<Rightarrow> byte list" where
  "pipe_page km a = map (\<lambda>i. mem km (a + 52 + of_nat i)) [0..<PIPESIZE]"

definition pipealloc :: "ksys \<Rightarrow> ((nat \<times> nat) option \<times> ksys) outcome" where
  "pipealloc k =
     (case filealloc k of
        (None, k) \<Rightarrow> Ok (None, k)
      | (Some f0, k) \<Rightarrow>
          (case filealloc k of
             (None, k) \<Rightarrow> andThen (fileclose k f0) (\<lambda>k. Ok (None, k))
           | (Some f1, k) \<Rightarrow>
               (let (a, km) = kalloc (k_kmem k); k = k\<lparr>k_kmem := km\<rparr>
                in if a = 0
                   then andThen (fileclose k f0) (\<lambda>k. andThen (fileclose k f1) (\<lambda>k. Ok (None, k)))
                   else let k = set_pipe k a (pipe_init (pipe_page km a));
                            k = set_file k f0 (\<lambda>x. x\<lparr>f_type := FD_PIPE, f_readable := True, f_writable := False, f_pipe := a\<rparr>);
                            k = set_file k f1 (\<lambda>x. x\<lparr>f_type := FD_PIPE, f_readable := False, f_writable := True, f_pipe := a\<rparr>)
                        in Ok (Some (f0, f1), k))))"

end
