(* ===== verification/Xv6_Sysfile.thy ===== *)
theory Xv6_Sysfile
  imports Xv6_File
begin

text \<open>
  The system calls on files (\<^verbatim>\<open>src/xv6/base/sysfile.c\<close>). A call takes the state of the kernel as the
  process sees it and yields its result, the value left in \<^verbatim>\<open>eax\<close>, with the new state. A path is the
  string the process passed. The part of a call inside one transaction of the log works on the file
  system alone and is run by \<open>on_fs\<close>.
\<close>

section \<open>Descriptors\<close>

definition argfd :: "ksys \<Rightarrow> nat \<Rightarrow> (nat \<times> nat) option" where
  "argfd k n =
     (case argint k n of
        None \<Rightarrow> None
      | Some fd \<Rightarrow>
          if sint fd < 0 \<or> int NOFILE \<le> sint fd then None
          else map_option (\<lambda>f. (unat fd, f)) (u_ofile k ! unat fd))"

definition fdalloc :: "ksys \<Rightarrow> nat \<Rightarrow> nat option \<times> ksys" where
  "fdalloc k f =
     (case find (\<lambda>fd. u_ofile k ! fd = None) [0..<NOFILE] of
        Some fd \<Rightarrow> (Some fd, k\<lparr>u_ofile := (u_ofile k)[fd := Some f]\<rparr>)
      | None \<Rightarrow> (None, k))"

definition sys_dup :: "ksys \<Rightarrow> (int \<times> ksys) outcome" where
  "sys_dup k =
     (case argfd k 0 of
        None \<Rightarrow> Ok (-1, k)
      | Some (_, f) \<Rightarrow>
          (case fdalloc k f of
             (None, k) \<Rightarrow> Ok (-1, k)
           | (Some fd, k) \<Rightarrow> andThen (filedup k f) (\<lambda>k. Ok (int fd, k))))"

definition sys_read :: "devsw \<Rightarrow> ksys \<Rightarrow> (int \<times> ksys) outcome" where
  "sys_read dv k =
     (case (argfd k 0, argint k 2) of
        (Some (_, f), Some n) \<Rightarrow> (case argptr k 1 n of None \<Rightarrow> Ok (-1, k) | Some p \<Rightarrow> fileread dv k f p (unat n))
      | _ \<Rightarrow> Ok (-1, k))"

definition sys_write :: "devsw \<Rightarrow> ksys \<Rightarrow> (int \<times> ksys) outcome" where
  "sys_write dv k =
     (case (argfd k 0, argint k 2) of
        (Some (_, f), Some n) \<Rightarrow> (case argptr k 1 n of None \<Rightarrow> Ok (-1, k) | Some p \<Rightarrow> filewrite dv k f p (unat n))
      | _ \<Rightarrow> Ok (-1, k))"

definition sys_close :: "ksys \<Rightarrow> (int \<times> ksys) outcome" where
  "sys_close k =
     (case argfd k 0 of
        None \<Rightarrow> Ok (-1, k)
      | Some (fd, f) \<Rightarrow> andThen (fileclose (k\<lparr>u_ofile := (u_ofile k)[fd := None]\<rparr>) f) (\<lambda>k. Ok (0, k)))"

text \<open>The fields of \<^verbatim>\<open>struct stat\<close> at their places; the bytes between them keep their values.\<close>

definition put_stat :: "ksys \<Rightarrow> u32 \<Rightarrow> statbuf \<Rightarrow> ksys" where
  "put_stat k a st =
     put_user (put_user (put_user (put_user (put_user k
       a (le16 (st_type st))) (a + 4) (le32 (st_dev st))) (a + 8) (le32 (st_ino st)))
       (a + 12) (le16 (st_nlink st))) (a + 16) (le32 (st_size st))"

definition sys_fstat :: "ksys \<Rightarrow> (int \<times> ksys) outcome" where
  "sys_fstat k =
     (case (argfd k 0, argptr k 1 20) of
        (Some (_, f), Some a) \<Rightarrow>
          andThen (filestat k f) (\<lambda>(st, k). case st of None \<Rightarrow> Ok (-1, k) | Some st \<Rightarrow> Ok (0, put_stat k a st))
      | _ \<Rightarrow> Ok (-1, k))"

section \<open>Links\<close>

definition f_end :: "'r \<Rightarrow> fsys \<Rightarrow> ('r \<times> fsys) outcome" where
  "f_end r fs = andThen (f_end_op fs) (\<lambda>fs. Ok (r, fs))"

text \<open>The label \<^verbatim>\<open>bad\<close> of \<^verbatim>\<open>sys_link\<close>.\<close>

definition link_bad :: "fsys \<Rightarrow> nat \<Rightarrow> (int \<times> fsys) outcome" where
  "link_bad fs ip =
     andThen (ilock fs ip) (\<lambda>fs.
     andThen (iupdate (set_inode fs ip (\<lambda>i. i\<lparr>i_nlink := i_nlink i - 1\<rparr>)) ip) (\<lambda>fs.
     andThen (iunlockput fs ip) (f_end (-1))))"

definition sys_link :: "devsw \<Rightarrow> ksys \<Rightarrow> (int \<times> ksys) outcome" where
  "sys_link dv k =
     (case (argstr k 0, argstr k 1) of
        (Some old, Some new) \<Rightarrow> on_fs k (\<lambda>fs.
          andThen (f_begin_op fs) (\<lambda>fs.
          andThen (namei dv fs (u_cwd k) old) (\<lambda>(r, fs).
            case r of None \<Rightarrow> f_end (-1) fs
            | Some ip \<Rightarrow>
                andThen (ilock fs ip) (\<lambda>fs.
                  if i_type (icache fs ! ip) = T_DIR then andThen (iunlockput fs ip) (f_end (-1))
                  else andThen (iupdate (set_inode fs ip (\<lambda>i. i\<lparr>i_nlink := i_nlink i + 1\<rparr>)) ip) (\<lambda>fs.
                       andThen (iunlock fs ip) (\<lambda>fs.
                       andThen (nameiparent dv fs (u_cwd k) new) (\<lambda>(r, fs).
                         case r of None \<Rightarrow> link_bad fs ip
                         | Some (dp, name) \<Rightarrow>
                             andThen (ilock fs dp) (\<lambda>fs.
                             andThen (if i_dev (icache fs ! dp) \<noteq> i_dev (icache fs ! ip) then Ok (-1, fs)
                                      else dirlink dv fs dp name (i_inum (icache fs ! ip))) (\<lambda>(d, fs).
                             andThen (iunlockput fs dp) (\<lambda>fs.
                               if d < 0 then link_bad fs ip else andThen (iput fs ip) (f_end 0)))))))))))
      | _ \<Rightarrow> Ok (-1, k))"

function isdirempty_from :: "devsw \<Rightarrow> fsys \<Rightarrow> nat \<Rightarrow> u32 \<Rightarrow> nat \<Rightarrow> (bool \<times> fsys) outcome" where
  "isdirempty_from dv fs dp sz off =
     (if off < unat sz
      then andThen (readi dv fs dp (of_nat off) 16) (\<lambda>((r, de), fs).
             if r \<noteq> 16 then Panic ''isdirempty: readi''
             else if de_inum de \<noteq> 0 then Ok (False, fs)
             else isdirempty_from dv fs dp sz (off + 16))
      else Ok (True, fs))"
  by pat_completeness auto
termination
  by (relation "measure (\<lambda>(_, _, _, sz, off). unat sz - off)") auto

declare isdirempty_from.simps [simp del]

definition isdirempty :: "devsw \<Rightarrow> fsys \<Rightarrow> nat \<Rightarrow> (bool \<times> fsys) outcome" where
  "isdirempty dv fs dp = isdirempty_from dv fs dp (i_size (icache fs ! dp)) 32"

text \<open>The part of \<^verbatim>\<open>sys_unlink\<close> from the found entry on, with both inodes locked.\<close>

definition unlink_entry :: "devsw \<Rightarrow> fsys \<Rightarrow> nat \<Rightarrow> nat \<Rightarrow> nat \<Rightarrow> (int \<times> fsys) outcome" where
  "unlink_entry dv fs dp ip off =
     andThen (writei dv fs dp (replicate 16 0) (of_nat off) 16) (\<lambda>(w, fs).
       if w \<noteq> 16 then Panic ''unlink: writei''
       else andThen (if i_type (icache fs ! ip) = T_DIR
                     then iupdate (set_inode fs dp (\<lambda>i. i\<lparr>i_nlink := i_nlink i - 1\<rparr>)) dp else Ok fs) (\<lambda>fs.
            andThen (iunlockput fs dp) (\<lambda>fs.
            andThen (iupdate (set_inode fs ip (\<lambda>i. i\<lparr>i_nlink := i_nlink i - 1\<rparr>)) ip) (\<lambda>fs.
            andThen (iunlockput fs ip) (f_end 0)))))"

definition sys_unlink :: "devsw \<Rightarrow> ksys \<Rightarrow> (int \<times> ksys) outcome" where
  "sys_unlink dv k =
     (case argstr k 0 of
        None \<Rightarrow> Ok (-1, k)
      | Some path \<Rightarrow> on_fs k (\<lambda>fs.
          andThen (f_begin_op fs) (\<lambda>fs.
          andThen (nameiparent dv fs (u_cwd k) path) (\<lambda>(r, fs).
            case r of None \<Rightarrow> f_end (-1) fs
            | Some (dp, name) \<Rightarrow>
                andThen (ilock fs dp) (\<lambda>fs.
                  let bad = (\<lambda>fs. andThen (iunlockput fs dp) (f_end (-1)))
                  in if namecmp name [46] = 0 \<or> namecmp name [46, 46] = 0 then bad fs
                     else andThen (dirlookup dv fs dp name) (\<lambda>(e, fs).
                       case e of None \<Rightarrow> bad fs
                       | Some (ip, off) \<Rightarrow>
                           andThen (ilock fs ip) (\<lambda>fs.
                             if sint (i_nlink (icache fs ! ip)) < 1 then Panic ''unlink: nlink < 1''
                             else andThen (if i_type (icache fs ! ip) = T_DIR then isdirempty dv fs ip else Ok (True, fs)) (\<lambda>(e, fs).
                                  if \<not> e then andThen (iunlockput fs ip) bad
                                  else unlink_entry dv fs dp ip off))))))))"

section \<open>Creating and opening\<close>

text \<open>
  The test of \<^verbatim>\<open>ialloc\<close>'s result for 0 in \<^verbatim>\<open>create\<close> never succeeds: \<^verbatim>\<open>ialloc\<close> panics instead.
\<close>

definition create_dots :: "devsw \<Rightarrow> fsys \<Rightarrow> nat \<Rightarrow> nat \<Rightarrow> fsys outcome" where
  "create_dots dv fs dp ip =
     andThen (iupdate (set_inode fs dp (\<lambda>i. i\<lparr>i_nlink := i_nlink i + 1\<rparr>)) dp) (\<lambda>fs.
     andThen (dirlink dv fs ip [46] (i_inum (icache fs ! ip))) (\<lambda>(r, fs).
       if r < 0 then Panic ''create dots''
       else andThen (dirlink dv fs ip [46, 46] (i_inum (icache fs ! dp))) (\<lambda>(r, fs).
            if r < 0 then Panic ''create dots'' else Ok fs)))"

definition create :: "devsw \<Rightarrow> fsys \<Rightarrow> nat \<Rightarrow> byte list \<Rightarrow> u16 \<Rightarrow> u16 \<Rightarrow> u16 \<Rightarrow> (nat option \<times> fsys) outcome" where
  "create dv fs cwd path type major minor =
     andThen (nameiparent dv fs cwd path) (\<lambda>(r, fs).
       case r of None \<Rightarrow> Ok (None, fs)
       | Some (dp, name) \<Rightarrow>
           andThen (ilock fs dp) (\<lambda>fs.
           andThen (dirlookup dv fs dp name) (\<lambda>(e, fs).
             case e of
               Some (ip, _) \<Rightarrow>
                 andThen (iunlockput fs dp) (\<lambda>fs.
                 andThen (ilock fs ip) (\<lambda>fs.
                   if type = T_FILE \<and> i_type (icache fs ! ip) = T_FILE then Ok (Some ip, fs)
                   else andThen (iunlockput fs ip) (\<lambda>fs. Ok (None, fs))))
             | None \<Rightarrow>
                 andThen (ialloc fs (i_dev (icache fs ! dp)) type) (\<lambda>(ip, fs).
                 andThen (ilock fs ip) (\<lambda>fs.
                 andThen (iupdate (set_inode fs ip (\<lambda>i. i\<lparr>i_major := major, i_minor := minor, i_nlink := 1\<rparr>)) ip) (\<lambda>fs.
                 andThen (if type = T_DIR then create_dots dv fs dp ip else Ok fs) (\<lambda>fs.
                 andThen (dirlink dv fs dp name (i_inum (icache fs ! ip))) (\<lambda>(r, fs).
                   if r < 0 then Panic ''create: dirlink''
                   else andThen (iunlockput fs dp) (\<lambda>fs. Ok (Some ip, fs))))))))))"

definition O_RDONLY :: u32 where "O_RDONLY = 0"
definition O_WRONLY :: u32 where "O_WRONLY = 1"
definition O_RDWR :: u32 where "O_RDWR = 2"
definition O_CREATE :: u32 where "O_CREATE = 0x200"

text \<open>The inode that \<^verbatim>\<open>sys_open\<close> finds or creates, locked and inside the transaction.\<close>

definition open_inode :: "devsw \<Rightarrow> fsys \<Rightarrow> nat \<Rightarrow> byte list \<Rightarrow> u32 \<Rightarrow> (nat option \<times> fsys) outcome" where
  "open_inode dv fs cwd path omode =
     andThen (f_begin_op fs) (\<lambda>fs.
       if omode AND O_CREATE \<noteq> 0
       then andThen (create dv fs cwd path T_FILE 0 0) (\<lambda>(r, fs).
              case r of None \<Rightarrow> f_end None fs | Some ip \<Rightarrow> Ok (Some ip, fs))
       else andThen (namei dv fs cwd path) (\<lambda>(r, fs).
              case r of None \<Rightarrow> f_end None fs
              | Some ip \<Rightarrow>
                  andThen (ilock fs ip) (\<lambda>fs.
                    if i_type (icache fs ! ip) = T_DIR \<and> omode \<noteq> O_RDONLY then andThen (iunlockput fs ip) (f_end None)
                    else Ok (Some ip, fs))))"

definition open_fail :: "ksys \<Rightarrow> nat \<Rightarrow> (int \<times> ksys) outcome" where
  "open_fail k ip = on_fs k (\<lambda>fs. andThen (iunlockput fs ip) (f_end (-1)))"

text \<open>The fields that \<^verbatim>\<open>sys_open\<close> sets in the new file, and its part from \<^verbatim>\<open>filealloc\<close> on.\<close>

definition opened :: "nat \<Rightarrow> u32 \<Rightarrow> open_file \<Rightarrow> open_file" where
  "opened ip omode x = x\<lparr>f_type := FD_INODE, f_ip := ip, f_off := 0, f_readable := (omode AND O_WRONLY = 0),
     f_writable := (omode AND O_WRONLY \<noteq> 0 \<or> omode AND O_RDWR \<noteq> 0)\<rparr>"

definition open_fd :: "ksys \<Rightarrow> nat \<Rightarrow> u32 \<Rightarrow> (int \<times> ksys) outcome" where
  "open_fd k ip omode =
     (case filealloc k of
        (None, k) \<Rightarrow> open_fail k ip
      | (Some f, k) \<Rightarrow>
          (case fdalloc k f of
             (None, k) \<Rightarrow> andThen (fileclose k f) (\<lambda>k. open_fail k ip)
           | (Some fd, k) \<Rightarrow>
               andThen (on_fs k (\<lambda>fs. andThen (iunlock fs ip) (f_end ()))) (\<lambda>(_, k).
                 Ok (int fd, set_file k f (opened ip omode)))))"

definition sys_open :: "devsw \<Rightarrow> ksys \<Rightarrow> (int \<times> ksys) outcome" where
  "sys_open dv k =
     (case (argstr k 0, argint k 1) of
        (Some path, Some omode) \<Rightarrow>
          andThen (on_fs k (\<lambda>fs. open_inode dv fs (u_cwd k) path omode)) (\<lambda>(r, k).
            case r of None \<Rightarrow> Ok (-1, k) | Some ip \<Rightarrow> open_fd k ip omode)
      | _ \<Rightarrow> Ok (-1, k))"

definition sys_mkdir :: "devsw \<Rightarrow> ksys \<Rightarrow> (int \<times> ksys) outcome" where
  "sys_mkdir dv k = on_fs k (\<lambda>fs.
     andThen (f_begin_op fs) (\<lambda>fs.
       case argstr k 0 of
         None \<Rightarrow> f_end (-1) fs
       | Some path \<Rightarrow>
           andThen (create dv fs (u_cwd k) path T_DIR 0 0) (\<lambda>(r, fs).
             case r of None \<Rightarrow> f_end (-1) fs
             | Some ip \<Rightarrow> andThen (iunlockput fs ip) (f_end 0))))"

definition sys_mknod :: "devsw \<Rightarrow> ksys \<Rightarrow> (int \<times> ksys) outcome" where
  "sys_mknod dv k = on_fs k (\<lambda>fs.
     andThen (f_begin_op fs) (\<lambda>fs.
       case (argstr k 0, argint k 1, argint k 2) of
         (Some path, Some major, Some minor) \<Rightarrow>
           andThen (create dv fs (u_cwd k) path T_DEV (ucast major) (ucast minor)) (\<lambda>(r, fs).
             case r of None \<Rightarrow> f_end (-1) fs
             | Some ip \<Rightarrow> andThen (iunlockput fs ip) (f_end 0))
       | _ \<Rightarrow> f_end (-1) fs))"

definition sys_chdir :: "devsw \<Rightarrow> ksys \<Rightarrow> (int \<times> ksys) outcome" where
  "sys_chdir dv k =
     andThen (on_fs k (\<lambda>fs.
       andThen (f_begin_op fs) (\<lambda>fs.
       andThen (case argstr k 0 of None \<Rightarrow> Ok (None, fs) | Some path \<Rightarrow> namei dv fs (u_cwd k) path) (\<lambda>(r, fs).
         case r of None \<Rightarrow> f_end None fs
         | Some ip \<Rightarrow>
             andThen (ilock fs ip) (\<lambda>fs.
               if i_type (icache fs ! ip) \<noteq> T_DIR then andThen (iunlockput fs ip) (f_end None)
               else andThen (iunlock fs ip) (\<lambda>fs.
                    andThen (iput fs (u_cwd k)) (f_end (Some ip)))))))) (\<lambda>(r, k).
       case r of None \<Rightarrow> Ok (-1, k) | Some ip \<Rightarrow> Ok (0, k\<lparr>u_cwd := ip\<rparr>))"

text \<open>
  The path and the arguments with which \<^verbatim>\<open>sys_exec\<close> calls \<^verbatim>\<open>exec\<close>, or nothing when it returns -1 before.
\<close>

function exec_argv :: "ksys \<Rightarrow> u32 \<Rightarrow> nat \<Rightarrow> byte list list option" where
  "exec_argv k uargv i =
     (if MAXARG \<le> i then None
      else case fetchint k (uargv + 4 * of_nat i) of
             None \<Rightarrow> None
           | Some uarg \<Rightarrow>
               if uarg = 0 then Some []
               else case fetchstr k uarg of
                      None \<Rightarrow> None
                    | Some s \<Rightarrow> map_option (Cons s) (exec_argv k uargv (Suc i)))"
  by pat_completeness auto
termination
  by (relation "measure (\<lambda>(_, _, i). MAXARG - i)") auto

declare exec_argv.simps [simp del]

definition sys_exec_args :: "ksys \<Rightarrow> (byte list \<times> byte list list) option" where
  "sys_exec_args k =
     (case (argstr k 0, argint k 1) of
        (Some path, Some uargv) \<Rightarrow> map_option (Pair path) (exec_argv k uargv 0)
      | _ \<Rightarrow> None)"

definition sys_pipe :: "ksys \<Rightarrow> (int \<times> ksys) outcome" where
  "sys_pipe k =
     (case argptr k 0 8 of
        None \<Rightarrow> Ok (-1, k)
      | Some a \<Rightarrow>
          andThen (pipealloc k) (\<lambda>(r, k).
            case r of None \<Rightarrow> Ok (-1, k)
            | Some (f0, f1) \<Rightarrow>
                (let close = (\<lambda>k. andThen (fileclose k f0) (\<lambda>k. andThen (fileclose k f1) (\<lambda>k. Ok (-1, k))))
                 in case fdalloc k f0 of
                      (None, k) \<Rightarrow> close k
                    | (Some fd0, k) \<Rightarrow>
                        (case fdalloc k f1 of
                           (None, k) \<Rightarrow> close (k\<lparr>u_ofile := (u_ofile k)[fd0 := None]\<rparr>)
                         | (Some fd1, k) \<Rightarrow>
                             Ok (0, put_user (put_user k a (le32 (of_nat fd0))) (a + 4) (le32 (of_nat fd1)))))))"

end
