(* ===== verification/Xv6_Proc.thy ===== *)
theory Xv6_Proc
  imports Xv6_Sysfile Xv6_Vm
begin

text \<open>
  Processes of xv6 (\<^verbatim>\<open>src/xv6/base/proc.c\<close>). A process is a slot of the process table. The state \<open>machine\<close> is the
  table and the kernel state of theory \<open>Xv6_File\<close>, of which only the shared parts are used here: the file
  system, the open files, the pipes and the memory of the page allocator. The calling process is
  an argument. A call runs under the lock of the table from its beginning, or from where it was
  woken, to its return or to the point where it gives the processor up. The addresses of \<^verbatim>\<open>data\<close>, \<^verbatim>\<open>trapret\<close> and \<^verbatim>\<open>forkret\<close> come from the linker.
\<close>

section \<open>State\<close>

definition NPROC :: nat where "NPROC = 64"
definition KSTACKSIZE :: u32 where "KSTACKSIZE = 4096"

datatype procstate = UNUSED | EMBRYO | SLEEPING | RUNNABLE | RUNNING | ZOMBIE

text \<open>What a process sleeps on: nothing (the null pointer), a process, or another address.\<close>

datatype wchan = NoChan | ProcChan nat | Addr u32

record proc =
  p_sz :: u32
  p_pgdir :: u32
  p_kstack :: u32
  p_state :: procstate
  p_pid :: int
  p_parent :: "nat option"
  p_tf :: u32
  p_context :: u32
  p_chan :: wchan
  p_killed :: bool
  p_ofile :: "nat option list"
  p_cwd :: "nat option"
  p_name :: "byte list"

record machine =
  m_sys :: ksys
  procs :: "proc list"
  nextpid :: int
  initproc :: "nat option"

record ksyms =
  s_data :: u32
  s_trapret :: u32
  s_forkret :: u32

definition set_proc :: "machine \<Rightarrow> nat \<Rightarrow> (proc \<Rightarrow> proc) \<Rightarrow> machine" where
  "set_proc m p f = m\<lparr>procs := (procs m)[p := f (procs m ! p)]\<rparr>"

definition set_kmem :: "machine \<Rightarrow> kmem \<Rightarrow> machine" where
  "set_kmem m km = m\<lparr>m_sys := (m_sys m)\<lparr>k_kmem := km\<rparr>\<rparr>"

definition m_kmem :: "machine \<Rightarrow> kmem" where
  "m_kmem m = k_kmem (m_sys m)"

definition m_end :: "machine \<Rightarrow> u32" where
  "m_end m = k_end (m_sys m)"

section \<open>Creating processes\<close>

text \<open>
  \<^verbatim>\<open>allocproc\<close> lays out the kernel stack from the top: the trap frame of 76 bytes, the return address
  \<^verbatim>\<open>trapret\<close>, and the context of 20 bytes with \<^verbatim>\<open>eip\<close> as its last word.
\<close>

definition init_kstack :: "ksyms \<Rightarrow> memory \<Rightarrow> u32 \<Rightarrow> memory" where
  "init_kstack sy mm ks =
     (let sp = ks + KSTACKSIZE - 76; mm = store32 mm (sp - 4) (s_trapret sy); ctx = sp - 4 - 20
      in store32 (fill mm ctx 0 20) (ctx + 16) (s_forkret sy))"

text \<open>The increment of a 32-bit \<^verbatim>\<open>int\<close>.\<close>

definition next_int :: "int \<Rightarrow> int" where
  "next_int n = (if n = 2147483647 then - 2147483648 else n + 1)"

definition allocproc :: "ksyms \<Rightarrow> machine \<Rightarrow> nat option \<times> machine" where
  "allocproc sy m =
     (case find (\<lambda>p. p_state (procs m ! p) = UNUSED) [0..<NPROC] of
        None \<Rightarrow> (None, m)
      | Some p \<Rightarrow>
          let m = set_proc m p (\<lambda>x. x\<lparr>p_state := EMBRYO, p_pid := nextpid m\<rparr>);
              m = m\<lparr>nextpid := next_int (nextpid m)\<rparr>;
              (ks, km) = kalloc (m_kmem m);
              m = set_proc (set_kmem m km) p (\<lambda>x. x\<lparr>p_kstack := ks\<rparr>)
          in if ks = 0 then (None, set_proc m p (\<lambda>x. x\<lparr>p_state := UNUSED\<rparr>))
             else (Some p, set_proc (set_kmem m (km\<lparr>mem := init_kstack sy (mem km) ks\<rparr>)) p
                    (\<lambda>x. x\<lparr>p_tf := ks + KSTACKSIZE - 76, p_context := ks + KSTACKSIZE - 100\<rparr>)))"

text \<open>The checks of \<^verbatim>\<open>switchuvm\<close>; it then loads registers, which are not modelled.\<close>

definition switchuvm :: "machine \<Rightarrow> nat \<Rightarrow> machine outcome" where
  "switchuvm m p =
     (if p_kstack (procs m ! p) = 0 then Panic ''switchuvm: no kstack''
      else if p_pgdir (procs m ! p) = 0 then Panic ''switchuvm: no pgdir''
      else Ok m)"

definition user_frame :: "memory \<Rightarrow> u32 \<Rightarrow> memory" where
  "user_frame mm tf =
     (let mm = fill mm tf 0 76;
          mm = store32 mm (tf + 60) 0x1B;
          mm = store32 mm (tf + 44) 0x23;
          mm = store32 mm (tf + 40) 0x23;
          mm = store32 mm (tf + 72) 0x23;
          mm = store32 mm (tf + 64) 0x200;
          mm = store32 mm (tf + 68) PGSIZE
      in store32 mm (tf + 56) 0)"

definition userinit :: "ksyms \<Rightarrow> devsw \<Rightarrow> byte list \<Rightarrow> machine \<Rightarrow> machine outcome" where
  "userinit sy dv initcode m =
     (case allocproc sy m of
        (None, m) \<Rightarrow> Fault ''null pointer''
      | (Some p, m) \<Rightarrow>
          let m = m\<lparr>initproc := Some p\<rparr>
          in andThen (setupkvm (m_end m) (s_data sy) (m_kmem m)) (\<lambda>(d, km).
               if d = 0 then Panic ''userinit: out of memory?''
               else andThen (inituvm km d initcode) (\<lambda>km.
                 let m = set_kmem m (km\<lparr>mem := user_frame (mem km) (p_tf (procs m ! p))\<rparr>)
                 in andThen (namei dv (k_fs (m_sys m)) 0 [slash]) (\<lambda>(ip, fs).
                      Ok (set_proc (m\<lparr>m_sys := (m_sys m)\<lparr>k_fs := fs\<rparr>\<rparr>) p (\<lambda>x. x\<lparr>p_pgdir := d, p_sz := PGSIZE,
                        p_name := [105, 110, 105, 116, 99, 111, 100, 101], p_cwd := ip, p_state := RUNNABLE\<rparr>))))))"

definition growproc :: "machine \<Rightarrow> nat \<Rightarrow> int \<Rightarrow> (int \<times> machine) outcome" where
  "growproc m cur n =
     (let x = procs m ! cur; sz = p_sz x
      in andThen (if 0 < n then allocuvm (m_end m) (m_kmem m) (p_pgdir x) sz (sz + of_int n)
                  else if n < 0 then deallocuvm (m_end m) (m_kmem m) (p_pgdir x) sz (sz + of_int n)
                  else Ok (sz, m_kmem m)) (\<lambda>(sz, km).
         let m = set_kmem m km
         in if n \<noteq> 0 \<and> sz = 0 then Ok (-1, m)
            else andThen (switchuvm (set_proc m cur (\<lambda>x. x\<lparr>p_sz := sz\<rparr>)) cur) (\<lambda>m. Ok (0, m))))"

text \<open>The descriptors that the child gets.\<close>

definition fork_file :: "nat \<Rightarrow> nat \<Rightarrow> nat \<Rightarrow> machine \<Rightarrow> machine outcome" where
  "fork_file cur np i m =
     (case p_ofile (procs m ! cur) ! i of
        None \<Rightarrow> Ok m
      | Some f \<Rightarrow> andThen (filedup (m_sys m) f) (\<lambda>k.
                    Ok (set_proc (m\<lparr>m_sys := k\<rparr>) np (\<lambda>x. x\<lparr>p_ofile := (p_ofile x)[i := Some f]\<rparr>))))"

text \<open>\<^verbatim>\<open>fork\<close> when the pages could not be copied, and when they could.\<close>

definition fork_fail :: "machine \<Rightarrow> nat \<Rightarrow> (int \<times> machine) outcome" where
  "fork_fail m np =
     andThen (kfree (m_end m) (m_kmem m) (p_kstack (procs m ! np))) (\<lambda>km.
       Ok (-1, set_proc (set_kmem m km) np (\<lambda>y. y\<lparr>p_kstack := 0, p_state := UNUSED\<rparr>)))"

definition fork_frame :: "machine \<Rightarrow> nat \<Rightarrow> nat \<Rightarrow> kmem" where
  "fork_frame m cur np =
     (let tf = p_tf (procs m ! np); km = m_kmem m
      in km\<lparr>mem := store32 (copy_mem (mem km) tf (p_tf (procs m ! cur)) 76) (tf + 28) 0\<rparr>)"

definition fork_child :: "machine \<Rightarrow> nat \<Rightarrow> nat \<Rightarrow> (int \<times> machine) outcome" where
  "fork_child m cur np =
     (let x = procs m ! cur;
          m = set_kmem (set_proc m np (\<lambda>y. y\<lparr>p_sz := p_sz x, p_parent := Some cur\<rparr>)) (fork_frame m cur np)
      in andThen (each (fork_file cur np) [0..<NOFILE] m) (\<lambda>m.
           case p_cwd x of
             None \<Rightarrow> Fault ''null pointer''
           | Some c \<Rightarrow>
               let (ip, fs) = idup (k_fs (m_sys m)) c;
                   m = set_proc (m\<lparr>m_sys := (m_sys m)\<lparr>k_fs := fs\<rparr>\<rparr>) np
                         (\<lambda>y. y\<lparr>p_cwd := Some ip, p_name := take 15 (p_name x), p_state := RUNNABLE\<rparr>)
               in Ok (p_pid (procs m ! np), m)))"

definition fork :: "ksyms \<Rightarrow> machine \<Rightarrow> nat \<Rightarrow> (int \<times> machine) outcome" where
  "fork sy m cur =
     (case allocproc sy m of
        (None, m) \<Rightarrow> Ok (-1, m)
      | (Some np, m) \<Rightarrow>
          andThen (copyuvm (m_end m) (s_data sy) (m_kmem m) (p_pgdir (procs m ! cur)) (p_sz (procs m ! cur))) (\<lambda>(d, km).
            let m = set_proc (set_kmem m km) np (\<lambda>y. y\<lparr>p_pgdir := d\<rparr>)
            in if d = 0 then fork_fail m np else fork_child m cur np))"

section \<open>Sleeping and waking\<close>

definition wakeup1 :: "wchan \<Rightarrow> machine \<Rightarrow> machine" where
  "wakeup1 ch m = m\<lparr>procs := map (\<lambda>x. if p_state x = SLEEPING \<and> p_chan x = ch then x\<lparr>p_state := RUNNABLE\<rparr> else x) (procs m)\<rparr>"

definition wakeup :: "wchan \<Rightarrow> machine \<Rightarrow> machine" where
  "wakeup ch m = wakeup1 ch m"

text \<open>\<^verbatim>\<open>sleep\<close> up to the call of the scheduler, and what it does when it returns from there.\<close>

definition sleep :: "wchan \<Rightarrow> machine \<Rightarrow> nat \<Rightarrow> machine" where
  "sleep ch m cur = set_proc m cur (\<lambda>x. x\<lparr>p_chan := ch, p_state := SLEEPING\<rparr>)"

definition sleep_return :: "machine \<Rightarrow> nat \<Rightarrow> machine" where
  "sleep_return m cur = set_proc m cur (\<lambda>x. x\<lparr>p_chan := NoChan\<rparr>)"

definition yield :: "machine \<Rightarrow> nat \<Rightarrow> machine" where
  "yield m cur = set_proc m cur (\<lambda>x. x\<lparr>p_state := RUNNABLE\<rparr>)"

text \<open>One round of the scheduler from slot \<open>i\<close> on: the process that it runs next.\<close>

definition scheduler_next :: "machine \<Rightarrow> nat \<Rightarrow> (nat \<times> machine) option outcome" where
  "scheduler_next m i =
     (case find (\<lambda>p. p_state (procs m ! p) = RUNNABLE) [i..<NPROC] of
        None \<Rightarrow> Ok None
      | Some p \<Rightarrow> andThen (switchuvm m p) (\<lambda>m. Ok (Some (p, set_proc m p (\<lambda>x. x\<lparr>p_state := RUNNING\<rparr>)))))"

definition kill :: "machine \<Rightarrow> int \<Rightarrow> int \<times> machine" where
  "kill m pid =
     (case find (\<lambda>p. p_pid (procs m ! p) = pid) [0..<NPROC] of
        None \<Rightarrow> (-1, m)
      | Some p \<Rightarrow> (0, set_proc m p (\<lambda>x. x\<lparr>p_killed := True, p_state := (if p_state x = SLEEPING then RUNNABLE else p_state x)\<rparr>)))"

section \<open>Exit and wait\<close>

definition exit_file :: "nat \<Rightarrow> nat \<Rightarrow> machine \<Rightarrow> machine outcome" where
  "exit_file cur fd m =
     (case p_ofile (procs m ! cur) ! fd of
        None \<Rightarrow> Ok m
      | Some f \<Rightarrow> andThen (fileclose (m_sys m) f) (\<lambda>k.
                    Ok (set_proc (m\<lparr>m_sys := k\<rparr>) cur (\<lambda>x. x\<lparr>p_ofile := (p_ofile x)[fd := None]\<rparr>))))"

definition chan_of :: "nat option \<Rightarrow> wchan" where
  "chan_of q = (case q of None \<Rightarrow> NoChan | Some p \<Rightarrow> ProcChan p)"

definition abandon :: "nat \<Rightarrow> nat \<Rightarrow> machine \<Rightarrow> machine" where
  "abandon cur p m =
     (if p_parent (procs m ! p) = Some cur
      then let m = set_proc m p (\<lambda>x. x\<lparr>p_parent := initproc m\<rparr>)
           in if p_state (procs m ! p) = ZOMBIE then wakeup1 (chan_of (initproc m)) m else m
      else m)"

text \<open>The part of \<^verbatim>\<open>exit\<close> under the lock of the table.\<close>

definition exit_table :: "machine \<Rightarrow> nat \<Rightarrow> machine" where
  "exit_table m cur =
     (let m = wakeup1 (chan_of (p_parent (procs m ! cur))) m;
          m = fold (abandon cur) [0..<NPROC] m
      in set_proc m cur (\<lambda>x. x\<lparr>p_state := ZOMBIE\<rparr>))"

definition exit :: "machine \<Rightarrow> nat \<Rightarrow> machine outcome" where
  "exit m cur =
     (if initproc m = Some cur then Panic ''init exiting''
      else andThen (each (exit_file cur) [0..<NOFILE] m) (\<lambda>m.
           case p_cwd (procs m ! cur) of
             None \<Rightarrow> Fault ''null pointer''
           | Some c \<Rightarrow>
               andThen (f_begin_op (k_fs (m_sys m))) (\<lambda>fs.
               andThen (iput fs c) (\<lambda>fs.
               andThen (f_end_op fs) (\<lambda>fs.
                 Ok (exit_table (set_proc (m\<lparr>m_sys := (m_sys m)\<lparr>k_fs := fs\<rparr>\<rparr>) cur (\<lambda>x. x\<lparr>p_cwd := None\<rparr>)) cur))))))"

text \<open>The scan of \<^verbatim>\<open>wait\<close>, up to its result or to the call of \<^verbatim>\<open>sleep\<close>, for which it is None.\<close>

definition wait :: "machine \<Rightarrow> nat \<Rightarrow> (int option \<times> machine) outcome" where
  "wait m cur =
     (case find (\<lambda>p. p_parent (procs m ! p) = Some cur \<and> p_state (procs m ! p) = ZOMBIE) [0..<NPROC] of
        Some p \<Rightarrow>
          let x = procs m ! p
          in andThen (kfree (m_end m) (m_kmem m) (p_kstack x)) (\<lambda>km.
             andThen (freevm (m_end m) km (p_pgdir x)) (\<lambda>km.
               Ok (Some (p_pid x), set_proc (set_kmem m km) p (\<lambda>x. x\<lparr>p_kstack := 0, p_pid := 0, p_parent := None, p_name := [],
                 p_killed := False, p_state := UNUSED\<rparr>))))
      | None \<Rightarrow>
          if (\<forall>p\<in>set [0..<NPROC]. p_parent (procs m ! p) \<noteq> Some cur) \<or> p_killed (procs m ! cur) then Ok (Some (-1), m)
          else Ok (None, sleep (ProcChan cur) m cur))"

end
