(* ===== verification/Xv6_Descriptors.thy ===== *)
theory Xv6_Descriptors
  imports Xv6_Sysfile Xv6_Blocks
begin

text \<open>
  What the system calls of theory \<open>Xv6_Sysfile\<close> do to the descriptors and the memory of the process and to
  the table of open files: the reference count of an open file is the number of references to it
  after every sequence of calls, a call writes to the memory of the process only where the process
  asked for it, and the results of \<^verbatim>\<open>open\<close> and \<^verbatim>\<open>write\<close> are as documented.
\<close>

section \<open>Reference counts of open files\<close>

text \<open>
  The table of open files and the descriptors of the process agree: the count of a file is the
  number of descriptors that refer to it, plus \<open>oth f\<close> for the references that other processes and
  the running call hold. A file is of type \<^verbatim>\<open>FD_NONE\<close> exactly when it is free, or in the set \<open>N\<close> of
  the files that the call has just allocated.
\<close>

definition tab_ok :: "(nat \<Rightarrow> int) \<Rightarrow> nat set \<Rightarrow> open_file list \<Rightarrow> nat option list \<Rightarrow> bool" where
  "tab_ok oth N ft ofl \<longleftrightarrow>
     length ft = NFILE \<and> length ofl = NOFILE \<and> (\<forall>f. Some f \<in> set ofl \<longrightarrow> f < NFILE) \<and>
     (\<forall>f<NFILE. 0 \<le> oth f \<and> f_ref (ft ! f) = oth f + int (count_list ofl (Some f)) \<and>
        (f_type (ft ! f) = FD_NONE \<longleftrightarrow> f_ref (ft ! f) = 0 \<or> f \<in> N) \<and> (f \<in> N \<longrightarrow> f_ref (ft ! f) = 1))"

definition files_ok :: "(nat \<Rightarrow> int) \<Rightarrow> ksys \<Rightarrow> bool" where
  "files_ok oth k \<longleftrightarrow> tab_ok oth {} (ftable k) (u_ofile k)"

lemma count_list_update:
  "i < length xs \<Longrightarrow> int (count_list (xs[i := y]) z) =
     int (count_list xs z) - (if xs ! i = z then 1 else 0) + (if y = z then 1 else 0)"
proof (induction xs arbitrary: i)
  case (Cons a xs)
  show ?case
  proof (cases i)
    case (Suc j)
    then show ?thesis using Cons.IH [of j] Cons.prems by (cases "xs ! j = z"; cases "y = z"; cases "a = z") simp_all
  qed simp
qed simp

lemma set_file_sel [simp]:
  "ftable (set_file k f h) = (ftable k)[f := h (ftable k ! f)]" "u_ofile (set_file k f h) = u_ofile k"
  "u_mem (set_file k f h) = u_mem k" "u_sz (set_file k f h) = u_sz k" "u_esp (set_file k f h) = u_esp k"
  by (simp_all add: set_file_def)

lemma set_pipe_sel [simp]:
  "ftable (set_pipe k a p) = ftable k" "u_ofile (set_pipe k a p) = u_ofile k"
  "u_mem (set_pipe k a p) = u_mem k" "u_sz (set_pipe k a p) = u_sz k" "u_esp (set_pipe k a p) = u_esp k"
  by (simp_all add: set_pipe_def)

lemma put_user_sel [simp]:
  "ftable (put_user k a bs) = ftable k" "u_ofile (put_user k a bs) = u_ofile k"
  "u_mem (put_user k a bs) = put_at (u_mem k) (unat a) bs" "u_sz (put_user k a bs) = u_sz k"
  by (simp_all add: put_user_def)

lemma on_fs_OkD:
  assumes "on_fs k h = Ok (r, k')"
  obtains fs where "h (k_fs k) = Ok (r, fs)" "k' = k\<lparr>k_fs := fs\<rparr>"
  using assms by (auto simp: on_fs_def andThen_eq_Ok)

lemma on_fs_thenD:
  assumes "andThen (on_fs k h) g = Ok y"
  obtains r fs where "h (k_fs k) = Ok (r, fs)" "g (r, k\<lparr>k_fs := fs\<rparr>) = Ok y"
  using assms by (auto simp: on_fs_def andThen_eq_Ok)

lemma tab_okD:
  assumes "tab_ok oth N ft ofl" "f < NFILE"
  shows "0 \<le> oth f" "f_ref (ft ! f) = oth f + int (count_list ofl (Some f))"
    "f_type (ft ! f) = FD_NONE \<longleftrightarrow> f_ref (ft ! f) = 0 \<or> f \<in> N" "f \<in> N \<Longrightarrow> f_ref (ft ! f) = 1"
  using assms by (auto simp: tab_ok_def)

lemma tab_ok_length: "tab_ok oth N ft ofl \<Longrightarrow> length ft = NFILE \<and> length ofl = NOFILE"
  by (simp add: tab_ok_def)

text \<open>A change of one file and of the references to it.\<close>

lemma tab_ok_file:
  assumes "tab_ok oth N ft ofl" "f < NFILE"
    and "0 \<le> n" "f_ref x = n + int (count_list ofl (Some f))"
    and "f_type x = FD_NONE \<longleftrightarrow> f_ref x = 0 \<or> f \<in> M" "f \<in> M \<Longrightarrow> f_ref x = 1" "M - {f} = N - {f}"
  shows "tab_ok (oth(f := n)) M (ft[f := x]) ofl"
proof -
  have "g \<in> M \<longleftrightarrow> g \<in> N" if "g \<noteq> f" for g using assms(7) that by blast
  then show ?thesis using assms by (auto simp: tab_ok_def nth_list_update)
qed

text \<open>A reference moves between the call and a descriptor.\<close>

lemma tab_ok_take_fd:
  assumes "tab_ok oth N ft ofl" "f < NFILE" "0 < oth f" "fd < NOFILE" "ofl ! fd = None"
  shows "tab_ok (oth(f := oth f - 1)) N ft (ofl[fd := Some f])"
  using assms set_update_subset_insert [of ofl fd "Some f"]
  by (auto simp: tab_ok_def count_list_update)

lemma tab_ok_drop_fd:
  assumes "tab_ok oth N ft ofl" "fd < NOFILE" "ofl ! fd = Some f"
  shows "tab_ok (oth(f := oth f + 1)) N ft (ofl[fd := None])"
  using assms set_update_subset_insert [of ofl fd None]
  by (auto simp: tab_ok_def count_list_update)

lemma tab_ok_fd: "tab_ok oth N ft ofl \<Longrightarrow> fd < NOFILE \<Longrightarrow> ofl ! fd = Some f \<Longrightarrow> f < NFILE"
  unfolding tab_ok_def by (metis nth_mem)

lemma tab_ok_open:
  assumes "tab_ok oth N ft ofl" "fd < NOFILE" "ofl ! fd = Some f"
  shows "1 \<le> f_ref (ft ! f)"
proof -
  have "Some f \<in> set ofl" using assms by (metis nth_mem tab_ok_length)
  then have "0 < count_list ofl (Some f)" by (metis count_list_0_iff gr0I)
  then show ?thesis using tab_okD(1,2) [OF assms(1) tab_ok_fd [OF assms]] by linarith
qed

lemma argfd_SomeD:
  assumes "argfd k n = Some (fd, f)"
  shows "fd < NOFILE" "u_ofile k ! fd = Some f"
proof -
  obtain w where a: "argint k n = Some w" using assms by (auto simp: argfd_def split: option.splits)
  have w: "\<not> sint w < 0" "\<not> int NOFILE \<le> sint w" "fd = unat w" "u_ofile k ! unat w = Some f"
    using assms by (auto simp: argfd_def a split: if_splits)
  have "int (unat w) = sint w" using w(1) by (intro unat_of_sint) simp
  then show "fd < NOFILE" using w(2,3) by linarith
  show "u_ofile k ! fd = Some f" using w(3,4) by simp
qed

lemma fdalloc_SomeD:
  assumes "fdalloc k f = (Some fd, k')"
  shows "fd < NOFILE" "u_ofile k ! fd = None" "k' = k\<lparr>u_ofile := (u_ofile k)[fd := Some f]\<rparr>"
    "\<forall>e<fd. u_ofile k ! e \<noteq> None"
  using assms by (auto simp: fdalloc_def find_Some_iff split: option.splits)

lemma fdalloc_NoneD: "fdalloc k f = (None, k') \<Longrightarrow> k' = k"
  by (auto simp: fdalloc_def split: option.splits)

lemma filealloc_SomeD:
  assumes "filealloc k = (Some f, k')"
  shows "f < NFILE" "f_ref (ftable k ! f) = 0" "k' = set_file k f (\<lambda>x. x\<lparr>f_ref := 1\<rparr>)"
  using assms by (auto simp: filealloc_def find_Some_iff split: option.splits)

lemma filealloc_NoneD: "filealloc k = (None, k') \<Longrightarrow> k' = k"
  by (auto simp: filealloc_def split: option.splits)

lemma filealloc_ok:
  assumes "filealloc k = (Some f, k')" "tab_ok oth N (ftable k) (u_ofile k)"
  shows "f < NFILE" "f \<notin> N" "oth f = 0" "tab_ok (oth(f := 1)) (insert f N) (ftable k') (u_ofile k')"
proof -
  note f = filealloc_SomeD [OF assms(1)]
  note t = tab_okD [OF assms(2) f(1)]
  have c: "oth f = 0" "int (count_list (u_ofile k) (Some f)) = 0" using t f(2) by linarith+
  show "f < NFILE" "oth f = 0" by fact+
  show "f \<notin> N" using t(4) f(2) by auto
  show "tab_ok (oth(f := 1)) (insert f N) (ftable k') (u_ofile k')"
    unfolding f(3) set_file_sel by (rule tab_ok_file [OF assms(2) f(1)]) (use t f c in auto)
qed

lemma k_pipeclose_sel:
  assumes "k_pipeclose k a w = Ok k'"
  shows "ftable k' = ftable k" "u_ofile k' = u_ofile k" "u_mem k' = u_mem k" "u_sz k' = u_sz k"
  using assms by (auto simp: k_pipeclose_def Let_def andThen_eq_Ok split: prod.splits if_splits)

text \<open>What \<^verbatim>\<open>fileclose\<close> leaves of the table: the count goes down, and a file closed for good becomes free.\<close>

definition closed :: "open_file \<Rightarrow> open_file" where
  "closed x = (if 1 < f_ref x then x\<lparr>f_ref := f_ref x - 1\<rparr> else x\<lparr>f_ref := 0, f_type := FD_NONE\<rparr>)"

lemma fileclose_sel:
  assumes "fileclose k f = Ok k'" "f < length (ftable k)"
  shows "1 \<le> f_ref (ftable k ! f)" "ftable k' = (ftable k)[f := closed (ftable k ! f)]"
    "u_ofile k' = u_ofile k" "u_mem k' = u_mem k" "u_sz k' = u_sz k"
proof -
  let ?k = "set_file (set_file k f (\<lambda>x. x\<lparr>f_ref := f_ref x - 1\<rparr>)) f (\<lambda>x. x\<lparr>f_ref := 0, f_type := FD_NONE\<rparr>)"
  show r: "1 \<le> f_ref (ftable k ! f)" using assms(1) by (simp add: fileclose_def split: if_splits)
  have "ftable k' = (ftable k)[f := closed (ftable k ! f)] \<and> u_ofile k' = u_ofile k \<and> u_mem k' = u_mem k \<and> u_sz k' = u_sz k"
  proof (cases "1 < f_ref (ftable k ! f)")
    case True
    then show ?thesis using assms by (auto simp: fileclose_def closed_def Let_def)
  next
    case False
    have k: "ftable ?k = (ftable k)[f := closed (ftable k ! f)]" using False assms(2) by (simp add: closed_def)
    have u: "fileclose k f = (case f_type (ftable k ! f) of
        FD_PIPE \<Rightarrow> k_pipeclose ?k (f_pipe (ftable k ! f)) (f_writable (ftable k ! f))
      | FD_INODE \<Rightarrow> andThen (on_fs ?k (\<lambda>fs. andThen (f_begin_op fs) (\<lambda>fs. andThen (iput fs (f_ip (ftable k ! f))) (\<lambda>fs.
          andThen (f_end_op fs) (\<lambda>fs. Ok ((), fs)))))) (\<lambda>(_, k). Ok k)
      | FD_NONE \<Rightarrow> Ok ?k)"
      using False r assms(2) by (cases "f_type (ftable k ! f)") (simp_all add: fileclose_def Let_def)
    show ?thesis
    proof (cases "f_type (ftable k ! f)")
      case FD_NONE
      then have "k' = ?k" using u assms(1) by simp
      then show ?thesis using k by simp
    next
      case FD_PIPE
      then have "k_pipeclose ?k (f_pipe (ftable k ! f)) (f_writable (ftable k ! f)) = Ok k'" using u assms(1) by simp
      then show ?thesis using k k_pipeclose_sel by simp
    next
      case FD_INODE
      have "\<exists>fs. k' = ?k\<lparr>k_fs := fs\<rparr>"
        using assms(1) unfolding u file_type.case FD_INODE by (elim on_fs_thenD) auto
      then show ?thesis using k by auto
    qed
  qed
  then show "ftable k' = (ftable k)[f := closed (ftable k ! f)]" "u_ofile k' = u_ofile k" "u_mem k' = u_mem k" "u_sz k' = u_sz k"
    by simp_all
qed

lemma fileclose_ok:
  assumes c: "fileclose k f = Ok k'" and t: "tab_ok oth N (ftable k) (u_ofile k)" and f: "f < NFILE" "0 < oth f"
  shows "tab_ok (oth(f := oth f - 1)) (N - {f}) (ftable k') (u_ofile k')"
proof -
  have l: "f < length (ftable k)" using t f(1) by (simp add: tab_ok_def)
  note s = fileclose_sel [OF c l] and d = tab_okD [OF t f(1)]
  show ?thesis unfolding s by (rule tab_ok_file [OF t f(1)]) (use s d f in \<open>auto simp: closed_def\<close>)
qed

section \<open>System calls keep the reference counts\<close>

lemma files_ok_cong: "ftable k' = ftable k \<Longrightarrow> u_ofile k' = u_ofile k \<Longrightarrow> files_ok oth k' = files_ok oth k"
  by (simp add: files_ok_def)

lemma files_ok_on_fs: "on_fs k h = Ok (r, k') \<Longrightarrow> files_ok oth k \<Longrightarrow> files_ok oth k'"
  by (elim on_fs_OkD) (simp add: files_ok_def)

lemma files_ok_off:
  assumes "files_ok oth k" "f < NFILE"
  shows "files_ok oth (set_file k f (\<lambda>x. x\<lparr>f_off := w x\<rparr>))"
proof -
  note t = assms(1) [unfolded files_ok_def]
  have "tab_ok (oth(f := oth f)) {} ((ftable k)[f := (ftable k ! f)\<lparr>f_off := w (ftable k ! f)\<rparr>]) (u_ofile k)"
    by (rule tab_ok_file [OF t assms(2)]) (use tab_okD [OF t assms(2)] in auto)
  then show ?thesis by (simp add: files_ok_def)
qed

lemma sys_dup_files:
  assumes "sys_dup k = Ok (r, k')" "files_ok oth k"
  shows "files_ok oth k'"
proof (cases "argfd k 0")
  case None
  then show ?thesis using assms by (simp add: sys_dup_def)
next
  case (Some p)
  obtain fd f where p: "argfd k 0 = Some (fd, f)" using Some by (cases p) auto
  note t = assms(2) [unfolded files_ok_def] and a = argfd_SomeD [OF p]
  have f: "f < NFILE" by (rule tab_ok_fd [OF t a])
  obtain e k1 where e: "fdalloc k f = (e, k1)" by (cases "fdalloc k f") auto
  show ?thesis
  proof (cases e)
    case None
    then show ?thesis using assms p e fdalloc_NoneD [of k f k1] by (simp add: sys_dup_def)
  next
    case (Some fd')
    note d = fdalloc_SomeD [OF e [unfolded Some]]
    have k': "k' = set_file k1 f (\<lambda>x. x\<lparr>f_ref := f_ref x + 1\<rparr>)"
      using assms(1) p e Some by (auto simp: sys_dup_def filedup_def split: if_splits)
    have "tab_ok (oth(f := oth f + 1)) {} ((ftable k)[f := (ftable k ! f)\<lparr>f_ref := f_ref (ftable k ! f) + 1\<rparr>]) (u_ofile k)"
      by (rule tab_ok_file [OF t f]) (use tab_okD [OF t f] tab_ok_open [OF t a] in auto)
    from tab_ok_take_fd [OF this f _ d(1,2)] tab_okD(1) [OF t f] show ?thesis
      unfolding k' d(3) files_ok_def by simp
  qed
qed

lemma sys_close_files:
  assumes "sys_close k = Ok (r, k')" "files_ok oth k"
  shows "files_ok oth k'"
proof (cases "argfd k 0")
  case None
  then show ?thesis using assms by (simp add: sys_close_def)
next
  case (Some p)
  obtain fd f where p: "argfd k 0 = Some (fd, f)" using Some by (cases p) auto
  note t = assms(2) [unfolded files_ok_def] and a = argfd_SomeD [OF p]
  have f: "f < NFILE" by (rule tab_ok_fd [OF t a])
  have c: "fileclose (k\<lparr>u_ofile := (u_ofile k)[fd := None]\<rparr>) f = Ok k'"
    using assms(1) p by (auto simp: sys_close_def andThen_eq_Ok)
  have "tab_ok (oth(f := oth f + 1)) {} (ftable k) ((u_ofile k)[fd := None])" by (rule tab_ok_drop_fd [OF t a])
  then show ?thesis using fileclose_ok [OF c, of "oth(f := oth f + 1)" "{}"] f tab_okD(1) [OF t f]
    by (simp add: files_ok_def)
qed

lemma advance_sel [simp]:
  "u_ofile (advance k f r) = u_ofile k" "u_mem (advance k f r) = u_mem k" "u_sz (advance k f r) = u_sz k"
  by (simp_all add: advance_def)

lemma fileread_inode:
  assumes "fileread dv k f addr n = Ok (r, k')" "f_readable (ftable k ! f)" "f_type (ftable k ! f) = FD_INODE"
  obtains fs bs fs' fs0 where
    "readi dv fs0 (f_ip (ftable k ! f)) (f_off (ftable k ! f)) (of_nat n) = Ok ((r, bs), fs)"
    "k' = (advance (put_user (k\<lparr>k_fs := fs\<rparr>) addr bs) f r)\<lparr>k_fs := fs'\<rparr>"
proof -
  let ?ip = "f_ip (ftable k ! f)"
  have "andThen (on_fs k (\<lambda>fs. andThen (ilock fs ?ip) (\<lambda>fs. readi dv fs ?ip (f_off (ftable k ! f)) (of_nat n))))
      (\<lambda>((r, bs), k). on_fs (advance (put_user k addr bs) f r) (\<lambda>fs. andThen (iunlock fs ?ip) (\<lambda>fs. Ok (r, fs)))) = Ok (r, k')"
    using assms by (simp add: fileread_def Let_def)
  then obtain rb fs where a: "andThen (ilock (k_fs k) ?ip) (\<lambda>fs. readi dv fs ?ip (f_off (ftable k ! f)) (of_nat n)) = Ok (rb, fs)"
    and b: "(\<lambda>((r, bs), k). on_fs (advance (put_user k addr bs) f r) (\<lambda>fs. andThen (iunlock fs ?ip) (\<lambda>fs. Ok (r, fs)))) (rb, k\<lparr>k_fs := fs\<rparr>) = Ok (r, k')"
    by (rule on_fs_thenD)
  obtain r' bs where rb: "rb = (r', bs)" by (cases rb)
  from a [unfolded rb] obtain fs0 where c: "readi dv fs0 ?ip (f_off (ftable k ! f)) (of_nat n) = Ok ((r', bs), fs)"
    by (rule andThen_OkE)
  from b [unfolded rb prod.case] obtain fs' where d: "k' = (advance (put_user (k\<lparr>k_fs := fs\<rparr>) addr bs) f r')\<lparr>k_fs := fs'\<rparr>"
    and e: "andThen (iunlock (k_fs (advance (put_user (k\<lparr>k_fs := fs\<rparr>) addr bs) f r')) ?ip) (\<lambda>fs. Ok (r', fs)) = Ok (r, fs')"
    by (rule on_fs_OkD)
  have r: "r' = r" using e by (auto elim: andThen_OkE)
  show thesis by (rule that [OF c [unfolded r] d [unfolded r]])
qed

lemma fileread_cases:
  assumes "fileread dv k f addr n = Ok (r, k')"
  obtains "k' = k"
  | p bs w where "piperead (k_pipes k (f_pipe (ftable k ! f))) (u_killed k) n = (p, bs, w, Returned r)"
      "k' = put_user (set_pipe k (f_pipe (ftable k ! f)) p) addr bs"
  | fs bs fs' fs0 where "readi dv fs0 (f_ip (ftable k ! f)) (f_off (ftable k ! f)) (of_nat n) = Ok ((r, bs), fs)"
      "k' = (advance (put_user (k\<lparr>k_fs := fs\<rparr>) addr bs) f r)\<lparr>k_fs := fs'\<rparr>"
proof (cases "f_readable (ftable k ! f)")
  case False
  then show thesis using assms that(1) by (simp add: fileread_def)
next
  case True
  show thesis
  proof (cases "f_type (ftable k ! f)")
    case FD_NONE
    then show thesis using True assms by (simp add: fileread_def)
  next
    case FD_PIPE
    obtain p bs w c where pr: "piperead (k_pipes k (f_pipe (ftable k ! f))) (u_killed k) n = (p, bs, w, c)"
      by (rule prod_cases4)
    show thesis
    proof (cases c)
      case (Returned r')
      then have e: "r = r'" "k' = put_user (set_pipe k (f_pipe (ftable k ! f)) p) addr bs"
        using FD_PIPE True assms pr by (simp_all add: fileread_def Let_def)
      show thesis by (rule that(2) [OF pr [unfolded Returned e(1) [symmetric]] e(2)])
    next
      case (Asleep x)
      then show thesis using FD_PIPE True assms pr by (simp add: fileread_def Let_def)
    qed
  next
    case FD_INODE
    show thesis by (rule fileread_inode [OF assms True FD_INODE]) (rule that(3))
  qed
qed

lemma files_ok_advance: "files_ok oth k \<Longrightarrow> f < NFILE \<Longrightarrow> files_ok oth (advance k f r)"
  unfolding advance_def using files_ok_off by simp

lemma files_ok_put_user [simp]: "files_ok oth (put_user k a bs) = files_ok oth k"
  by (simp add: files_ok_def)

lemma files_ok_set_pipe [simp]: "files_ok oth (set_pipe k a p) = files_ok oth k"
  by (simp add: files_ok_def)

lemma files_ok_k_fs [simp]: "files_ok oth (k\<lparr>k_fs := fs\<rparr>) = files_ok oth k"
  by (simp add: files_ok_def)

lemma fileread_files:
  assumes "fileread dv k f addr n = Ok (r, k')" "files_ok oth k" "f < NFILE"
  shows "files_ok oth k'"
  using assms(1) by (cases rule: fileread_cases) (use assms(2,3) in \<open>simp_all add: files_ok_advance\<close>)

lemma filewrite_loop_step:
  assumes "filewrite_loop dv k f addr n i = Ok (r, k')" "i < n"
  obtains r1 fs fs' k1 where "k1 = (advance (k\<lparr>k_fs := fs\<rparr>) f r1)\<lparr>k_fs := fs'\<rparr>" "r1 < 0" "r = -1" "k' = k1"
  | fs fs' k1 where "k1 = (advance (k\<lparr>k_fs := fs\<rparr>) f (int (min write_max (n - i))))\<lparr>k_fs := fs'\<rparr>"
      "filewrite_loop dv k1 f addr n (i + min write_max (n - i)) = Ok (r, k')"
proof -
  let ?n1 = "min write_max (n - i)" and ?ip = "f_ip (ftable k ! f)"
  let ?last = "\<lambda>r1 k. if r1 < 0 then Ok (-1, k) else if r1 \<noteq> int ?n1 then Panic ''short filewrite''
        else filewrite_loop dv k f addr n (i + ?n1)"
  have n1: "(if write_max < n - i then write_max else n - i) = ?n1" by (simp add: min_def)
  have "andThen (on_fs k (\<lambda>fs. andThen (f_begin_op fs) (\<lambda>fs. andThen (ilock fs ?ip) (\<lambda>fs.
           writei dv fs ?ip (get_at (u_mem k) (unat addr + i) ?n1) (f_off (ftable k ! f)) (of_nat ?n1))))) (\<lambda>(r1, k).
         andThen (on_fs (advance k f r1) (\<lambda>fs. andThen (iunlock fs ?ip) (\<lambda>fs.
           andThen (f_end_op fs) (\<lambda>fs. Ok ((), fs))))) (\<lambda>(_, k). ?last r1 k)) = Ok (r, k')"
    using assms unfolding filewrite_loop.simps [of dv k f addr n i] Let_def n1 by (simp only: if_True)
  then obtain r1 fs where "(\<lambda>(r1, k). andThen (on_fs (advance k f r1) (\<lambda>fs. andThen (iunlock fs ?ip) (\<lambda>fs.
           andThen (f_end_op fs) (\<lambda>fs. Ok ((), fs))))) (\<lambda>(_, k). ?last r1 k)) (r1, k\<lparr>k_fs := fs\<rparr>) = Ok (r, k')"
    by (rule on_fs_thenD)
  from this [unfolded prod.case] obtain fs' where
    "(\<lambda>(_ :: unit, k). ?last r1 k) ((), (advance (k\<lparr>k_fs := fs\<rparr>) f r1)\<lparr>k_fs := fs'\<rparr>) = Ok (r, k')" by (rule on_fs_thenD) simp
  then have l: "?last r1 ((advance (k\<lparr>k_fs := fs\<rparr>) f r1)\<lparr>k_fs := fs'\<rparr>) = Ok (r, k')" unfolding prod.case .
  consider "r1 < 0" | "\<not> r1 < 0" "r1 = int ?n1" | "\<not> r1 < 0" "r1 \<noteq> int ?n1" by blast
  then show thesis
  proof cases
    case 1
    then have "r = -1 \<and> k' = (advance (k\<lparr>k_fs := fs\<rparr>) f r1)\<lparr>k_fs := fs'\<rparr>" using l by simp
    then show thesis by (intro that(1) [OF refl 1]) simp_all
  next
    case 2
    show thesis by (rule that(2) [OF refl, of fs' fs]) (use l 2 in \<open>simp only: if_False not_True_eq_False simp_thms if_True\<close>)
  next
    case 3
    then show thesis using l by (simp only: if_False not_False_eq_True if_True outcome.simps)
  qed
qed

lemma filewrite_loop_files:
  assumes "filewrite_loop dv k f addr n i = Ok (r, k')" "files_ok oth k" "f < NFILE"
  shows "files_ok oth k'"
  using assms(1,2)
proof (induction "n - i" arbitrary: k i rule: less_induct)
  case less
  show ?case
  proof (cases "i < n")
    case False
    then show ?thesis using less.prems by (simp add: filewrite_loop.simps [of dv k f addr n i])
  next
    case True
    from less.prems(1) True show ?thesis
    proof (cases rule: filewrite_loop_step)
      case (1 r1 fs fs' k1)
      then show ?thesis using less.prems(2) assms(3) by (simp add: files_ok_advance)
    next
      case (2 fs fs' k1)
      then have "files_ok oth k1" using less.prems(2) assms(3) by (simp add: files_ok_advance)
      moreover have "n - (i + min write_max (n - i)) < n - i" using True by (simp add: write_max_eq)
      ultimately show ?thesis using less.hyps 2(2) by blast
    qed
  qed
qed

lemma filewrite_cases:
  assumes "filewrite dv k f addr n = Ok (r, k')"
  obtains "k' = k" | p where "k' = set_pipe k (f_pipe (ftable k ! f)) p"
  | "f_writable (ftable k ! f)" "f_type (ftable k ! f) = FD_INODE" "filewrite_loop dv k f addr n 0 = Ok (r, k')"
  using assms by (auto simp: filewrite_def Let_def split: if_splits file_type.splits prod.splits call.splits)

lemma filewrite_files:
  assumes "filewrite dv k f addr n = Ok (r, k')" "files_ok oth k" "f < NFILE"
  shows "files_ok oth k'"
  using assms(1) by (cases rule: filewrite_cases) (use assms(2,3) filewrite_loop_files in auto)

lemma sys_read_cases:
  assumes "sys_read dv k = Ok (r, k')"
  obtains "r = -1" "k' = k"
  | fd f n p where "argfd k 0 = Some (fd, f)" "argint k 2 = Some n" "argptr k 1 n = Some p" "fileread dv k f p (unat n) = Ok (r, k')"
  using assms by (auto simp: sys_read_def split: option.splits)

lemma sys_write_cases:
  assumes "sys_write dv k = Ok (r, k')"
  obtains "r = -1" "k' = k"
  | fd f n p where "argfd k 0 = Some (fd, f)" "argint k 2 = Some n" "argptr k 1 n = Some p" "filewrite dv k f p (unat n) = Ok (r, k')"
  using assms by (auto simp: sys_write_def split: option.splits)

lemma argfd_file: "argfd k n = Some (fd, f) \<Longrightarrow> files_ok oth k \<Longrightarrow> f < NFILE"
  unfolding files_ok_def using argfd_SomeD tab_ok_fd by blast

lemma sys_read_files: "sys_read dv k = Ok (r, k') \<Longrightarrow> files_ok oth k \<Longrightarrow> files_ok oth k'"
  by (erule sys_read_cases) (auto intro: fileread_files argfd_file)

lemma sys_write_files: "sys_write dv k = Ok (r, k') \<Longrightarrow> files_ok oth k \<Longrightarrow> files_ok oth k'"
  by (erule sys_write_cases) (auto intro: filewrite_files argfd_file)

lemma open_fd_cases:
  assumes "open_fd k ip omode = Ok (r, k')"
  obtains (no_file) fs where "r = -1" "k' = k\<lparr>k_fs := fs\<rparr>"
  | (no_fd) f k1 k2 fs where "r = -1" "filealloc k = (Some f, k1)" "fileclose k1 f = Ok k2" "k' = k2\<lparr>k_fs := fs\<rparr>"
  | (opened) f fd k1 k2 fs where "r = int fd" "filealloc k = (Some f, k1)" "fdalloc k1 f = (Some fd, k2)"
      "k' = set_file (k2\<lparr>k_fs := fs\<rparr>) f (opened ip omode)"
proof -
  have fail: "\<exists>fs. r = -1 \<and> k' = k2\<lparr>k_fs := fs\<rparr>" if "open_fail k2 ip = Ok (r, k')" for k2
    using that unfolding open_fail_def f_end_def by (elim on_fs_OkD andThen_OkE) auto
  obtain g k1 where g: "filealloc k = (g, k1)" by (cases "filealloc k")
  show thesis
  proof (cases g)
    case None
    then show thesis using assms g fail [of k1] filealloc_NoneD [of k k1] no_file by (auto simp: open_fd_def)
  next
    case (Some f)
    obtain e k2 where e: "fdalloc k1 f = (e, k2)" by (cases "fdalloc k1 f")
    show thesis
    proof (cases e)
      case None
      have "andThen (fileclose k1 f) (\<lambda>k. open_fail k ip) = Ok (r, k')"
        using assms g Some e None fdalloc_NoneD [of k1 f k2] by (simp add: open_fd_def)
      then obtain k3 where "fileclose k1 f = Ok k3" "open_fail k3 ip = Ok (r, k')" by (rule andThen_OkE)
      then show thesis using fail no_fd g Some by blast
    next
      case (Some fd)
      have "andThen (on_fs k2 (\<lambda>fs. andThen (iunlock fs ip) (f_end ()))) (\<lambda>(_, k). Ok (int fd, set_file k f (opened ip omode))) = Ok (r, k')"
        using assms g \<open>g = Some f\<close> e Some by (simp add: open_fd_def)
      then obtain fs where "Ok (int fd, set_file (k2\<lparr>k_fs := fs\<rparr>) f (opened ip omode)) = Ok (r, k')"
        by (rule on_fs_thenD) auto
      then have r: "r = int fd" "k' = set_file (k2\<lparr>k_fs := fs\<rparr>) f (opened ip omode)" by simp_all
      show thesis by (rule opened [OF r(1) g [unfolded \<open>g = Some f\<close>] e [unfolded Some] r(2)])
    qed
  qed
qed

lemma open_fd_files:
  assumes "open_fd k ip omode = Ok (r, k')" "files_ok oth k"
  shows "files_ok oth k'"
  using assms(1)
proof (cases rule: open_fd_cases)
  case (no_fd f k1 k2 fs)
  note t = filealloc_ok [OF no_fd(2) assms(2) [unfolded files_ok_def]]
  show ?thesis using fileclose_ok [OF no_fd(3) t(4)] t(1,3) no_fd(4) by (simp add: files_ok_def fun_upd_idem)
next
  case (opened f fd k1 k2 fs)
  note t = filealloc_ok [OF opened(2) assms(2) [unfolded files_ok_def]] and d = fdalloc_SomeD [OF opened(3)]
  have "tab_ok oth {f} (ftable k2) (u_ofile k2)"
    using tab_ok_take_fd [OF t(4) t(1) _ d(1,2)] t(3) d(3) by (simp add: fun_upd_idem)
  from tab_ok_file [OF this t(1), of "oth f" "Xv6_Sysfile.opened ip omode (ftable k2 ! f)" "{}"] tab_okD [OF this t(1)]
  show ?thesis using opened(4) by (simp add: files_ok_def Xv6_Sysfile.opened_def)
qed (use assms(2) in simp)

lemma sys_open_cases:
  assumes "sys_open dv k = Ok (r, k')"
  obtains "r = -1" "k' = k"
  | fs where "r = -1" "k' = k\<lparr>k_fs := fs\<rparr>"
  | path omode fs ip where "argstr k 0 = Some path" "argint k 1 = Some omode"
      "open_inode dv (k_fs k) (u_cwd k) path omode = Ok (Some ip, fs)" "open_fd (k\<lparr>k_fs := fs\<rparr>) ip omode = Ok (r, k')"
  using assms unfolding sys_open_def
  by (auto split: option.splits elim!: on_fs_thenD)

lemma sys_open_files: "sys_open dv k = Ok (r, k') \<Longrightarrow> files_ok oth k \<Longrightarrow> files_ok oth k'"
  by (erule sys_open_cases) (auto intro: open_fd_files)

text \<open>A file that the call has allocated gets its type.\<close>

lemma tab_ok_typed:
  assumes "tab_ok oth N ft ofl" "f < NFILE" "f \<in> N" "f_ref x = f_ref (ft ! f)" "f_type x \<noteq> FD_NONE"
  shows "tab_ok oth (N - {f}) (ft[f := x]) ofl"
proof -
  have "tab_ok (oth(f := oth f)) (N - {f}) (ft[f := x]) ofl"
    by (rule tab_ok_file [OF assms(1,2)]) (use tab_okD [OF assms(1,2)] assms(3-5) in auto)
  then show ?thesis by simp
qed

definition pipe_end :: "u32 \<Rightarrow> bool \<Rightarrow> open_file \<Rightarrow> open_file" where
  "pipe_end a rd x = x\<lparr>f_type := FD_PIPE, f_readable := rd, f_writable := \<not> rd, f_pipe := a\<rparr>"

lemma tab_ok_pipe:
  assumes t: "tab_ok oth {f1, f0} ft ofl" and f: "f0 < NFILE" "f1 < NFILE" "f0 \<noteq> f1"
  shows "tab_ok oth {} (ft[f0 := pipe_end a True (ft ! f0), f1 := pipe_end a False (ft ! f1)]) ofl"
proof -
  have "tab_ok oth ({f1, f0} - {f0}) (ft[f0 := pipe_end a True (ft ! f0)]) ofl"
    by (rule tab_ok_typed [OF t f(1)]) (simp_all add: pipe_end_def)
  then have "tab_ok oth {f1} (ft[f0 := pipe_end a True (ft ! f0)]) ofl" using f(3) by (simp add: insert_Diff_if)
  from tab_ok_typed [OF this f(2), of "pipe_end a False (ft ! f1)"] show ?thesis using f(3) by (simp add: pipe_end_def)
qed

lemma pipealloc_files:
  assumes "pipealloc k = Ok (r, k')" and t: "tab_ok oth {} (ftable k) (u_ofile k)"
  shows "case r of None \<Rightarrow> tab_ok oth {} (ftable k') (u_ofile k')
    | Some (f0, f1) \<Rightarrow> f0 < NFILE \<and> f1 < NFILE \<and> f0 \<noteq> f1 \<and> oth f0 = 0 \<and> oth f1 = 0 \<and>
        tab_ok (oth(f0 := 1, f1 := 1)) {} (ftable k') (u_ofile k')"
proof -
  obtain g0 k1 where g0: "filealloc k = (g0, k1)" by (cases "filealloc k")
  show ?thesis
  proof (cases g0)
    case None
    then show ?thesis using assms g0 filealloc_NoneD [of k k1] by (auto simp: pipealloc_def)
  next
    case (Some f0)
    note a = filealloc_ok [OF g0 [unfolded Some] t]
    obtain g1 k2 where g1: "filealloc k1 = (g1, k2)" by (cases "filealloc k1")
    show ?thesis
    proof (cases g1)
      case None
      then have "fileclose k1 f0 = Ok k'" "r = None"
        using assms(1) g0 g1 \<open>g0 = Some f0\<close> filealloc_NoneD [of k1 k2] by (auto simp: pipealloc_def andThen_eq_Ok)
      then show ?thesis using fileclose_ok [OF _ a(4,1)] a(3) by (simp add: fun_upd_idem)
    next
      case (Some f1)
      note b = filealloc_ok [OF g1 [unfolded Some] a(4)]
      have ne: "f0 \<noteq> f1" and o: "oth f1 = 0" using b(2,3) by auto
      obtain p km where p: "kalloc (k_kmem k2) = (p, km)" by (cases "kalloc (k_kmem k2)")
      show ?thesis
      proof (cases "p = 0")
        case True
        have "andThen (fileclose (k2\<lparr>k_kmem := km\<rparr>) f0) (\<lambda>k. andThen (fileclose k f1) (\<lambda>k. Ok (None, k))) = Ok (r, k')"
          using assms(1) g0 g1 \<open>g0 = Some f0\<close> Some p True by (simp add: pipealloc_def)
        then obtain k3 where c: "fileclose (k2\<lparr>k_kmem := km\<rparr>) f0 = Ok k3" "fileclose k3 f1 = Ok k'" "r = None"
          by (auto simp: andThen_eq_Ok)
        have "tab_ok (oth(f0 := 1, f1 := 1, f0 := 0)) {f1} (ftable k3) (u_ofile k3)"
          using fileclose_ok [OF c(1), of "oth(f0 := 1, f1 := 1)" "{f1, f0}"] b(4) a(1) ne
          by (simp add: insert_Diff_if)
        from fileclose_ok [OF c(2) this b(1)] show ?thesis
          using c(3) ne o a(3) by (simp add: fun_upd_twist fun_upd_idem)
      next
        case False
        have r: "r = Some (f0, f1)" "ftable k' = (ftable k2)[f0 := pipe_end p True (ftable k2 ! f0), f1 := pipe_end p False (ftable k2 ! f1)]"
          "u_ofile k' = u_ofile k2"
          using assms(1) g0 g1 \<open>g0 = Some f0\<close> Some p False ne by (auto simp: pipealloc_def pipe_end_def Let_def)
        show ?thesis using tab_ok_pipe [OF b(4) a(1) b(1) ne] r a(1,3) b(1) ne o by simp
      qed
    qed
  qed
qed

text \<open>The error exit of \<^verbatim>\<open>sys_pipe\<close>.\<close>

definition close2 :: "nat \<Rightarrow> nat \<Rightarrow> ksys \<Rightarrow> (int \<times> ksys) outcome" where
  "close2 f0 f1 k = andThen (fileclose k f0) (\<lambda>k. andThen (fileclose k f1) (\<lambda>k. Ok (-1, k)))"

lemma close2_files:
  assumes "close2 f0 f1 k1 = Ok (r, k')" and t: "tab_ok (oth(f0 := 1, f1 := 1)) {} (ftable k1) (u_ofile k1)"
    and f: "f0 < NFILE" "f1 < NFILE" "f0 \<noteq> f1" "oth f0 = 0" "oth f1 = 0"
  shows "files_ok oth k'"
proof -
  obtain k2 where c: "fileclose k1 f0 = Ok k2" "fileclose k2 f1 = Ok k'" using assms(1) by (auto simp: close2_def andThen_eq_Ok)
  have "tab_ok (oth(f0 := 1, f1 := 1, f0 := 0)) {} (ftable k2) (u_ofile k2)" using fileclose_ok [OF c(1) t f(1)] f(3) by simp
  from fileclose_ok [OF c(2) this f(2)] show ?thesis using f by (simp add: files_ok_def fun_upd_twist fun_upd_idem)
qed

lemma sys_pipe_files:
  assumes "sys_pipe k = Ok (r, k')" "files_ok oth k"
  shows "files_ok oth k'"
proof (cases "argptr k 0 8")
  case None
  then show ?thesis using assms by (simp add: sys_pipe_def)
next
  case (Some a)
  obtain q k1 where q: "pipealloc k = Ok (q, k1)" using assms(1) Some by (auto simp: sys_pipe_def andThen_eq_Ok)
  note pf = pipealloc_files [OF q assms(2) [unfolded files_ok_def]]
  show ?thesis
  proof (cases q)
    case None
    then show ?thesis using assms(1) Some q pf by (simp add: sys_pipe_def files_ok_def)
  next
    case (Some p)
    obtain f0 f1 where p: "p = (f0, f1)" by (cases p)
    have f: "f0 < NFILE" "f1 < NFILE" "f0 \<noteq> f1" "oth f0 = 0" "oth f1 = 0"
      and t: "tab_ok (oth(f0 := 1, f1 := 1)) {} (ftable k1) (u_ofile k1)" using pf Some p by simp_all
    obtain e0 k2 where e0: "fdalloc k1 f0 = (e0, k2)" by (cases "fdalloc k1 f0")
    show ?thesis
    proof (cases e0)
      case None
      have "close2 f0 f1 k1 = Ok (r, k')"
        using assms(1) \<open>argptr k 0 8 = Some a\<close> q Some p e0 None fdalloc_NoneD [of k1 f0 k2] by (simp add: sys_pipe_def close2_def)
      then show ?thesis by (rule close2_files [OF _ t f])
    next
      case (Some fd0)
      note d = fdalloc_SomeD [OF e0 [unfolded Some]]
      have t2: "tab_ok (oth(f0 := 0, f1 := 1)) {} (ftable k2) (u_ofile k2)"
        using tab_ok_take_fd [OF t f(1) _ d(1,2)] f(3) d(3) by (simp add: fun_upd_twist)
      obtain e1 k3 where e1: "fdalloc k2 f1 = (e1, k3)" by (cases "fdalloc k2 f1")
      note step = \<open>argptr k 0 8 = Some a\<close> q \<open>q = Some p\<close> p e0 Some e1
      show ?thesis
      proof (cases e1)
        case None
        have "close2 f0 f1 (k2\<lparr>u_ofile := (u_ofile k2)[fd0 := None]\<rparr>) = Ok (r, k')"
          using assms(1) step None fdalloc_NoneD [of k2 f1 k3] by (simp add: sys_pipe_def close2_def)
        moreover have "tab_ok (oth(f0 := 1, f1 := 1)) {} (ftable k2) ((u_ofile k2)[fd0 := None])"
          using tab_ok_drop_fd [OF t2 d(1)] d(1,3) tab_ok_length [OF t] f(3) by (simp add: fun_upd_twist)
        ultimately show ?thesis using close2_files [OF _ _ f] by simp
      next
        case (Some fd1)
        note g = fdalloc_SomeD [OF e1 [unfolded Some]]
        have "k' = put_user (put_user k3 a (le32 (of_nat fd0))) (a + 4) (le32 (of_nat fd1))"
          using assms(1) step Some by (simp add: sys_pipe_def)
        then show ?thesis using tab_ok_take_fd [OF t2 f(2) _ g(1,2)] f(4,5) g(3) by (simp add: files_ok_def fun_upd_idem)
      qed
    qed
  qed
qed

lemma sys_fstat_files: "sys_fstat k = Ok (r, k') \<Longrightarrow> files_ok oth k \<Longrightarrow> files_ok oth k'"
  unfolding sys_fstat_def put_stat_def filestat_def
  by (auto simp: Let_def andThen_eq_Ok split: option.splits if_splits elim!: on_fs_OkD)

lemma sys_link_files: "sys_link dv k = Ok (r, k') \<Longrightarrow> files_ok oth k \<Longrightarrow> files_ok oth k'"
  unfolding sys_link_def by (auto split: option.splits elim: files_ok_on_fs)

lemma sys_unlink_files: "sys_unlink dv k = Ok (r, k') \<Longrightarrow> files_ok oth k \<Longrightarrow> files_ok oth k'"
  unfolding sys_unlink_def by (auto split: option.splits elim: files_ok_on_fs)

lemma sys_mkdir_files: "sys_mkdir dv k = Ok (r, k') \<Longrightarrow> files_ok oth k \<Longrightarrow> files_ok oth k'"
  unfolding sys_mkdir_def by (rule files_ok_on_fs)

lemma sys_mknod_files: "sys_mknod dv k = Ok (r, k') \<Longrightarrow> files_ok oth k \<Longrightarrow> files_ok oth k'"
  unfolding sys_mknod_def by (rule files_ok_on_fs)

lemma files_ok_cwd [simp]: "files_ok oth (k\<lparr>u_cwd := d\<rparr>) = files_ok oth k"
  by (simp add: files_ok_def)

lemma sys_chdir_files: "sys_chdir dv k = Ok (r, k') \<Longrightarrow> files_ok oth k \<Longrightarrow> files_ok oth k'"
  unfolding sys_chdir_def by (elim on_fs_thenD) (auto split: option.splits)

text \<open>One system call of the process on a file.\<close>

inductive file_call :: "devsw \<Rightarrow> ksys \<Rightarrow> ksys \<Rightarrow> bool" for dv where
  "sys_dup k = Ok (r, k') \<Longrightarrow> file_call dv k k'"
| "sys_read dv k = Ok (r, k') \<Longrightarrow> file_call dv k k'"
| "sys_write dv k = Ok (r, k') \<Longrightarrow> file_call dv k k'"
| "sys_close k = Ok (r, k') \<Longrightarrow> file_call dv k k'"
| "sys_fstat k = Ok (r, k') \<Longrightarrow> file_call dv k k'"
| "sys_link dv k = Ok (r, k') \<Longrightarrow> file_call dv k k'"
| "sys_unlink dv k = Ok (r, k') \<Longrightarrow> file_call dv k k'"
| "sys_open dv k = Ok (r, k') \<Longrightarrow> file_call dv k k'"
| "sys_mkdir dv k = Ok (r, k') \<Longrightarrow> file_call dv k k'"
| "sys_mknod dv k = Ok (r, k') \<Longrightarrow> file_call dv k k'"
| "sys_chdir dv k = Ok (r, k') \<Longrightarrow> file_call dv k k'"
| "sys_pipe k = Ok (r, k') \<Longrightarrow> file_call dv k k'"

text \<open>Between two calls the process computes: it may change its memory and its stack pointer.\<close>

inductive user_step :: "devsw \<Rightarrow> ksys \<Rightarrow> ksys \<Rightarrow> bool" for dv where
  computes: "length m = length (u_mem k) \<Longrightarrow> user_step dv k (k\<lparr>u_mem := m, u_esp := sp\<rparr>)"
| calls: "file_call dv k k' \<Longrightarrow> user_step dv k k'"

lemmas sys_files = sys_dup_files sys_read_files sys_write_files sys_close_files sys_fstat_files sys_link_files
  sys_unlink_files sys_open_files sys_mkdir_files sys_mknod_files sys_chdir_files sys_pipe_files

lemma user_step_files:
  assumes "user_step dv k k'" "files_ok oth k"
  shows "files_ok oth k'"
  using assms
proof cases
  case (computes m sp)
  then show ?thesis using assms(2) by (simp add: files_ok_def)
next
  case calls
  then show ?thesis using assms(2) by cases (rule sys_files, assumption+)+
qed

text \<open>
  C17: After every sequence of system calls on files and of steps of the process, the reference count
  of each open file is the number of descriptors of the process that refer to it plus the references
  of others, a file is free exactly when its type is \<^verbatim>\<open>FD_NONE\<close>, and no descriptor refers to a free file.
\<close>

theorem file_references_counted:
  assumes "(user_step dv)\<^sup>*\<^sup>* k k'" "files_ok oth k" "f < NFILE"
  shows "f_ref (ftable k' ! f) = oth f + int (count_list (u_ofile k') (Some f)) \<and>
    (f_type (ftable k' ! f) = FD_NONE \<longleftrightarrow> f_ref (ftable k' ! f) = 0) \<and>
    (Some f \<in> set (u_ofile k') \<longrightarrow> 1 \<le> f_ref (ftable k' ! f))"
proof -
  have "files_ok oth k'" using assms(1) by (induction rule: rtranclp_induct) (auto intro: assms(2) user_step_files)
  then have t: "tab_ok oth {} (ftable k') (u_ofile k')" by (simp add: files_ok_def)
  have "Some f \<in> set (u_ofile k') \<longrightarrow> 1 \<le> f_ref (ftable k' ! f)"
    using tab_ok_open [OF t] tab_ok_length [OF t] by (metis in_set_conv_nth)
  then show ?thesis using tab_okD(2,3) [OF t assms(3)] by simp
qed

section \<open>The memory of the process\<close>

text \<open>
  The user part of the address space ends below \<^verbatim>\<open>KERNBASE\<close>, so the sum of a checked pointer and a checked
  length does not wrap around.
\<close>

definition user_ok :: "ksys \<Rightarrow> bool" where
  "user_ok k \<longleftrightarrow> length (u_mem k) = unat (u_sz k) \<and> u_sz k \<le> KERNBASE"

lemma argptr_bounds:
  assumes "argptr k n len = Some a" "user_ok k"
  shows "unat a + unat len \<le> length (u_mem k)" "argint k n = Some a"
proof -
  show i: "argint k n = Some a" using assms(1) by (auto simp: argptr_def split: option.splits if_splits)
  have c: "0 \<le> sint len" "a < u_sz k" "a + len \<le> u_sz k"
    using assms(1) i by (auto simp: argptr_def not_less not_le split: if_splits)
  have "unat (u_sz k) \<le> 2 ^ 31" using assms(2) by (simp add: user_ok_def KERNBASE_def word_le_nat_alt)
  moreover have "unat a < unat (u_sz k)" using c(2) by (simp add: word_less_nat_alt)
  moreover have "int (unat len) < int (2 ^ 31)" using unat_of_sint [OF c(1)] sint_lt [of len] by simp
  then have "unat len < 2 ^ 31" by (simp only: of_nat_less_iff)
  ultimately have "unat a + unat len < 2 ^ 32" by simp
  then have "unat (a + len) = unat a + unat len" by (simp add: unat_word_ariths)
  then show "unat a + unat len \<le> length (u_mem k)" using c(3) assms(2) by (simp add: user_ok_def word_le_nat_alt)
qed

text \<open>The drivers return at most the bytes they are asked for.\<close>

definition devs_bounded :: "devsw \<Rightarrow> bool" where
  "devs_bounded dv \<longleftrightarrow> (\<forall>major rd n. dev_read dv major = Some rd \<longrightarrow> length (snd (rd n)) \<le> unat n)"

lemma read_loop_length: "read_loop p n = (p', bs) \<Longrightarrow> length bs \<le> n"
  by (induction n arbitrary: p p' bs) (auto simp: Let_def split: if_splits prod.splits)

lemma piperead_length: "piperead p kd n = (p', bs, w, c) \<Longrightarrow> length bs \<le> n"
  by (auto simp: piperead_def Let_def read_loop_length split: if_splits prod.splits)

lemma readi_loop_length: "readi_loop fs ip off n = Ok (bs, fs') \<Longrightarrow> length bs \<le> n"
proof (induction n arbitrary: fs off bs fs' rule: less_induct)
  case (less n)
  show ?case
  proof (cases "0 < n")
    case False
    then show ?thesis using less.prems by (simp add: readi_loop.simps [of fs ip off 0])
  next
    case True
    let ?m = "chunk off n"
    obtain d fs1 rest where "bs = get_at d (off mod BSIZE) ?m @ rest" "readi_loop fs1 ip (off + ?m) (n - ?m) = Ok (rest, fs')"
      using less.prems True by (auto simp: readi_loop.simps [of fs ip off n] Let_def andThen_eq_Ok)
    moreover have "length rest \<le> n - ?m" if "readi_loop fs1 ip (off + ?m) (n - ?m) = Ok (rest, fs')"
      using less.IH [OF _ that] chunk_bounds(1) [OF True, of off] True by simp
    ultimately show ?thesis using chunk_bounds(2) [of off n] by fastforce
  qed
qed

lemma readi_length:
  assumes "readi dv fs ip off n = Ok ((r, bs), fs')" "devs_bounded dv"
  shows "length bs \<le> unat n"
proof (cases "i_type (icache fs ! ip) = T_DEV")
  case True
  then show ?thesis using assms by (auto simp: readi_def Let_def devs_bounded_def split: option.splits if_splits) (metis snd_conv)
next
  case False
  let ?i = "icache fs ! ip"
  let ?n = "if i_size ?i < off + n then i_size ?i - off else n"
  show ?thesis
  proof (cases "i_size ?i < off \<or> off + n < off")
    case True
    then show ?thesis using assms False by (auto simp: readi_def Let_def)
  next
    case ok: False
    then obtain fs1 where "readi_loop fs ip (unat off) (unat ?n) = Ok (bs, fs1)"
      using assms(1) False by (auto simp: readi_def Let_def andThen_eq_Ok)
    then have "length bs \<le> unat ?n" by (rule readi_loop_length)
    moreover have "?n \<le> n" using ok by unat_arith
    ultimately show ?thesis by (simp add: word_le_nat_alt split: if_splits)
  qed
qed

text \<open>The memory outside the bytes from \<open>a\<close> to \<open>a + n\<close> is as before.\<close>

definition mem_kept :: "nat \<Rightarrow> nat \<Rightarrow> ksys \<Rightarrow> ksys \<Rightarrow> bool" where
  "mem_kept a n k k' \<longleftrightarrow> u_sz k' = u_sz k \<and> length (u_mem k') = length (u_mem k) \<and>
     (\<forall>i<length (u_mem k). \<not> (a \<le> i \<and> i < a + n) \<longrightarrow> u_mem k' ! i = u_mem k ! i)"

lemma mem_kept_same: "u_sz k' = u_sz k \<Longrightarrow> u_mem k' = u_mem k \<Longrightarrow> mem_kept a n k k'"
  by (simp add: mem_kept_def)

lemma mem_kept_put:
  assumes "a + length bs \<le> length (u_mem k)" "length bs \<le> n" "u_sz k' = u_sz k" "u_mem k' = put_at (u_mem k) a bs"
  shows "mem_kept a n k k'"
  using assms by (auto simp: mem_kept_def nth_put_at)

lemma fileread_mem:
  assumes "fileread dv k f a n = Ok (r, k')" "devs_bounded dv" "unat a + n \<le> length (u_mem k)" "n < 2 ^ 32"
  shows "mem_kept (unat a) n k k'"
  using assms(1)
proof (cases rule: fileread_cases)
  case 1
  then show ?thesis by (simp add: mem_kept_same)
next
  case (2 p bs w)
  then show ?thesis using piperead_length [OF 2(1)] assms(3) by (intro mem_kept_put [of _ bs]) simp_all
next
  case (3 fs bs fs' fs0)
  have "length bs \<le> n" using readi_length [OF 3(1) assms(2)] assms(4) by (simp add: unat_of_nat)
  then show ?thesis using 3(2) assms(3) by (intro mem_kept_put [of _ bs]) simp_all
qed

text \<open>
  C18: \<^verbatim>\<open>read\<close> writes to the memory of the process only inside the buffer that the process passed, of the
  length it passed, whatever the kind of the file and whatever the arguments, provided that the
  device drivers return no more bytes than they are asked for.
\<close>

theorem sys_read_inside_buffer:
  assumes "sys_read dv k = Ok (r, k')" "user_ok k" "devs_bounded dv"
  shows "length (u_mem k') = length (u_mem k) \<and>
    (\<forall>i<length (u_mem k). u_mem k' ! i \<noteq> u_mem k ! i \<longrightarrow>
       (\<exists>p n. argint k 1 = Some p \<and> argint k 2 = Some n \<and> unat p \<le> i \<and> i < unat p + unat n))"
  using assms(1)
proof (cases rule: sys_read_cases)
  case 1
  then show ?thesis by simp
next
  case (2 fd f n p)
  note b = argptr_bounds [OF 2(3) assms(2)]
  have "mem_kept (unat p) (unat n) k k'" by (rule fileread_mem [OF 2(4) assms(3) b(1) unat_bound])
  then show ?thesis using b(2) 2(2) by (auto simp: mem_kept_def)
qed

section \<open>Shape of the memory\<close>

text \<open>The calls other than \<^verbatim>\<open>read\<close> write to fixed places, if at all.\<close>

lemma user_ok_same: "user_ok k \<Longrightarrow> u_sz k' = u_sz k \<Longrightarrow> length (u_mem k') = length (u_mem k) \<Longrightarrow> user_ok k'"
  by (simp add: user_ok_def)

lemma user_ok_k_fs [simp]: "user_ok (k\<lparr>k_fs := fs\<rparr>) = user_ok k" "user_ok (k\<lparr>u_cwd := d\<rparr>) = user_ok k"
  by (simp_all add: user_ok_def)

lemma user_ok_on_fs: "on_fs k h = Ok (r, k') \<Longrightarrow> user_ok k \<Longrightarrow> user_ok k'"
  by (elim on_fs_OkD) simp

lemma filewrite_loop_mem: "filewrite_loop dv k f addr n i = Ok (r, k') \<Longrightarrow> u_mem k' = u_mem k \<and> u_sz k' = u_sz k"
proof (induction "n - i" arbitrary: k i rule: less_induct)
  case less
  show ?case
  proof (cases "i < n")
    case False
    then show ?thesis using less.prems by (simp add: filewrite_loop.simps [of dv k f addr n i])
  next
    case True
    from less.prems True show ?thesis
    proof (cases rule: filewrite_loop_step)
      case (2 fs fs' k1)
      have "n - (i + min write_max (n - i)) < n - i" using True by (simp add: write_max_eq)
      then have "u_mem k' = u_mem k1 \<and> u_sz k' = u_sz k1" using less.hyps 2(2) by blast
      then show ?thesis using 2(1) by simp
    qed simp
  qed
qed

lemma filewrite_mem:
  assumes "filewrite dv k f addr n = Ok (r, k')"
  shows "u_mem k' = u_mem k \<and> u_sz k' = u_sz k"
  using assms by (cases rule: filewrite_cases) (use filewrite_loop_mem in auto)

lemma alloc_mem:
  "filealloc k = (g, k') \<Longrightarrow> u_mem k' = u_mem k \<and> u_sz k' = u_sz k"
  "fdalloc k f = (e, k') \<Longrightarrow> u_mem k' = u_mem k \<and> u_sz k' = u_sz k"
  by (auto simp: filealloc_def fdalloc_def split: option.splits)

lemma fileclose_mem:
  assumes "fileclose k f = Ok k'"
  shows "u_mem k' = u_mem k \<and> u_sz k' = u_sz k"
proof (cases "f < length (ftable k)")
  case True
  then show ?thesis using fileclose_sel(4,5) [OF assms] by simp
next
  case False
  then have e: "set_file k f h = k" for h by (cases k) (simp add: set_file_def list_update_beyond not_less)
  have "k_pipeclose k a w = Ok k' \<Longrightarrow> ?thesis" for a w using k_pipeclose_sel by blast
  then show ?thesis using assms
    by (auto simp: fileclose_def e Let_def split: if_splits file_type.splits elim!: on_fs_thenD)
qed

lemma pipealloc_mem:
  assumes "pipealloc k = Ok (r, k')"
  shows "u_mem k' = u_mem k \<and> u_sz k' = u_sz k"
  using assms
  by (auto simp: pipealloc_def Let_def andThen_eq_Ok split: prod.splits option.splits if_splits
      dest!: alloc_mem fileclose_mem)

lemma put_stat_mem:
  assumes "unat a + 20 \<le> length (u_mem k)" "length (u_mem k) \<le> 2 ^ 31"
  shows "length (u_mem (put_stat k a st)) = length (u_mem k)" "u_sz (put_stat k a st) = u_sz k"
proof -
  have "unat (a + w) = unat a + unat w" if "unat w \<le> 16" for w
    using assms that by (simp add: unat_word_ariths)
  from this [of 4] this [of 8] this [of 12] this [of 16] assms(1)
  show "length (u_mem (put_stat k a st)) = length (u_mem k)" "u_sz (put_stat k a st) = u_sz k"
    by (simp_all add: put_stat_def)
qed

lemma user_ok_length: "user_ok k \<Longrightarrow> length (u_mem k) \<le> 2 ^ 31"
  by (simp add: user_ok_def KERNBASE_def word_le_nat_alt)

lemma sys_fstat_mem:
  assumes "sys_fstat k = Ok (r, k')" "user_ok k"
  shows "user_ok k'"
proof (cases "argfd k 0 = None \<or> argptr k 1 20 = None")
  case True
  then show ?thesis using assms by (auto simp: sys_fstat_def split: option.splits)
next
  case False
  then obtain fd f a where a: "argfd k 0 = Some (fd, f)" "argptr k 1 20 = Some a" by auto
  obtain st k1 where k1: "filestat k f = Ok (st, k1)" "Ok (r, k') = (case st of None \<Rightarrow> Ok (-1, k1) | Some st \<Rightarrow> Ok (0, put_stat k1 a st))"
    using assms(1) a by (auto simp: sys_fstat_def andThen_eq_Ok)
  have ok: "user_ok k1" "length (u_mem k1) = length (u_mem k)" "u_sz k1 = u_sz k"
    using k1(1) assms(2) by (auto simp: filestat_def Let_def split: if_splits elim!: on_fs_OkD)
  show ?thesis
  proof (cases st)
    case None
    then show ?thesis using k1(2) ok by simp
  next
    case (Some s)
    have "unat a + 20 \<le> length (u_mem k1)" using argptr_bounds(1) [OF a(2) assms(2)] ok(2) by simp
    from put_stat_mem [OF this user_ok_length [OF ok(1)]] show ?thesis using k1(2) Some user_ok_same [OF ok(1)] by simp
  qed
qed

lemma sys_pipe_mem:
  assumes "sys_pipe k = Ok (r, k')" "user_ok k"
  shows "user_ok k'"
proof (cases "argptr k 0 8")
  case None
  then show ?thesis using assms by (simp add: sys_pipe_def)
next
  case (Some a)
  obtain q k1 where q: "pipealloc k = Ok (q, k1)" using assms(1) Some by (auto simp: sys_pipe_def andThen_eq_Ok)
  note m = pipealloc_mem [OF q]
  have b: "unat a + 8 \<le> length (u_mem k)" using argptr_bounds(1) [OF Some assms(2)] by simp
  then have "unat (a + 4) = unat a + 4" using user_ok_length [OF assms(2)] by (simp add: unat_word_ariths)
  with b have put: "length (put_at (put_at (u_mem k) (unat a) (le32 v)) (unat (a + 4)) (le32 w)) = length (u_mem k)" for v w
    by simp
  show ?thesis using assms Some q m
    by (auto simp: sys_pipe_def Let_def andThen_eq_Ok user_ok_def put split: option.splits prod.splits
        dest!: alloc_mem fileclose_mem)
qed

lemma open_fd_mem:
  assumes "open_fd k ip omode = Ok (r, k')"
  shows "u_mem k' = u_mem k \<and> u_sz k' = u_sz k"
  using assms by (cases rule: open_fd_cases) (auto dest!: alloc_mem fileclose_mem)

lemma file_call_mem:
  assumes "file_call dv k k'" "user_ok k" "devs_bounded dv"
  shows "user_ok k'"
  using assms(1)
proof cases
  case (1 r)
  then show ?thesis using assms(2) user_ok_same [OF assms(2)]
    by (auto simp: sys_dup_def filedup_def split: option.splits prod.splits if_splits dest!: alloc_mem)
next
  case (2 r)
  then show ?thesis
  proof (cases rule: sys_read_cases)
    case (2 fd f n p)
    have "mem_kept (unat p) (unat n) k k'"
      by (rule fileread_mem [OF 2(4) assms(3) argptr_bounds(1) [OF 2(3) assms(2)] unat_bound])
    then show ?thesis using user_ok_same [OF assms(2)] by (simp add: mem_kept_def)
  qed (use assms(2) in simp)
next
  case (3 r)
  then show ?thesis by (cases rule: sys_write_cases) (use user_ok_same [OF assms(2)] filewrite_mem in auto)
next
  case (4 r)
  then show ?thesis using assms(2) user_ok_same [OF assms(2)]
    by (auto simp: sys_close_def andThen_eq_Ok split: option.splits dest!: fileclose_mem)
next
  case (5 r)
  then show ?thesis using sys_fstat_mem assms(2) by blast
next
  case (6 r)
  then show ?thesis using assms(2) unfolding sys_link_def by (auto split: option.splits elim: user_ok_on_fs)
next
  case (7 r)
  then show ?thesis using assms(2) unfolding sys_unlink_def by (auto split: option.splits elim: user_ok_on_fs)
next
  case (8 r)
  then show ?thesis by (cases rule: sys_open_cases) (use assms(2) user_ok_same [OF assms(2)] open_fd_mem in auto)
next
  case (9 r)
  then show ?thesis using assms(2) unfolding sys_mkdir_def by (rule user_ok_on_fs)
next
  case (10 r)
  then show ?thesis using assms(2) unfolding sys_mknod_def by (rule user_ok_on_fs)
next
  case (11 r)
  then show ?thesis using assms(2) unfolding sys_chdir_def by (elim on_fs_thenD) (auto split: option.splits)
next
  case (12 r)
  then show ?thesis using sys_pipe_mem assms(2) by blast
qed

text \<open>
  C21: The model of the process's memory is well-formed in every state that a sequence of system calls
  on files and of steps of the process reaches: it has exactly the bytes below \<^verbatim>\<open>sz\<close>, and \<^verbatim>\<open>sz\<close> does not
  reach into the kernel, provided that the device drivers return no more bytes than asked for.
\<close>

theorem user_memory_well_formed:
  assumes "(user_step dv)\<^sup>*\<^sup>* k k'" "user_ok k" "devs_bounded dv"
  shows "user_ok k'"
  using assms(1)
proof (induction rule: rtranclp_induct)
  case (step k1 k2)
  from step(2) show ?case
  proof cases
    case (computes m sp)
    then show ?thesis using step.IH by (simp add: user_ok_def)
  next
    case calls
    then show ?thesis using file_call_mem step.IH assms(3) by blast
  qed
qed (rule assms(2))

section \<open>Results of open and write\<close>

lemma filealloc_then_close:
  assumes "filealloc k = (Some f, k1)" "fileclose k1 f = Ok k2" "files_ok oth k"
  shows "ftable k2 = ftable k" "u_ofile k2 = u_ofile k"
proof -
  note f = filealloc_SomeD [OF assms(1)] and t = assms(3) [unfolded files_ok_def]
  have l: "f < length (ftable k)" using f(1) tab_ok_length [OF t] by simp
  then have l1: "f < length (ftable k1)" by (simp add: f(3))
  note c = fileclose_sel [OF assms(2) l1]
  have "f_type (ftable k ! f) = FD_NONE" using tab_okD(3) [OF t f(1)] f(2) by simp
  then have "closed ((ftable k ! f)\<lparr>f_ref := 1\<rparr>) = ftable k ! f" using f(2) by (cases "ftable k ! f") (simp add: closed_def)
  then show "ftable k2 = ftable k" using c(2) l by (simp add: f(3))
  show "u_ofile k2 = u_ofile k" using c(3) by (simp add: f(3))
qed

text \<open>
  C19: \<^verbatim>\<open>open\<close> either returns -1 and leaves the descriptors and the table of open files as they were, or
  returns the lowest free descriptor, which then refers to a file that was free and now has one
  reference, offset 0, and is readable and writable as the mode says; nothing else changes in the
  descriptors and in the table.
\<close>

theorem sys_open_result:
  assumes "sys_open dv k = Ok (r, k')" "files_ok oth k"
  shows "r = -1 \<and> u_ofile k' = u_ofile k \<and> ftable k' = ftable k \<or>
    (\<exists>fd f ip omode. r = int fd \<and> argint k 1 = Some omode \<and>
       fd < NOFILE \<and> u_ofile k ! fd = None \<and> (\<forall>e<fd. u_ofile k ! e \<noteq> None) \<and> u_ofile k' = (u_ofile k)[fd := Some f] \<and>
       f < NFILE \<and> f_ref (ftable k ! f) = 0 \<and>
       ftable k' = (ftable k)[f := \<lparr> f_type = FD_INODE, f_ref = 1, f_readable = (omode AND O_WRONLY = 0),
         f_writable = (omode AND O_WRONLY \<noteq> 0 \<or> omode AND O_RDWR \<noteq> 0), f_pipe = f_pipe (ftable k ! f), f_ip = ip, f_off = 0 \<rparr>])"
  using assms(1)
proof (cases rule: sys_open_cases)
  case (3 path omode fs ip)
  have ok: "files_ok oth (k\<lparr>k_fs := fs\<rparr>)" using assms(2) by simp
  from 3(4) show ?thesis
  proof (cases rule: open_fd_cases)
    case (no_fd f k1 k2 fs')
    then show ?thesis using filealloc_then_close [OF no_fd(2,3) ok] by simp
  next
    case (opened f fd k1 k2 fs')
    note f = filealloc_SomeD [OF opened(2)] and d = fdalloc_SomeD [OF opened(3)]
    have l: "f < length (ftable k)" using f(1) tab_ok_length [of oth "{}" "ftable k" "u_ofile k"] assms(2) by (simp add: files_ok_def)
    have "ftable k' = (ftable k)[f := Xv6_Sysfile.opened ip omode ((ftable k ! f)\<lparr>f_ref := 1\<rparr>)]"
      using l by (simp add: opened(4) d(3) f(3))
    moreover have "Xv6_Sysfile.opened ip omode (x\<lparr>f_ref := 1\<rparr>) = \<lparr> f_type = FD_INODE, f_ref = 1, f_readable = (omode AND O_WRONLY = 0),
         f_writable = (omode AND O_WRONLY \<noteq> 0 \<or> omode AND O_RDWR \<noteq> 0), f_pipe = f_pipe x, f_ip = ip, f_off = 0 \<rparr>" for x
      by (cases x) (simp add: Xv6_Sysfile.opened_def)
    ultimately show ?thesis using opened(1) 3(2) f(1,2) d(1,2,4) by (intro disjI2 exI [of _ fd] exI [of _ f] exI [of _ ip] exI [of _ omode])
        (simp add: opened(4) d(3) f(3))
  qed simp
qed (use assms(2) in simp_all)

lemma filewrite_loop_result:
  assumes "filewrite_loop dv k f addr n i = Ok (r, k')" "i \<le> n" "f < length (ftable k)"
  shows "r = int n \<and> f_off (ftable k' ! f) = f_off (ftable k ! f) + of_nat (n - i) \<or>
    r = -1 \<and> (\<exists>m<n - i. f_off (ftable k' ! f) = f_off (ftable k ! f) + of_nat m)"
  using assms
proof (induction "n - i" arbitrary: k i rule: less_induct)
  case less
  show ?case
  proof (cases "i < n")
    case False
    then show ?thesis using less.prems by (simp add: filewrite_loop.simps [of dv k f addr n n])
  next
    case True
    let ?n1 = "min write_max (n - i)"
    from less.prems(1) True show ?thesis
    proof (cases rule: filewrite_loop_step)
      case (1 r1 fs fs' k1)
      then show ?thesis using True by (intro disjI2) (auto simp: advance_def intro!: exI [of _ 0])
    next
      case (2 fs fs' k1)
      have n1: "0 < ?n1" "i + ?n1 \<le> n" using True by (auto simp: write_max_eq)
      have off: "f_off (ftable k1 ! f) = f_off (ftable k ! f) + of_nat ?n1" "f < length (ftable k1)"
        using 2(1) less.prems(3) n1(1) by (simp_all add: advance_def del: of_nat_min)
      have "n - (i + ?n1) < n - i" using n1 by linarith
      from less.hyps [OF this 2(2) n1(2) off(2)] show ?thesis
      proof (elim disjE conjE exE)
        assume "r = int n" "f_off (ftable k' ! f) = f_off (ftable k1 ! f) + of_nat (n - (i + ?n1))"
        moreover have "n - i = ?n1 + (n - (i + ?n1))" using n1(2) by linarith
        ultimately show ?thesis using off(1) by (metis add.assoc of_nat_add)
      next
        fix m assume "r = -1" "m < n - (i + ?n1)" "f_off (ftable k' ! f) = f_off (ftable k1 ! f) + of_nat m"
        then show ?thesis using off(1) by (intro disjI2 conjI exI [of _ "?n1 + m"]) (simp_all add: add.assoc del: of_nat_min)
      qed
    qed
  qed
qed

text \<open>
  C20: A write to a file that is not a pipe returns the number of bytes it was asked to write or -1. In
  the first case the offset of the file has moved by that number, in the second by a smaller one,
  the bytes that were written before the error.
\<close>

theorem filewrite_result:
  assumes "filewrite dv k f addr n = Ok (r, k')" "f < length (ftable k)" "f_writable (ftable k ! f)" "f_type (ftable k ! f) = FD_INODE"
  shows "r = int n \<and> f_off (ftable k' ! f) = f_off (ftable k ! f) + of_nat n \<or>
    r = -1 \<and> (\<exists>m<n. f_off (ftable k' ! f) = f_off (ftable k ! f) + of_nat m)"
  using filewrite_loop_result [of dv k f addr n 0 r k'] assms by (simp add: filewrite_def Let_def)

section \<open>A process with an open device\<close>

text \<open>
  Descriptor 0 refers to a device file. The arguments on the stack are 0, 0 and 3, and the string at
  address 0 is empty.
\<close>

definition device_file :: inode where
  "device_file = one_file\<lparr>i_type := T_DEV, i_major := 1\<rparr>"

definition demo_dev :: devsw where
  "demo_dev = \<lparr> dev_read = (\<lambda>_. Some (\<lambda>n. (1, take (unat n) [7]))), dev_write = (\<lambda>_. Some (\<lambda>bs. int (length bs))) \<rparr>"

definition no_file :: open_file where
  "no_file = \<lparr> f_type = FD_NONE, f_ref = 0, f_readable = False, f_writable = False, f_pipe = 0, f_ip = 0, f_off = 0 \<rparr>"

definition demo_file :: open_file where
  "demo_file = no_file\<lparr>f_type := FD_INODE, f_ref := 1, f_readable := True, f_writable := True\<rparr>"

definition demo_proc :: ksys where
  "demo_proc = \<lparr> k_fs = one_fs\<lparr>lg := one_log\<lparr>l_outstanding := 0\<rparr>, icache := [device_file]\<rparr>, ftable = demo_file # replicate 99 no_file,
     k_pipes = (\<lambda>_. pipe_init []), k_kmem = \<lparr> mem = (\<lambda>_. 0), use_lock = True, freelist = 0 \<rparr>, k_end = 0, u_sz = 20,
     u_mem = [0, 0, 0, 0, 0, 0, 0, 0, 0, 0, 0, 0, 3, 0, 0, 0, 0, 0, 0, 0], u_esp = 0, u_ofile = Some 0 # replicate 15 None, u_cwd = 0, u_killed = False \<rparr>"

lemma demo_devs_bounded: "devs_bounded demo_dev"
  by (auto simp: devs_bounded_def demo_dev_def)

lemma demo_user_ok: "user_ok demo_proc"
  by (simp add: user_ok_def demo_proc_def KERNBASE_def)

lemma demo_args: "argint demo_proc 0 = Some 0" "argint demo_proc (Suc 0) = Some 0" "argint demo_proc 2 = Some 3"
  "argstr demo_proc 0 = Some []"
  by (simp_all add: argint_def argstr_def fetchint_def fetchstr_def demo_proc_def word_at_def get_at_def)

lemma demo_files_ok: "files_ok (\<lambda>_. 0) demo_proc"
proof -
  have "count_list (replicate 15 (None :: nat option)) (Some f) = 0" for f by (simp add: count_list_0_iff)
  then show ?thesis
    by (auto simp: files_ok_def tab_ok_def demo_proc_def demo_file_def no_file_def NFILE_def NOFILE_def nth_Cons split: nat.splits)
qed

lemma demo_argfd: "argfd demo_proc 0 = Some (0, 0)"
  by (simp add: argfd_def demo_args NOFILE_def) (simp add: demo_proc_def)

lemma demo_argptr: "argptr demo_proc (Suc 0) 3 = Some 0"
  by (simp add: argptr_def demo_args) (simp add: demo_proc_def)

lemma demo_file_sel: "ftable demo_proc ! 0 = demo_file" "length (ftable demo_proc) = NFILE"
  "f_readable demo_file" "f_writable demo_file" "f_type demo_file = FD_INODE" "f_ip demo_file = 0"
  by (simp_all add: demo_proc_def demo_file_def NFILE_def no_file_def)

lemma demo_fs_sel: "icache (k_fs demo_proc) = [device_file]" "lg (k_fs demo_proc) = one_log\<lparr>l_outstanding := 0\<rparr>"
  by (simp_all add: demo_proc_def)

lemma demo_device: "i_ref device_file = 1" "i_lock device_file = None" "i_valid device_file" "i_type device_file = T_DEV" "dev_ok device_file"
  by (simp_all add: device_file_def one_file_def dev_ok_def NDEV_def)

lemma k_fs_sel [simp]: "k_fs (set_file k f h) = k_fs k" "k_fs (put_user k a bs) = k_fs k" "k_fs (advance k f r) = k_fs k"
  by (simp_all add: set_file_def put_user_def advance_def)

lemma dev_ok_lock [simp]: "dev_ok (i\<lparr>i_lock := l\<rparr>) = dev_ok i"
  by (simp add: dev_ok_def)

lemma demo_read: "\<exists>k'. sys_read demo_dev demo_proc = Ok (1, k')"
  by (simp add: sys_read_def demo_argfd demo_args demo_argptr fileread_def demo_file_sel on_fs_def ilock_def demo_fs_sel demo_device
      set_inode_def Let_def readi_def demo_dev_def iunlock_def)

lemma demo_dup: "\<exists>k'. sys_dup demo_proc = Ok (1, k') \<and> f_ref (ftable k' ! 0) = 2"
  by (simp add: sys_dup_def demo_argfd fdalloc_def)
    (simp add: demo_proc_def NOFILE_def upt_rec demo_file_def no_file_def filedup_def set_file_def)

lemma demo_pid: "mypid (bc (k_fs demo_proc)) = 1" "u_cwd demo_proc = 0"
  by (simp_all add: demo_proc_def one_fs_def binit_def)

lemma demo_mem: "length (u_mem demo_proc) = 20"
  by (simp add: demo_proc_def)

lemma demo_begin: "f_begin_op (k_fs demo_proc) = Ok ((k_fs demo_proc)\<lparr>lg := one_log\<rparr>)"
  by (simp add: f_begin_op_def begin_op_def demo_fs_sel one_log_def LOGSIZE_def MAXOPBLOCKS_def)

lemma demo_end: "\<exists>fs'. f_end_op ((k_fs demo_proc)\<lparr>lg := one_log, icache := c\<rparr>) = Ok fs'"
  by (simp add: f_end_op_def end_op_def one_log_def Let_def commit_def)

lemma demo_dev_sel: "dev_write demo_dev m = Some (\<lambda>bs. int (length bs))"
  by (simp add: demo_dev_def)

lemma demo_write: "\<exists>k'. filewrite demo_dev demo_proc 0 0 3 = Ok (3, k')"
proof -
  obtain fs' where "f_end_op ((k_fs demo_proc)\<lparr>lg := one_log, icache := [device_file\<lparr>i_lock := None\<rparr>]\<rparr>) = Ok fs'" using demo_end by blast
  then show ?thesis
    by (simp add: filewrite_def demo_file_sel Let_def filewrite_loop.simps [of demo_dev demo_proc] filewrite_loop.simps [of demo_dev _ 0 0 3 3]
        on_fs_def demo_begin write_max_eq ilock_def demo_fs_sel demo_device set_inode_def writei_def demo_dev_sel iunlock_def demo_mem)
qed

lemma demo_open_inode: "open_inode demo_dev (k_fs demo_proc) 0 [] 0 =
    Ok (Some 0, (k_fs demo_proc)\<lparr>lg := one_log, icache := [device_file\<lparr>i_ref := 2, i_lock := Some 1\<rparr>]\<rparr>)"
  by (simp add: demo_pid open_inode_def demo_begin namei_def namex_def idup_def namex_from.simps [of demo_dev _ _ "[]"] skipelem_def
      set_inode_def ilock_def demo_fs_sel demo_device Let_def T_DIR_def T_DEV_def)

lemma demo_open: "\<exists>k'. sys_open demo_dev demo_proc = Ok (1, k')"
proof -
  let ?c = "device_file\<lparr>i_ref := 2, i_lock := Some 1\<rparr>"
  let ?k = "demo_proc\<lparr>k_fs := (k_fs demo_proc)\<lparr>lg := one_log, icache := [?c]\<rparr>\<rparr>"
  let ?k1 = "set_file ?k (Suc 0) (\<lambda>x. x\<lparr>f_ref := 1\<rparr>)"
  have f: "filealloc ?k = (Some (Suc 0), ?k1)"
    by (simp add: filealloc_def demo_proc_def upt_rec NFILE_def demo_file_def no_file_def)
  have d: "fdalloc ?k1 (Suc 0) = (Some (Suc 0), ?k1\<lparr>u_ofile := (u_ofile ?k1)[Suc 0 := Some (Suc 0)]\<rparr>)"
    by (simp add: fdalloc_def demo_proc_def upt_rec NOFILE_def)
  obtain fs' where "f_end_op ((k_fs demo_proc)\<lparr>lg := one_log, icache := [?c\<lparr>i_lock := None\<rparr>]\<rparr>) = Ok fs'" using demo_end by blast
  then have "\<exists>k'. open_fd ?k 0 0 = Ok (1, k')"
    unfolding open_fd_def f prod.case option.case d by (simp add: on_fs_def iunlock_def set_inode_def f_end_def demo_pid)
  then show ?thesis using demo_open_inode by (simp add: sys_open_def demo_args on_fs_def demo_pid)
qed

theorem file_references_counted_witness:
  "\<exists>k'. (user_step demo_dev)\<^sup>*\<^sup>* demo_proc k' \<and> files_ok (\<lambda>_. 0) demo_proc \<and> 0 < NFILE \<and> f_ref (ftable k' ! 0) = 2 \<and>
     int (count_list (u_ofile k') (Some 0)) = 2"
proof -
  obtain k' where k': "sys_dup demo_proc = Ok (1, k')" "f_ref (ftable k' ! 0) = 2" using demo_dup by blast
  then have s: "(user_step demo_dev)\<^sup>*\<^sup>* demo_proc k'" by (intro r_into_rtranclp user_step.calls file_call.intros(1))
  have n: "0 < NFILE" by (simp add: NFILE_def)
  show ?thesis using file_references_counted [OF s demo_files_ok n] s n demo_files_ok k'(2) by auto
qed

theorem sys_read_inside_buffer_witness:
  "\<exists>k'. sys_read demo_dev demo_proc = Ok (1, k') \<and> user_ok demo_proc \<and> devs_bounded demo_dev \<and> length (u_mem k') = 20"
proof -
  obtain k' where k': "sys_read demo_dev demo_proc = Ok (1, k')" using demo_read by blast
  show ?thesis using sys_read_inside_buffer [OF k' demo_user_ok demo_devs_bounded] k' demo_user_ok demo_devs_bounded demo_mem by auto
qed

theorem user_memory_well_formed_witness:
  "\<exists>k'. (user_step demo_dev)\<^sup>*\<^sup>* demo_proc k' \<and> sys_read demo_dev demo_proc = Ok (1, k') \<and> user_ok demo_proc \<and> devs_bounded demo_dev \<and> user_ok k'"
proof -
  obtain k' where k': "sys_read demo_dev demo_proc = Ok (1, k')" using demo_read by blast
  then have s: "(user_step demo_dev)\<^sup>*\<^sup>* demo_proc k'" by (intro r_into_rtranclp user_step.calls file_call.intros(2))
  show ?thesis using user_memory_well_formed [OF s demo_user_ok demo_devs_bounded] s k' demo_user_ok demo_devs_bounded by blast
qed

theorem sys_open_result_witness:
  "\<exists>k' f. sys_open demo_dev demo_proc = Ok (1, k') \<and> files_ok (\<lambda>_. 0) demo_proc \<and> u_ofile k' = (u_ofile demo_proc)[1 := Some f]"
proof -
  obtain k' where k': "sys_open demo_dev demo_proc = Ok (1, k')" using demo_open by blast
  have "\<exists>f. u_ofile k' = (u_ofile demo_proc)[1 := Some f]" using sys_open_result [OF k' demo_files_ok] by auto
  then show ?thesis using k' demo_files_ok by blast
qed

theorem filewrite_result_witness:
  "\<exists>k'. filewrite demo_dev demo_proc 0 0 3 = Ok (3, k') \<and> 0 < length (ftable demo_proc) \<and> f_writable (ftable demo_proc ! 0) \<and>
     f_type (ftable demo_proc ! 0) = FD_INODE \<and> f_off (ftable k' ! 0) = 3"
proof -
  obtain k' where k': "filewrite demo_dev demo_proc 0 0 3 = Ok (3, k')" using demo_write by blast
  have f: "0 < length (ftable demo_proc)" "f_writable (ftable demo_proc ! 0)" "f_type (ftable demo_proc ! 0) = FD_INODE"
    by (simp_all add: demo_file_sel NFILE_def)
  have "f_off (ftable demo_proc ! 0) = 0" by (simp add: demo_file_sel demo_file_def no_file_def)
  then show ?thesis using filewrite_result [OF k' f] k' f by auto
qed

end
