(* ===== verification/Xv6_ProcTable.thy ===== *)
theory Xv6_ProcTable
  imports Xv6_Proc Xv6_Descriptors
begin

text \<open>
  The process table of theory \<open>Xv6_Proc\<close> under every sequence of calls: process numbers are unique, every process
  but the first has a parent that is neither free nor a zombie, and a process that sleeps in \<^verbatim>\<open>wait\<close> has
  no zombie among its children, so that the exit of a child is never missed.
\<close>

section \<open>The invariant\<close>

abbreviation st :: "machine \<Rightarrow> nat \<Rightarrow> procstate" where "st m p \<equiv> p_state (procs m ! p)"
abbreviation parent :: "machine \<Rightarrow> nat \<Rightarrow> nat option" where "parent m p \<equiv> p_parent (procs m ! p)"
abbreviation pid :: "machine \<Rightarrow> nat \<Rightarrow> int" where "pid m p \<equiv> p_pid (procs m ! p)"

definition alive :: "machine \<Rightarrow> nat \<Rightarrow> bool" where
  "alive m p \<longleftrightarrow> p < NPROC \<and> st m p \<noteq> UNUSED \<and> st m p \<noteq> ZOMBIE"

text \<open>The process sleeps in \<^verbatim>\<open>wait\<close>.\<close>

definition waiting :: "machine \<Rightarrow> nat \<Rightarrow> bool" where
  "waiting m p \<longleftrightarrow> st m p = SLEEPING \<and> p_chan (procs m ! p) = ProcChan p"

definition proc_ok :: "machine \<Rightarrow> bool" where
  "proc_ok m \<longleftrightarrow> length (procs m) = NPROC \<and> 0 < nextpid m \<and>
     (\<exists>i. initproc m = Some i \<and> alive m i \<and> parent m i = None) \<and>
     (\<forall>p<NPROC. st m p \<noteq> UNUSED \<longrightarrow> 0 < pid m p \<and> pid m p < nextpid m) \<and>
     (\<forall>p<NPROC. \<forall>q<NPROC. st m p \<noteq> UNUSED \<longrightarrow> st m q \<noteq> UNUSED \<longrightarrow> pid m p = pid m q \<longrightarrow> p = q) \<and>
     (\<forall>p<NPROC. st m p \<noteq> UNUSED \<longrightarrow> initproc m \<noteq> Some p \<longrightarrow> (\<exists>q. parent m p = Some q \<and> q \<noteq> p \<and> alive m q)) \<and>
     (\<forall>p<NPROC. \<forall>q. st m p = ZOMBIE \<longrightarrow> parent m p = Some q \<longrightarrow> \<not> waiting m q)"

lemma proc_okD:
  assumes "proc_ok m"
  shows "length (procs m) = NPROC" "0 < nextpid m"
    "\<exists>i. initproc m = Some i \<and> alive m i \<and> parent m i = None"
    "p < NPROC \<Longrightarrow> st m p \<noteq> UNUSED \<Longrightarrow> 0 < pid m p \<and> pid m p < nextpid m"
    "p < NPROC \<Longrightarrow> q < NPROC \<Longrightarrow> st m p \<noteq> UNUSED \<Longrightarrow> st m q \<noteq> UNUSED \<Longrightarrow> pid m p = pid m q \<Longrightarrow> p = q"
    "p < NPROC \<Longrightarrow> st m p \<noteq> UNUSED \<Longrightarrow> initproc m \<noteq> Some p \<Longrightarrow> \<exists>q. parent m p = Some q \<and> q \<noteq> p \<and> alive m q"
    "p < NPROC \<Longrightarrow> st m p = ZOMBIE \<Longrightarrow> parent m p = Some q \<Longrightarrow> \<not> waiting m q"
  using assms unfolding proc_ok_def by blast+

text \<open>
  A change that neither frees, creates nor ends a process and keeps the tree; a process that sleeps
  in \<^verbatim>\<open>wait\<close> afterwards did so before.
\<close>

definition runs :: "procstate \<Rightarrow> bool" where
  "runs s \<longleftrightarrow> s = SLEEPING \<or> s = RUNNABLE \<or> s = RUNNING"

definition soft :: "machine \<Rightarrow> machine \<Rightarrow> bool" where
  "soft m m' \<longleftrightarrow> length (procs m') = length (procs m) \<and> nextpid m' = nextpid m \<and> initproc m' = initproc m \<and>
     (\<forall>p<NPROC. pid m' p = pid m p \<and> parent m' p = parent m p \<and> (st m' p = st m p \<or> runs (st m p) \<and> runs (st m' p)) \<and>
        (waiting m' p \<longrightarrow> waiting m p))"

lemma soft_refl [simp]: "soft m m"
  by (simp add: soft_def)

lemma soft_trans: "soft m1 m2 \<Longrightarrow> soft m2 m3 \<Longrightarrow> soft m1 m3"
  unfolding soft_def by (metis (no_types, lifting))

lemma soft_states:
  assumes "soft m m'" "p < NPROC"
  shows "st m' p = UNUSED \<longleftrightarrow> st m p = UNUSED" "st m' p = ZOMBIE \<longleftrightarrow> st m p = ZOMBIE" "alive m' p = alive m p"
    "pid m' p = pid m p" "parent m' p = parent m p" "waiting m' p \<Longrightarrow> waiting m p"
  using assms by (auto simp: soft_def runs_def alive_def)

lemma soft_alive: "soft m m' \<Longrightarrow> alive m' p = alive m p"
  using soft_states(3) by (cases "p < NPROC") (auto simp: alive_def)

lemma soft_ok:
  assumes "soft m m'" "proc_ok m"
  shows "proc_ok m'"
proof -
  note d = proc_okD [OF assms(2)] and s = soft_states [OF assms(1)]
  have g: "length (procs m') = NPROC" "nextpid m' = nextpid m" "initproc m' = initproc m" using assms(1) d(1) by (simp_all add: soft_def)
  obtain i where i: "initproc m = Some i" "alive m i" "parent m i = None" using d(3) by blast
  have "i < NPROC" using i(2) by (simp add: alive_def)
  then have i': "alive m' i" "parent m' i = None" using i s soft_alive [OF assms(1)] by simp_all
  have z: "\<not> waiting m' q" if "p < NPROC" "st m' p = ZOMBIE" "parent m' p = Some q" for p q
  proof -
    have p: "st m p = ZOMBIE" "parent m p = Some q" using that s by simp_all
    then have "initproc m \<noteq> Some p" using i by (auto simp: alive_def)
    then have "q < NPROC" using d(6) [OF that(1)] p by (auto simp: alive_def)
    then show ?thesis using s(6) d(7) [OF that(1) p] by blast
  qed
  show ?thesis unfolding proc_ok_def g using d(2) i i' z
    by (intro conjI allI impI) (use d s soft_alive [OF assms(1)] in auto)
qed

section \<open>The operations\<close>

lemma set_proc_sel [simp]:
  "procs (set_proc m p f) = (procs m)[p := f (procs m ! p)]" "nextpid (set_proc m p f) = nextpid m"
  "initproc (set_proc m p f) = initproc m" "m_sys (set_proc m p f) = m_sys m"
  by (simp_all add: set_proc_def)

lemma set_kmem_sel [simp]:
  "procs (set_kmem m km) = procs m" "nextpid (set_kmem m km) = nextpid m" "initproc (set_kmem m km) = initproc m"
  by (simp_all add: set_kmem_def)

text \<open>A change of one slot that keeps number, parent and channel, and the state up to running.\<close>

lemma soft_slot:
  assumes "length (procs m) = NPROC" "length (procs m') = NPROC" "nextpid m' = nextpid m" "initproc m' = initproc m"
    and "\<And>q. q < NPROC \<Longrightarrow> q \<noteq> p \<Longrightarrow> procs m' ! q = procs m ! q"
    and "p < NPROC \<Longrightarrow> pid m' p = pid m p \<and> parent m' p = parent m p \<and> (st m' p = st m p \<or> runs (st m p) \<and> runs (st m' p)) \<and>
      (waiting m' p \<longrightarrow> waiting m p)"
  shows "soft m m'"
  unfolding soft_def
proof (intro conjI allI impI)
  fix q assume q: "q < NPROC"
  show "pid m' q = pid m q" "parent m' q = parent m q" "st m' q = st m q \<or> runs (st m q) \<and> runs (st m' q)"
    using assms(5) [OF q] assms(6) q by (cases "q = p"; auto)+
  show "waiting m q" if "waiting m' q" using that assms(5) [OF q] assms(6) q by (cases "q = p") (auto simp: waiting_def)
qed (use assms in simp_all)

lemma soft_set_proc:
  assumes "length (procs m) = NPROC"
    and "p < NPROC \<Longrightarrow> p_pid (f (procs m ! p)) = pid m p \<and> p_parent (f (procs m ! p)) = parent m p \<and>
      (p_state (f (procs m ! p)) = st m p \<or> runs (st m p) \<and> runs (p_state (f (procs m ! p)))) \<and>
      (p_state (f (procs m ! p)) = SLEEPING \<and> p_chan (f (procs m ! p)) = ProcChan p \<longrightarrow> waiting m p)"
  shows "soft m (set_proc m p f)"
  by (rule soft_slot [where p = p]) (use assms in \<open>auto simp: waiting_def\<close>)

lemma soft_wakeup1: "length (procs m) = NPROC \<Longrightarrow> soft m (wakeup1 ch m)"
  by (auto simp: soft_def wakeup1_def runs_def waiting_def)

lemma soft_sys: "procs m' = procs m \<Longrightarrow> nextpid m' = nextpid m \<Longrightarrow> initproc m' = initproc m \<Longrightarrow> soft m m'"
  by (simp add: soft_def waiting_def)

lemma soft_kill:
  assumes "kill m n = (r, m')" "length (procs m) = NPROC"
  shows "soft m m'"
  using assms
  by (auto simp: kill_def split: option.splits if_splits intro!: soft_set_proc simp: runs_def waiting_def)

lemma soft_sleep: "length (procs m) = NPROC \<Longrightarrow> st m cur = RUNNING \<Longrightarrow> soft m (sleep (Addr a) m cur)"
  unfolding sleep_def by (rule soft_set_proc) (auto simp: runs_def)

lemma soft_sleep_return: "length (procs m) = NPROC \<Longrightarrow> soft m (sleep_return m cur)"
  unfolding sleep_return_def by (rule soft_set_proc) auto

lemma soft_yield: "length (procs m) = NPROC \<Longrightarrow> st m cur = RUNNING \<Longrightarrow> soft m (yield m cur)"
  unfolding yield_def by (rule soft_set_proc) (auto simp: runs_def)

lemma switchuvm_same: "switchuvm m p = Ok m' \<Longrightarrow> m' = m"
  by (simp add: switchuvm_def split: if_splits)

lemma soft_scheduler:
  assumes "scheduler_next m i = Ok (Some (p, m'))" "length (procs m) = NPROC"
  shows "soft m m'"
proof -
  have "st m p = RUNNABLE" "m' = set_proc m p (\<lambda>x. x\<lparr>p_state := RUNNING\<rparr>)"
    using assms(1) by (auto simp: scheduler_next_def andThen_eq_Ok split: option.splits dest!: find_SomeD switchuvm_same)
  then show ?thesis using assms(2) by (auto intro!: soft_set_proc simp: runs_def)
qed

lemma soft_growproc:
  assumes "growproc m cur n = Ok (r, m')" "length (procs m) = NPROC"
  shows "soft m m'"
proof -
  obtain sz km where "m' = set_kmem m km \<or> m' = set_proc (set_kmem m km) cur (\<lambda>x. x\<lparr>p_sz := sz\<rparr>)"
    using assms(1) by (auto simp: growproc_def Let_def andThen_eq_Ok split: if_splits dest!: switchuvm_same)
  then show ?thesis
  proof
    assume "m' = set_kmem m km"
    then show ?thesis by (auto intro: soft_sys)
  next
    assume m': "m' = set_proc (set_kmem m km) cur (\<lambda>x. x\<lparr>p_sz := sz\<rparr>)"
    have "soft (set_kmem m km) m'" unfolding m' using assms(2) by (intro soft_set_proc) (auto simp: waiting_def)
    moreover have "soft m (set_kmem m km)" by (rule soft_sys) simp_all
    ultimately show ?thesis using soft_trans by blast
  qed
qed

text \<open>
  \<^verbatim>\<open>growproc\<close> takes the result 0 of \<^verbatim>\<open>deallocuvm\<close> for a failure: shrinking to size 0 frees the pages, returns -1 and
  leaves the old size.
\<close>

lemma growproc_to_zero:
  assumes "growproc m cur n = Ok (r, m')" "n < 0" "p_sz (procs m ! cur) + of_int n = 0"
  shows "r = -1 \<and> procs m' = procs m"
proof -
  have z: "sz = 0" if "deallocuvm e km d s 0 = Ok (sz, km')" for e km d s sz km'
    using that by (auto simp: deallocuvm_def andThen_eq_Ok split: if_splits)
  show ?thesis using assms unfolding growproc_def Let_def assms(3) by (auto simp: andThen_eq_Ok dest!: z)
qed

text \<open>A free slot becomes a new child of a living process, or stays free with another number.\<close>

definition same_slot :: "machine \<Rightarrow> machine \<Rightarrow> nat \<Rightarrow> bool" where
  "same_slot m m' q \<longleftrightarrow> st m' q = st m q \<and> pid m' q = pid m q \<and> parent m' q = parent m q \<and> p_chan (procs m' ! q) = p_chan (procs m ! q)"

lemma free_slot_ok:
  assumes ok: "proc_ok m" and np: "np < NPROC" "st m np = UNUSED"
    and g: "length (procs m') = NPROC" "nextpid m' = nextpid m + 1" "initproc m' = initproc m"
    and o: "\<And>q. q < NPROC \<Longrightarrow> q \<noteq> np \<Longrightarrow> same_slot m m' q"
    and n: "st m' np = UNUSED \<or> st m' np = RUNNABLE \<and> pid m' np = nextpid m \<and> (\<exists>q. parent m' np = Some q \<and> q \<noteq> np \<and> alive m q)"
  shows "proc_ok m'"
proof -
  note d = proc_okD [OF ok]
  have al: "alive m' q" if "alive m q" for q
  proof -
    have "q \<noteq> np" "q < NPROC" using that np(2) by (auto simp: alive_def)
    then show ?thesis using that o by (simp add: alive_def same_slot_def)
  qed
  obtain i where i: "initproc m = Some i" "alive m i" "parent m i = None" using d(3) by blast
  then have i': "i \<noteq> np" "i < NPROC" using np(2) by (auto simp: alive_def)
  have pids: "0 < pid m' p \<and> pid m' p < nextpid m + 1 \<and> (p \<noteq> np \<longrightarrow> pid m' p < nextpid m)" if "p < NPROC" "st m' p \<noteq> UNUSED" for p
    using that d(2) d(4) [of p] o [of p] n by (cases "p = np") (auto simp: same_slot_def)
  show ?thesis unfolding proc_ok_def g
  proof (intro conjI allI impI)
    show "\<exists>i. initproc m = Some i \<and> alive m' i \<and> parent m' i = None" using i i' al o by (auto simp: same_slot_def)
    show "p = q" if "p < NPROC" "q < NPROC" "st m' p \<noteq> UNUSED" "st m' q \<noteq> UNUSED" "pid m' p = pid m' q" for p q
      using that d(5) [of p q] o [of p] o [of q] pids [of p] pids [of q] n by (cases "p = np"; cases "q = np") (auto simp: same_slot_def)
    show "\<exists>q. parent m' p = Some q \<and> q \<noteq> p \<and> alive m' q" if "p < NPROC" "st m' p \<noteq> UNUSED" "initproc m \<noteq> Some p" for p
      using that d(6) [of p] o [of p] n al by (cases "p = np") (auto simp: same_slot_def)
    show "\<not> waiting m' q" if "p < NPROC" "st m' p = ZOMBIE" "parent m' p = Some q" for p q
    proof -
      have "p \<noteq> np" using that n by auto
      then have z: "st m p = ZOMBIE" "parent m p = Some q" using that o [of p] by (simp_all add: same_slot_def)
      then have "initproc m \<noteq> Some p" using i by (auto simp: alive_def)
      then have "alive m q" using d(6) [OF that(1)] z by auto
      then have "q < NPROC" "q \<noteq> np" using np(2) by (auto simp: alive_def)
      then show ?thesis using d(7) [OF that(1) z] o [of q] by (simp add: waiting_def same_slot_def)
    qed
  qed (use d(2) pids in auto)
qed

lemma allocproc_slots:
  assumes "allocproc sy m = (r, m')" "length (procs m) = NPROC"
  shows "(r = None \<and> m' = m) \<or>
    (\<exists>p<NPROC. st m p = UNUSED \<and> length (procs m') = NPROC \<and> nextpid m' = next_int (nextpid m) \<and> initproc m' = initproc m \<and>
       (\<forall>q<NPROC. q \<noteq> p \<longrightarrow> procs m' ! q = procs m ! q) \<and> pid m' p = nextpid m \<and> p_killed (procs m' ! p) = p_killed (procs m ! p) \<and>
       find (\<lambda>p. st m p = UNUSED) [0..<NPROC] = Some p \<and>
       (r = None \<and> st m' p = UNUSED \<or> r = Some p \<and> st m' p = EMBRYO))"
proof (cases "find (\<lambda>p. st m p = UNUSED) [0..<NPROC]")
  case None
  then show ?thesis using assms by (simp add: allocproc_def)
next
  case (Some p)
  note f = find_SomeD [OF Some]
  show ?thesis using assms Some f
    by (intro disjI2 exI [of _ p]) (auto simp: allocproc_def Let_def split: prod.splits if_splits)
qed

lemma each_inv:
  assumes "\<And>x s s'. f x s = Ok s' \<Longrightarrow> P s \<Longrightarrow> P s'" "each f xs s = Ok s'" "P s"
  shows "P s'"
  using assms(2,3) by (induction xs arbitrary: s) (auto simp: andThen_eq_Ok intro: assms(1))

text \<open>The parts of \<^verbatim>\<open>fork\<close> and \<^verbatim>\<open>exit\<close> that deal with open files change no slot in these respects.\<close>

definition same_table :: "machine \<Rightarrow> machine \<Rightarrow> bool" where
  "same_table m m' \<longleftrightarrow> length (procs m') = length (procs m) \<and> nextpid m' = nextpid m \<and> initproc m' = initproc m \<and>
     (\<forall>q. same_slot m m' q \<and> p_killed (procs m' ! q) = p_killed (procs m ! q))"

lemma same_table_refl [simp]: "same_table m m"
  by (simp add: same_table_def same_slot_def)

lemma same_table_trans: "same_table m1 m2 \<Longrightarrow> same_table m2 m3 \<Longrightarrow> same_table m1 m3"
  by (simp add: same_table_def same_slot_def)

lemma same_table_set:
  assumes "procs m' = (procs m)[p := x]" "nextpid m' = nextpid m" "initproc m' = initproc m"
    "p_state x = st m p" "p_pid x = pid m p" "p_parent x = parent m p" "p_chan x = p_chan (procs m ! p)" "p_killed x = p_killed (procs m ! p)"
  shows "same_table m m'"
  using assms by (cases "p < length (procs m)") (auto simp: same_table_def same_slot_def nth_list_update list_update_beyond not_less)

lemma same_table_soft: "same_table m m' \<Longrightarrow> soft m m'"
  by (simp add: same_table_def same_slot_def soft_def waiting_def)

lemma fork_file_same: "fork_file cur np i m = Ok m' \<Longrightarrow> same_table m m'"
  by (auto simp: fork_file_def andThen_eq_Ok split: option.splits intro!: same_table_set)

lemma exit_file_same: "exit_file cur i m = Ok m' \<Longrightarrow> same_table m m'"
  by (auto simp: exit_file_def andThen_eq_Ok split: option.splits intro!: same_table_set)

lemma fork_child_slots:
  assumes "fork_child m cur np = Ok (r, m')" "length (procs m) = NPROC" "np < NPROC"
  shows "length (procs m') = NPROC" "nextpid m' = nextpid m" "initproc m' = initproc m" "q \<noteq> np \<Longrightarrow> same_slot m m' q"
    "r = pid m np" "pid m' np = pid m np" "st m' np = RUNNABLE" "parent m' np = Some cur"
proof -
  let ?x = "procs m ! cur"
  let ?m1 = "set_kmem (set_proc m np (\<lambda>y. y\<lparr>p_sz := p_sz ?x, p_parent := Some cur\<rparr>)) (fork_frame m cur np)"
  obtain m2 c fs where m2: "each (fork_file cur np) [0..<NOFILE] ?m1 = Ok m2"
    and m': "m' = set_proc (m2\<lparr>m_sys := (m_sys m2)\<lparr>k_fs := fs\<rparr>\<rparr>) np (\<lambda>y. y\<lparr>p_cwd := Some c, p_name := take 15 (p_name ?x), p_state := RUNNABLE\<rparr>)"
      "r = pid m' np"
    using assms(1) unfolding fork_child_def Let_def
    by (auto simp: andThen_eq_Ok idup_def split: option.splits prod.splits simp del: set_proc_sel set_kmem_sel)
  have "same_table ?m1 m2"
    by (rule each_inv [where P = "same_table ?m1", OF _ m2]) (auto intro: same_table_trans fork_file_same simp del: set_proc_sel set_kmem_sel)
  then have t: "length (procs m2) = NPROC" "nextpid m2 = nextpid m" "initproc m2 = initproc m" "\<And>q. same_slot ?m1 m2 q"
    using assms(2) by (simp_all add: same_table_def)
  show "length (procs m') = NPROC" "nextpid m' = nextpid m" "initproc m' = initproc m" using t m'(1) by simp_all
  show "same_slot m m' q" if "q \<noteq> np" using that t(4) [of q] m'(1) by (simp add: same_slot_def)
  show p: "pid m' np = pid m np" and "st m' np = RUNNABLE" "parent m' np = Some cur"
    using t(1) t(4) [of np] m'(1) assms(2,3) by (simp_all add: same_slot_def)
  show "r = pid m np" using m'(2) p by simp
qed

lemma fork_slots:
  assumes "fork sy m cur = Ok (r, m')" "length (procs m) = NPROC"
  shows "(r = -1 \<and> m' = m) \<or>
    (\<exists>np<NPROC. st m np = UNUSED \<and> length (procs m') = NPROC \<and> nextpid m' = next_int (nextpid m) \<and> initproc m' = initproc m \<and>
       (\<forall>q<NPROC. q \<noteq> np \<longrightarrow> same_slot m m' q) \<and> pid m' np = nextpid m \<and>
       (r = -1 \<and> st m' np = UNUSED \<or> r = nextpid m \<and> st m' np = RUNNABLE \<and> parent m' np = Some cur))"
proof -
  obtain a m1 where a: "allocproc sy m = (a, m1)" by (cases "allocproc sy m")
  note s = allocproc_slots [OF a assms(2)]
  show ?thesis
  proof (cases a)
    case None
    then have "r = -1" "m' = m1" using assms(1) a by (simp_all add: fork_def)
    then show ?thesis using s None by (auto simp: same_slot_def)
  next
    case (Some np)
    have p: "np < NPROC" "st m np = UNUSED" "length (procs m1) = NPROC" "nextpid m1 = next_int (nextpid m)" "initproc m1 = initproc m"
      "\<forall>q<NPROC. q \<noteq> np \<longrightarrow> procs m1 ! q = procs m ! q" "pid m1 np = nextpid m" using s Some by auto
    obtain d km where rest: "(if d = 0 then fork_fail (set_proc (set_kmem m1 km) np (\<lambda>y. y\<lparr>p_pgdir := d\<rparr>)) np
        else fork_child (set_proc (set_kmem m1 km) np (\<lambda>y. y\<lparr>p_pgdir := d\<rparr>)) cur np) = Ok (r, m')"
      using assms(1) a Some by (auto simp: fork_def Let_def andThen_eq_Ok simp del: set_proc_sel set_kmem_sel)
    let ?m2 = "set_proc (set_kmem m1 km) np (\<lambda>y. y\<lparr>p_pgdir := d\<rparr>)"
    show ?thesis
    proof (cases "d = 0")
      case True
      then obtain km' where "r = -1" "m' = set_proc (set_kmem ?m2 km') np (\<lambda>y. y\<lparr>p_kstack := 0, p_state := UNUSED\<rparr>)"
        using rest by (auto simp: fork_fail_def andThen_eq_Ok simp del: set_proc_sel set_kmem_sel)
      then show ?thesis using p by (intro disjI2 exI [of _ np]) (auto simp: same_slot_def)
    next
      case False
      then have "fork_child ?m2 cur np = Ok (r, m')" using rest by (simp only: if_False)
      from fork_child_slots [OF this] show ?thesis using p by (intro disjI2 exI [of _ np]) (simp add: same_slot_def)
    qed
  qed
qed

lemma fork_ok:
  assumes "fork sy m cur = Ok (r, m')" "proc_ok m" "alive m cur" "nextpid m < 2147483647"
  shows "proc_ok m'"
proof -
  have n: "next_int (nextpid m) = nextpid m + 1" using assms(4) by (simp add: next_int_def)
  show ?thesis
    using fork_slots [OF assms(1) proc_okD(1) [OF assms(2)]]
  proof (elim disjE conjE exE)
    fix np assume np: "np < NPROC" "st m np = UNUSED" "length (procs m') = NPROC" "nextpid m' = next_int (nextpid m)" "initproc m' = initproc m"
      "\<forall>q<NPROC. q \<noteq> np \<longrightarrow> same_slot m m' q" "pid m' np = nextpid m"
      "st m' np = RUNNABLE" "parent m' np = Some cur"
    have "cur \<noteq> np" using assms(3) np(2) by (auto simp: alive_def)
    then show ?thesis using assms(3) np n by (intro free_slot_ok [OF assms(2) np(1-3) _ np(5)]) auto
  next
    fix np assume np: "np < NPROC" "st m np = UNUSED" "length (procs m') = NPROC" "nextpid m' = next_int (nextpid m)" "initproc m' = initproc m"
      "\<forall>q<NPROC. q \<noteq> np \<longrightarrow> same_slot m m' q" "st m' np = UNUSED"
    then show ?thesis using n by (intro free_slot_ok [OF assms(2) np(1-3) _ np(5)]) auto
  qed (use assms(2) in simp)
qed

section \<open>Exit and wait\<close>

lemma chan_of_Some [simp]: "chan_of (Some p) = ProcChan p"
  by (simp add: chan_of_def)

lemma wakeup1_wakes: "q < length (procs m) \<Longrightarrow> \<not> waiting (wakeup1 (ProcChan q) m) q"
  by (auto simp: waiting_def wakeup1_def)

text \<open>Passing a child to the first process.\<close>

lemma reparent_ok:
  assumes ok: "proc_ok m" and p: "p < NPROC" "parent m p = Some cur" and i: "initproc m = Some i"
    and w: "st m p = ZOMBIE \<Longrightarrow> \<not> waiting m i"
  shows "proc_ok (set_proc m p (\<lambda>x. x\<lparr>p_parent := Some i\<rparr>))" (is "proc_ok ?m")
proof -
  note d = proc_okD [OF ok]
  have l: "p < length (procs m)" using p d(1) by simp
  have i': "alive m i" "parent m i = None" using d(3) i by auto
  then have ne: "i \<noteq> p" using p(2) by auto
  have s: "st ?m q = st m q" "pid ?m q = pid m q" "parent ?m q = (if q = p then Some i else parent m q)" "waiting ?m q = waiting m q"
    "alive ?m q = alive m q" for q using l by (auto simp: nth_list_update waiting_def alive_def)
  show ?thesis unfolding proc_ok_def s
    by (intro conjI allI impI) (use d i i' ne w in \<open>auto split: if_splits\<close>)
qed

lemma abandon_ok:
  assumes "proc_ok m" "p < NPROC"
  shows "proc_ok (abandon cur p m)"
proof -
  obtain i where i: "initproc m = Some i" "alive m i" using proc_okD(3) [OF assms(1)] by blast
  note l = proc_okD(1) [OF assms(1)]
  show ?thesis
  proof (cases "parent m p = Some cur")
    case False
    then show ?thesis using assms(1) by (simp add: abandon_def)
  next
    case True
    let ?set = "\<lambda>m. set_proc m p (\<lambda>x. x\<lparr>p_parent := Some i\<rparr>)"
    show ?thesis
    proof (cases "st m p = ZOMBIE")
      case z: True
      let ?w = "wakeup1 (ProcChan i) m"
      have w: "soft m ?w" by (rule soft_wakeup1 [OF l])
      have "?set ?w = wakeup1 (ProcChan i) (?set m)"
        using l assms(2) z by (simp add: set_proc_def wakeup1_def map_update)
      moreover have "proc_ok (?set ?w)"
        using soft_ok [OF w assms(1)] soft_states [OF w assms(2)] True i w wakeup1_wakes [of i m] l assms(2)
        by (intro reparent_ok [of _ _ cur]) (auto simp: soft_def alive_def)
      moreover have "abandon cur p m = wakeup1 (ProcChan i) (?set m)" using True z i l assms(2) by (simp add: abandon_def Let_def)
      ultimately show ?thesis by simp
    next
      case False
      then have "abandon cur p m = ?set m" using True i l assms(2) by (simp add: abandon_def Let_def)
      then show ?thesis using reparent_ok [OF assms True i(1)] False by simp
    qed
  qed
qed

text \<open>What a step of the loop of \<^verbatim>\<open>exit\<close> over the table keeps, apart from the parents it changes.\<close>

definition abandoned :: "nat \<Rightarrow> machine \<Rightarrow> machine \<Rightarrow> bool" where
  "abandoned cur m m' \<longleftrightarrow> initproc m' = initproc m \<and>
     (\<forall>q<NPROC. (waiting m' q \<longrightarrow> waiting m q) \<and> (st m q = RUNNING \<longrightarrow> st m' q = RUNNING) \<and>
        (parent m q \<noteq> Some cur \<longrightarrow> parent m' q = parent m q))"

lemma abandoned_trans: "abandoned cur m1 m2 \<Longrightarrow> abandoned cur m2 m3 \<Longrightarrow> abandoned cur m1 m3"
  unfolding abandoned_def by metis

lemma abandon_abandoned:
  assumes "length (procs m) = NPROC" "p < NPROC" "initproc m \<noteq> Some cur"
  shows "abandoned cur m (abandon cur p m)" "parent (abandon cur p m) p \<noteq> Some cur"
  using assms by (auto simp: abandoned_def abandon_def Let_def wakeup1_def waiting_def nth_list_update)

lemma fold_abandon:
  assumes "proc_ok m" "initproc m \<noteq> Some cur" "set ps \<subseteq> {..<NPROC}"
  shows "proc_ok (fold (abandon cur) ps m) \<and> abandoned cur m (fold (abandon cur) ps m) \<and>
    (\<forall>p\<in>set ps. parent (fold (abandon cur) ps m) p \<noteq> Some cur)"
  using assms
proof (induction ps arbitrary: m)
  case Nil
  then show ?case by (simp add: abandoned_def)
next
  case (Cons p ps)
  let ?m = "abandon cur p m"
  have p: "p < NPROC" using Cons.prems(3) by simp
  note a = abandon_abandoned [OF proc_okD(1) [OF Cons.prems(1)] p Cons.prems(2)]
  have i: "initproc ?m \<noteq> Some cur" using a(1) Cons.prems(2) by (simp add: abandoned_def)
  note ih = Cons.IH [OF abandon_ok [OF Cons.prems(1) p, of cur] i]
  have "abandoned cur ?m (fold (abandon cur) ps ?m)" using ih Cons.prems(3) by simp
  then have "parent (fold (abandon cur) ps ?m) p \<noteq> Some cur" using a(2) p by (simp add: abandoned_def)
  then show ?case using ih Cons.prems(3) a(1) abandoned_trans by auto
qed

lemma become_zombie_ok:
  assumes ok: "proc_ok m" and cur: "alive m cur" "initproc m \<noteq> Some cur" "\<forall>q<NPROC. parent m q \<noteq> Some cur"
    and w: "\<And>q. parent m cur = Some q \<Longrightarrow> \<not> waiting m q"
  shows "proc_ok (set_proc m cur (\<lambda>x. x\<lparr>p_state := ZOMBIE\<rparr>))" (is "proc_ok ?m")
proof -
  note d = proc_okD [OF ok]
  have l: "cur < length (procs m)" using cur(1) d(1) by (simp add: alive_def)
  have s: "st ?m q = (if q = cur then ZOMBIE else st m q)" "pid ?m q = pid m q" "parent ?m q = parent m q"
    "waiting ?m q \<longleftrightarrow> q \<noteq> cur \<and> waiting m q" "alive ?m q \<longleftrightarrow> q \<noteq> cur \<and> alive m q" for q
    using l by (auto simp: nth_list_update waiting_def alive_def)
  have u: "st m cur \<noteq> UNUSED" using cur(1) by (simp add: alive_def)
  show ?thesis unfolding proc_ok_def s
  proof (intro conjI allI impI)
    show "\<exists>q. parent m p = Some q \<and> q \<noteq> p \<and> q \<noteq> cur \<and> alive m q"
      if h: "p < NPROC" "(if p = cur then ZOMBIE else st m p) \<noteq> UNUSED" "initproc ?m \<noteq> Some p" for p
    proof -
      obtain q where "parent m p = Some q" "q \<noteq> p" "alive m q" using d(6) [of p] h u by (auto split: if_splits)
      then show ?thesis using cur(3) h(1) by auto
    qed
  qed (use d u cur w in \<open>auto split: if_splits\<close>)
qed

lemma exit_table_ok:
  assumes ok: "proc_ok m" and cur: "cur < NPROC" "st m cur = RUNNING" "initproc m \<noteq> Some cur"
  shows "proc_ok (exit_table m cur)"
proof -
  let ?m3 = "wakeup1 (chan_of (parent m cur)) m"
  let ?m4 = "fold (abandon cur) [0..<NPROC] ?m3"
  note d = proc_okD [OF ok]
  note w = soft_wakeup1 [OF d(1), of "chan_of (parent m cur)"]
  have ok3: "proc_ok ?m3" by (rule soft_ok [OF w ok])
  obtain q where q: "parent m cur = Some q" "q \<noteq> cur" "alive m q" using d(6) [OF cur(1)] cur(2,3) by auto
  have c3: "st ?m3 cur = RUNNING" "parent ?m3 cur = Some q" "initproc ?m3 \<noteq> Some cur" "\<not> waiting ?m3 q"
    using q wakeup1_wakes [of q m] cur d(1) soft_states(5) [OF w cur(1)] by (auto simp: wakeup1_def alive_def)
  have sub: "set [0..<NPROC] \<subseteq> {..<NPROC}" by auto
  have f: "proc_ok ?m4" "abandoned cur ?m3 ?m4" "\<forall>p<NPROC. parent ?m4 p \<noteq> Some cur"
    using fold_abandon [OF ok3 c3(3) sub] by simp_all
  have c4: "st ?m4 cur = RUNNING" "parent ?m4 cur = Some q" "initproc ?m4 \<noteq> Some cur" "\<not> waiting ?m4 q"
    using f(2) c3 cur(1) q(2,3) by (auto simp: abandoned_def alive_def)
  show ?thesis unfolding exit_table_def Let_def
    by (rule become_zombie_ok [OF f(1)]) (use c4 f(3) cur(1) in \<open>auto simp: alive_def\<close>)
qed

lemma exit_ok:
  assumes "exit m cur = Ok m'" "proc_ok m" "cur < NPROC" "st m cur = RUNNING"
  shows "proc_ok m'"
proof -
  have ni: "initproc m \<noteq> Some cur" using assms(1) by (auto simp: exit_def split: if_splits)
  obtain m1 fs where m1: "each (exit_file cur) [0..<NOFILE] m = Ok m1"
    and m': "m' = exit_table (set_proc (m1\<lparr>m_sys := (m_sys m1)\<lparr>k_fs := fs\<rparr>\<rparr>) cur (\<lambda>x. x\<lparr>p_cwd := None\<rparr>)) cur"
    using assms(1) ni unfolding exit_def by (auto simp: andThen_eq_Ok split: option.splits simp del: set_proc_sel)
  let ?m2 = "set_proc (m1\<lparr>m_sys := (m_sys m1)\<lparr>k_fs := fs\<rparr>\<rparr>) cur (\<lambda>x. x\<lparr>p_cwd := None\<rparr>)"
  have "same_table m m1"
    by (rule each_inv [where P = "same_table m", OF _ m1]) (auto intro: same_table_trans exit_file_same)
  moreover have "same_table m1 ?m2" by (rule same_table_set [where p = cur and x = "(procs m1 ! cur)\<lparr>p_cwd := None\<rparr>"]) simp_all
  ultimately have t: "same_table m ?m2" by (rule same_table_trans)
  have "proc_ok ?m2" by (rule soft_ok [OF same_table_soft [OF t] assms(2)])
  moreover have "st ?m2 cur = RUNNING" "initproc ?m2 \<noteq> Some cur" using t assms(4) ni by (simp_all add: same_table_def same_slot_def del: set_proc_sel)
  ultimately show ?thesis unfolding m' using assms(3) by (intro exit_table_ok)
qed

lemma reaped_ok:
  assumes ok: "proc_ok m" and p: "p < NPROC" "st m p = ZOMBIE"
    and m': "procs m' = (procs m)[p := x]" "nextpid m' = nextpid m" "initproc m' = initproc m" and x: "p_state x = UNUSED"
  shows "proc_ok m'"
proof -
  note d = proc_okD [OF ok]
  have l: "p < length (procs m)" using p(1) d(1) by simp
  have o: "procs m' ! q = procs m ! q" if "q \<noteq> p" for q using that m'(1) by simp
  have n: "procs m' ! p = x" using l m'(1) by simp
  have al: "alive m' q" if "alive m q" for q using that p(2) o [of q] by (cases "q = p") (auto simp: alive_def)
  obtain i where i: "initproc m = Some i" "alive m i" "parent m i = None" using d(3) by blast
  then have "i \<noteq> p" using p(2) by (auto simp: alive_def)
  then have i': "alive m' i" "parent m' i = None" using i al o by auto
  have live: "q \<noteq> p \<and> st m q \<noteq> UNUSED" if "st m' q \<noteq> UNUSED" for q using that n x o [of q] by (cases "q = p") auto
  show ?thesis unfolding proc_ok_def m'(2,3)
  proof (intro conjI allI impI)
    show "\<exists>i. initproc m = Some i \<and> alive m' i \<and> parent m' i = None" using i i' by blast
    show "0 < pid m' q" "pid m' q < nextpid m" if "q < NPROC" "st m' q \<noteq> UNUSED" for q
      using live [OF that(2)] d(4) [OF that(1)] o [of q] by auto
    show "a = b" if "a < NPROC" "b < NPROC" "st m' a \<noteq> UNUSED" "st m' b \<noteq> UNUSED" "pid m' a = pid m' b" for a b
      using live [OF that(3)] live [OF that(4)] d(5) [OF that(1,2)] that(5) o by metis
    show "\<exists>c. parent m' q = Some c \<and> c \<noteq> q \<and> alive m' c" if "q < NPROC" "st m' q \<noteq> UNUSED" "initproc m \<noteq> Some q" for q
      using live [OF that(2)] d(6) [OF that(1) _ that(3)] al o [of q] by metis
    show "\<not> waiting m' c" if "q < NPROC" "st m' q = ZOMBIE" "parent m' q = Some c" for q c
    proof -
      have "q \<noteq> p" using that(2) n x by auto
      then have "\<not> waiting m c" using d(7) [OF that(1)] that(2,3) o by simp
      then show ?thesis using n x o [of c] by (cases "c = p") (auto simp: waiting_def)
    qed
  qed (use d m'(1) in simp_all)
qed

lemma sleep_in_wait_ok:
  assumes ok: "proc_ok m" and cur: "cur < NPROC" "st m cur = RUNNING"
    and nz: "\<And>p. p < NPROC \<Longrightarrow> parent m p = Some cur \<Longrightarrow> st m p \<noteq> ZOMBIE"
  shows "proc_ok (sleep (ProcChan cur) m cur)" (is "proc_ok ?m")
proof -
  note d = proc_okD [OF ok]
  have l: "cur < length (procs m)" using cur(1) d(1) by simp
  have s: "st ?m q = (if q = cur then SLEEPING else st m q)" "pid ?m q = pid m q" "parent ?m q = parent m q"
    "waiting ?m q \<longleftrightarrow> q = cur \<or> waiting m q" "alive ?m q = alive m q" for q
    using l cur by (auto simp: sleep_def nth_list_update waiting_def alive_def)
  have g: "nextpid ?m = nextpid m" "initproc ?m = initproc m" "length (procs ?m) = NPROC" using d(1) by (simp_all add: sleep_def)
  have u: "st m q \<noteq> UNUSED" if "(if q = cur then SLEEPING else st m q) \<noteq> UNUSED" for q using that cur(2) by (auto split: if_splits)
  show ?thesis unfolding proc_ok_def s g
  proof (intro conjI allI impI)
    show "\<exists>q. parent m p = Some q \<and> q \<noteq> p \<and> alive m q"
      if "p < NPROC" "(if p = cur then SLEEPING else st m p) \<noteq> UNUSED" "initproc m \<noteq> Some p" for p
      by (rule d(6) [OF that(1) u [OF that(2)] that(3)])
    show "\<not> (q = cur \<or> waiting m q)"
      if "p < NPROC" "(if p = cur then SLEEPING else st m p) = ZOMBIE" "parent m p = Some q" for p q
      using d(7) [OF that(1) _ that(3)] nz [OF that(1)] that(2,3) by (auto split: if_splits)
    show "0 < pid m p" "pid m p < nextpid m" if "p < NPROC" "(if p = cur then SLEEPING else st m p) \<noteq> UNUSED" for p
      using d(4) [OF that(1) u [OF that(2)]] by simp_all
    show "a = b" if "a < NPROC" "b < NPROC" "(if a = cur then SLEEPING else st m a) \<noteq> UNUSED"
      "(if b = cur then SLEEPING else st m b) \<noteq> UNUSED" "pid m a = pid m b" for a b
      by (rule d(5) [OF that(1,2) u [OF that(3)] u [OF that(4)] that(5)])
  qed (rule refl d(2) d(3))+
qed

lemma wait_ok:
  assumes "wait m cur = Ok (r, m')" "proc_ok m" "cur < NPROC" "st m cur = RUNNING"
  shows "proc_ok m'"
proof (cases "find (\<lambda>p. parent m p = Some cur \<and> st m p = ZOMBIE) [0..<NPROC]")
  case (Some p)
  note f = find_SomeD [OF Some]
  obtain km where m': "m' = set_proc (set_kmem m km) p (\<lambda>x. x\<lparr>p_kstack := 0, p_pid := 0, p_parent := None, p_name := [],
      p_killed := False, p_state := UNUSED\<rparr>)"
    using assms(1) Some by (auto simp: wait_def Let_def andThen_eq_Ok simp del: set_proc_sel)
  have r: "p < NPROC" "st m p = ZOMBIE" using f by simp_all
  show ?thesis by (rule reaped_ok [OF assms(2) r, where x = "procs m' ! p"]) (use r proc_okD(1) [OF assms(2)] in \<open>simp_all add: m'\<close>)
next
  case None
  have nz: "st m p \<noteq> ZOMBIE" if "p < NPROC" "parent m p = Some cur" for p using find_NoneD [OF None, of p] that by auto
  have "m' = m \<or> m' = sleep (ProcChan cur) m cur" using assms(1) None by (auto simp: wait_def split: if_splits)
  then show ?thesis using assms(2) sleep_in_wait_ok [OF assms(2-4) nz] by auto
qed

section \<open>Every sequence of calls\<close>

text \<open>
  The steps of the table: the calls of a running process, the scheduler, a wakeup from anywhere in the
  kernel, and kernel code that leaves the table alone. A process that sleeps elsewhere than in \<^verbatim>\<open>wait\<close> does so on
  an address that is not a slot of the table. The counter of process numbers must not wrap around,
  which takes two thousand million calls of \<^verbatim>\<open>fork\<close>.
\<close>

inductive proc_step :: "ksyms \<Rightarrow> machine \<Rightarrow> machine \<Rightarrow> bool" for sy where
  fork_step: "cur < NPROC \<Longrightarrow> st m cur = RUNNING \<Longrightarrow> nextpid m < 2147483647 \<Longrightarrow> fork sy m cur = Ok (r, m') \<Longrightarrow> proc_step sy m m'"
| exit_step: "cur < NPROC \<Longrightarrow> st m cur = RUNNING \<Longrightarrow> exit m cur = Ok m' \<Longrightarrow> proc_step sy m m'"
| wait_step: "cur < NPROC \<Longrightarrow> st m cur = RUNNING \<Longrightarrow> wait m cur = Ok (w, m') \<Longrightarrow> proc_step sy m m'"
| growproc_step: "cur < NPROC \<Longrightarrow> st m cur = RUNNING \<Longrightarrow> growproc m cur n = Ok (r, m') \<Longrightarrow> proc_step sy m m'"
| sleep_step: "cur < NPROC \<Longrightarrow> st m cur = RUNNING \<Longrightarrow> proc_step sy m (sleep (Addr a) m cur)"
| sleep_return_step: "cur < NPROC \<Longrightarrow> st m cur = RUNNING \<Longrightarrow> proc_step sy m (sleep_return m cur)"
| yield_step: "cur < NPROC \<Longrightarrow> st m cur = RUNNING \<Longrightarrow> proc_step sy m (yield m cur)"
| kill_step: "kill m n = (r, m') \<Longrightarrow> proc_step sy m m'"
| wakeup_step: "proc_step sy m (wakeup ch m)"
| scheduler_step: "scheduler_next m i = Ok (Some (p, m')) \<Longrightarrow> proc_step sy m m'"
| kernel_step: "proc_step sy m (m\<lparr>m_sys := k\<rparr>)"

lemma proc_step_ok:
  assumes "proc_step sy m m'" "proc_ok m"
  shows "proc_ok m'"
  using assms
proof (induction rule: proc_step.induct)
  case (fork_step cur m r m')
  then show ?case by (intro fork_ok [OF fork_step(4)]) (simp_all add: alive_def)
next
  case (exit_step cur m m')
  then show ?case by (intro exit_ok [OF exit_step(3)])
next
  case (wait_step cur m w m')
  then show ?case by (intro wait_ok [OF wait_step(3)])
next
  case (growproc_step cur m n r m')
  then show ?case using soft_ok [OF soft_growproc] proc_okD(1) by blast
next
  case (kill_step m n r m')
  then show ?case using soft_ok [OF soft_kill] proc_okD(1) by blast
next
  case (scheduler_step m i p m')
  then show ?case using soft_ok [OF soft_scheduler] proc_okD(1) by blast
next
  case (sleep_step cur m a)
  show ?case by (rule soft_ok [OF soft_sleep [OF proc_okD(1)] sleep_step(3)]) (rule sleep_step)+
next
  case (sleep_return_step cur m)
  show ?case by (rule soft_ok [OF soft_sleep_return [OF proc_okD(1)] sleep_return_step(3)]) (rule sleep_return_step)
next
  case (yield_step cur m)
  show ?case by (rule soft_ok [OF soft_yield [OF proc_okD(1)] yield_step(3)]) (rule yield_step)+
next
  case (wakeup_step m ch)
  show ?case unfolding wakeup_def by (rule soft_ok [OF soft_wakeup1 [OF proc_okD(1)] wakeup_step]) (rule wakeup_step)
next
  case (kernel_step m k)
  show ?case by (rule soft_ok [OF soft_sys kernel_step]) simp_all
qed

lemma proc_steps_ok: "(proc_step sy)\<^sup>*\<^sup>* m m' \<Longrightarrow> proc_ok m \<Longrightarrow> proc_ok m'"
  by (induction rule: rtranclp_induct) (auto intro: proc_step_ok)

text \<open>The table that \<^verbatim>\<open>userinit\<close> leaves satisfies the invariant.\<close>

lemma userinit_ok:
  assumes "userinit sy dv code m = Ok m'" "length (procs m) = NPROC" "nextpid m = 1"
    "\<And>p. p < NPROC \<Longrightarrow> st m p = UNUSED" "\<And>p. p < NPROC \<Longrightarrow> parent m p = None"
  shows "proc_ok m'"
proof -
  obtain p m1 where a: "allocproc sy m = (Some p, m1)"
    using assms(1) by (auto simp: userinit_def split: prod.splits option.splits)
  have p: "p < NPROC" "length (procs m1) = NPROC" "nextpid m1 = 2" "\<forall>q<NPROC. q \<noteq> p \<longrightarrow> procs m1 ! q = procs m ! q" "pid m1 p = 1"
    using allocproc_slots [OF a assms(2)] assms(3) by (auto simp: next_int_def)
  have par: "parent m1 p = None" using a assms(2,5) by (auto simp: allocproc_def Let_def split: option.splits prod.splits if_splits dest!: find_SomeD)
  obtain x where m': "procs m' = (procs m1)[p := x]" "nextpid m' = nextpid m1" "initproc m' = Some p"
    and x: "p_state x = RUNNABLE" "p_pid x = 1" "p_parent x = None"
    using assms(1) a p(5) par by (auto simp: userinit_def Let_def andThen_eq_Ok set_proc_def set_kmem_def split: if_splits)
  have u: "st m' q = UNUSED" if "q < NPROC" "q \<noteq> p" for q using that p(4) assms(4) by (simp add: m')
  have n: "procs m' ! p = x" using p(1,2) by (simp add: m')
  have g: "length (procs m') = NPROC" "nextpid m' = 2" "initproc m' = Some p" using p by (simp_all add: m')
  have o: "q = p" if "q < NPROC" "st m' q \<noteq> UNUSED" for q using u that by blast
  have z: "st m' q \<noteq> ZOMBIE" if "q < NPROC" for q using u [OF that] n x by (cases "q = p") auto
  have i: "alive m' p \<and> parent m' p = None" using p(1) n x by (simp add: alive_def)
  have b: "0 < pid m' q \<and> pid m' q < 2" if "q < NPROC" "st m' q \<noteq> UNUSED" for q using o [OF that] n x by simp
  show ?thesis unfolding proc_ok_def g
    by (intro conjI allI impI exI [of _ p]) (use i b o z in \<open>blast | simp\<close>)+
qed

section \<open>What a child inherits\<close>

lemma fork_files_inherit:
  assumes "each (fork_file cur np) is m = Ok m'" "np < length (procs m)" "cur \<noteq> np" "distinct is"
  shows "procs m' ! cur = procs m ! cur \<and> p_sz (procs m' ! np) = p_sz (procs m ! np) \<and> length (procs m') = length (procs m) \<and>
    length (p_ofile (procs m' ! np)) = length (p_ofile (procs m ! np)) \<and>
    (\<forall>i<length (p_ofile (procs m ! np)). p_ofile (procs m' ! np) ! i =
       (case p_ofile (procs m ! cur) ! i of Some f \<Rightarrow> if i \<in> set is then Some f else p_ofile (procs m ! np) ! i
        | None \<Rightarrow> p_ofile (procs m ! np) ! i))"
  using assms
proof (induction "is" arbitrary: m)
  case Nil
  then show ?case by (auto split: option.splits)
next
  case (Cons i "is")
  obtain m1 where m1: "fork_file cur np i m = Ok m1" "each (fork_file cur np) is m1 = Ok m'" using Cons.prems(1) by (auto simp: andThen_eq_Ok)
  have s: "procs m1 ! cur = procs m ! cur" "p_sz (procs m1 ! np) = p_sz (procs m ! np)" "length (procs m1) = length (procs m)"
    "p_ofile (procs m1 ! np) = (case p_ofile (procs m ! cur) ! i of None \<Rightarrow> p_ofile (procs m ! np)
       | Some f \<Rightarrow> (p_ofile (procs m ! np))[i := Some f])"
    using m1(1) Cons.prems(2,3) by (auto simp: fork_file_def andThen_eq_Ok split: option.splits)
  show ?case using Cons.IH [OF m1(2)] Cons.prems(2-4) s
    by (auto simp: nth_list_update split: option.splits) (metis nth_list_update_neq option.distinct(1))
qed

lemma fork_child_inherits:
  assumes "fork_child m cur np = Ok (r, m')" "length (procs m) = NPROC" "np < NPROC" "cur \<noteq> np" "length (p_ofile (procs m ! np)) = NOFILE"
  shows "p_sz (procs m' ! np) = p_sz (procs m ! cur)"
    "i < NOFILE \<Longrightarrow> p_ofile (procs m ! cur) ! i = Some f \<Longrightarrow> p_ofile (procs m' ! np) ! i = Some f"
proof -
  let ?x = "procs m ! cur"
  let ?m1 = "set_kmem (set_proc m np (\<lambda>y. y\<lparr>p_sz := p_sz ?x, p_parent := Some cur\<rparr>)) (fork_frame m cur np)"
  obtain m2 c fs where m2: "each (fork_file cur np) [0..<NOFILE] ?m1 = Ok m2"
    and m': "m' = set_proc (m2\<lparr>m_sys := (m_sys m2)\<lparr>k_fs := fs\<rparr>\<rparr>) np (\<lambda>y. y\<lparr>p_cwd := Some c, p_name := take 15 (p_name ?x), p_state := RUNNABLE\<rparr>)"
    using assms(1) unfolding fork_child_def Let_def
    by (auto simp: andThen_eq_Ok idup_def split: option.splits prod.splits simp del: set_proc_sel set_kmem_sel)
  have "np < length (procs ?m1)" using assms(2,3) by simp
  note h = fork_files_inherit [OF m2 this assms(4)]
  show "p_sz (procs m' ! np) = p_sz (procs m ! cur)" using h assms(2,3) by (simp add: m')
  show "p_ofile (procs m' ! np) ! i = Some f" if "i < NOFILE" "p_ofile (procs m ! cur) ! i = Some f"
    using h that assms(2-5) by (simp add: m')
qed

definition descriptors_ok :: "machine \<Rightarrow> bool" where
  "descriptors_ok m \<longleftrightarrow> (\<forall>x\<in>set (procs m). length (p_ofile x) = NOFILE)"

lemma allocproc_descriptors:
  assumes "allocproc sy m = (Some np, m1)" "descriptors_ok m" "length (procs m) = NPROC"
  shows "length (p_ofile (procs m1 ! np)) = NOFILE"
  using assms by (auto simp: allocproc_def descriptors_ok_def Let_def split: option.splits prod.splits if_splits dest!: find_SomeD)

lemma fork_inherits:
  assumes "fork sy m cur = Ok (r, m')" "proc_ok m" "st m cur = RUNNING" "descriptors_ok m" "np < NPROC" "st m np = UNUSED" "st m' np = RUNNABLE"
    "cur < NPROC"
  shows "p_sz (procs m' ! np) = p_sz (procs m ! cur) \<and>
    (\<forall>i<NOFILE. \<forall>f. p_ofile (procs m ! cur) ! i = Some f \<longrightarrow> p_ofile (procs m' ! np) ! i = Some f)"
proof -
  note l = proc_okD(1) [OF assms(2)]
  obtain a m1 where a: "allocproc sy m = (a, m1)" by (cases "allocproc sy m")
  note s = allocproc_slots [OF a l]
  have u: "st m1 np \<noteq> RUNNABLE" using s assms(5,6) by auto
  then have "a \<noteq> None" using assms(1,7) a by (cases a) (auto simp: fork_def)
  then obtain p where p: "a = Some p" by blast
  then have q: "p < NPROC" "st m p = UNUSED" "length (procs m1) = NPROC" "\<forall>q<NPROC. q \<noteq> p \<longrightarrow> procs m1 ! q = procs m ! q" using s by auto
  obtain d km where rest: "(if d = 0 then fork_fail (set_proc (set_kmem m1 km) p (\<lambda>y. y\<lparr>p_pgdir := d\<rparr>)) p
      else fork_child (set_proc (set_kmem m1 km) p (\<lambda>y. y\<lparr>p_pgdir := d\<rparr>)) cur p) = Ok (r, m')"
    using assms(1) a p by (auto simp: fork_def Let_def andThen_eq_Ok simp del: set_proc_sel set_kmem_sel)
  let ?m2 = "set_proc (set_kmem m1 km) p (\<lambda>y. y\<lparr>p_pgdir := d\<rparr>)"
  have l2: "length (procs ?m2) = NPROC" using q(3) by simp
  have "d \<noteq> 0"
  proof
    assume "d = 0"
    then have "st m' np = (if np = p then UNUSED else st m1 np)"
      using rest q(1,3) by (auto simp: fork_fail_def andThen_eq_Ok)
    then show False using u assms(7) by (simp split: if_splits)
  qed
  then have c: "fork_child ?m2 cur p = Ok (r, m')" using rest by (simp only: if_False)
  have "np = p"
  proof (rule ccontr)
    assume n: "np \<noteq> p"
    then have "st m' np = st ?m2 np" using fork_child_slots(4) [OF c l2 q(1)] by (simp add: same_slot_def)
    then show False using n u assms(7) by simp
  qed
  moreover have "cur \<noteq> p" using q(2) assms(3) by auto
  moreover have "procs ?m2 ! cur = procs m ! cur" using \<open>cur \<noteq> p\<close> q(4) assms(8) by simp
  moreover have "length (p_ofile (procs ?m2 ! p)) = NOFILE"
    using allocproc_descriptors [OF a [unfolded p] assms(4) l] q(1,3) by simp
  ultimately show ?thesis using fork_child_inherits [OF c l2 q(1)] by simp
qed

section \<open>Properties\<close>

text \<open>The first process, which runs, with a child that is ready; one page is free.\<close>

definition free_proc :: proc where
  "free_proc = \<lparr> p_sz = 0, p_pgdir = 0, p_kstack = 0, p_state = UNUSED, p_pid = 0, p_parent = None, p_tf = 0, p_context = 0,
     p_chan = NoChan, p_killed = False, p_ofile = replicate NOFILE None, p_cwd = None, p_name = [] \<rparr>"

definition family :: machine where
  "family = \<lparr> m_sys = demo_proc\<lparr>k_kmem := \<lparr> mem = (\<lambda>_. 0), use_lock = True, freelist = 0x80400000 \<rparr>, k_end := 0x80400000\<rparr>,
     procs = [free_proc\<lparr>p_state := RUNNING, p_pid := 1\<rparr>, free_proc\<lparr>p_state := RUNNABLE, p_pid := 2, p_parent := Some 0\<rparr>] @
       replicate 62 free_proc,
     nextpid = 3, initproc = Some 0 \<rparr>"

lemma family_slots:
  assumes "p < NPROC"
  shows "st family p = (if p = 0 then RUNNING else if p = 1 then RUNNABLE else UNUSED)"
    "pid family p = (if p = 0 then 1 else if p = 1 then 2 else 0)" "parent family p = (if p = 1 then Some 0 else None)"
  using assms by (auto simp: family_def free_proc_def NPROC_def nth_Cons split: nat.splits)

lemma family_sel: "length (procs family) = NPROC" "nextpid family = 3" "initproc family = Some 0" "descriptors_ok family"
  by (auto simp: family_def NPROC_def descriptors_ok_def free_proc_def)

lemma family_ok: "proc_ok family"
  unfolding proc_ok_def family_sel
  by (auto simp: family_slots alive_def NPROC_def split: if_splits)

lemma family_waits: "wait family 0 = Ok (None, sleep (ProcChan 0) family 0)"
proof -
  have "find (\<lambda>p. parent family p = Some 0 \<and> st family p = ZOMBIE) [0..<NPROC] = None"
    by (auto simp: find_None_iff family_slots)
  moreover have "\<exists>p\<in>set [0..<NPROC]. parent family p = Some 0" by (intro bexI [of _ 1]) (auto simp: family_slots NPROC_def)
  moreover have "\<not> p_killed (procs family ! 0)" by (simp add: family_def free_proc_def)
  ultimately show ?thesis unfolding wait_def by auto
qed

text \<open>
  C14: Whatever sequence of calls the processes and the scheduler make, no two processes share a process number,
  every process but the first has a living parent, and a process that sleeps in \<^verbatim>\<open>wait\<close> has no zombie child: the
  wakeup by a child that exits, or by a process that passes its zombies on, is never lost.
\<close>

theorem process_table_sound:
  assumes "proc_ok m" "(proc_step sy)\<^sup>*\<^sup>* m m'"
  shows "(\<forall>p<NPROC. \<forall>q<NPROC. st m' p \<noteq> UNUSED \<and> st m' q \<noteq> UNUSED \<and> pid m' p = pid m' q \<longrightarrow> p = q) \<and>
    (\<forall>p<NPROC. st m' p \<noteq> UNUSED \<and> initproc m' \<noteq> Some p \<longrightarrow> (\<exists>q. parent m' p = Some q \<and> q \<noteq> p \<and> alive m' q)) \<and>
    (\<forall>p<NPROC. \<forall>q. st m' p = ZOMBIE \<and> parent m' p = Some q \<longrightarrow> \<not> waiting m' q)"
  using proc_steps_ok [OF assms(2,1)] unfolding proc_ok_def by blast

theorem process_table_sound_witness:
  "\<exists>m'. proc_ok family \<and> (proc_step \<lparr> s_data = 0, s_trapret = 0, s_forkret = 0 \<rparr>)\<^sup>*\<^sup>* family m' \<and> waiting m' 0 \<and> parent m' 1 = Some 0 \<and>
     st m' 1 \<noteq> ZOMBIE"
proof -
  let ?sy = "\<lparr> s_data = 0, s_trapret = 0, s_forkret = 0 \<rparr>" and ?m = "sleep (ProcChan 0) family 0"
  have "proc_step ?sy family ?m"
    by (rule wait_step [OF _ _ family_waits]) (simp_all add: family_slots NPROC_def)
  then have s: "(proc_step ?sy)\<^sup>*\<^sup>* family ?m" by blast
  have w: "waiting ?m 0" "parent ?m 1 = Some 0" using family_slots(3) [of 1] family_sel(1) by (simp_all add: waiting_def sleep_def NPROC_def)
  have "st ?m 1 \<noteq> ZOMBIE"
    using process_table_sound [OF family_ok s, THEN conjunct2, THEN conjunct2, THEN spec, of 1] w by (auto simp: NPROC_def)
  then show ?thesis using family_ok s w by blast
qed

text \<open>
  C40: \<^verbatim>\<open>kill(0)\<close> finds a free slot, whose number is 0, returns success, and marks the slot; since \<^verbatim>\<open>allocproc\<close> does
  not clear the mark, the next process that gets the slot is born killed.
\<close>

theorem kill_zero_marks_free_slot:
  assumes "length (procs m) = NPROC" "find (\<lambda>p. pid m p = 0) [0..<NPROC] = Some p" "find (\<lambda>p. st m p = UNUSED) [0..<NPROC] = Some p"
    "kill m 0 = (r, m1)" "allocproc sy m1 = (Some np, m2)"
  shows "r = 0 \<and> np = p \<and> p_killed (procs m2 ! np)"
proof -
  note p = find_SomeD [OF assms(3)]
  have k: "r = 0" "m1 = set_proc m p (\<lambda>x. x\<lparr>p_killed := True, p_state := UNUSED\<rparr>)"
    using assms(4) p unfolding kill_def assms(2) by (auto simp: set_proc_def)
  have st: "st m1 q = st m q" for q using k(2) p assms(1) by (cases "q = p") simp_all
  have l: "length (procs m1) = NPROC" using k(2) assms(1) by simp
  have "p_killed (procs m1 ! p)" using k(2) p assms(1) by simp
  then show ?thesis using allocproc_slots [OF assms(5) l] assms(3) k(1) unfolding st by auto
qed

lemma family_kill: "find (\<lambda>p. pid family p = 0) [0..<NPROC] = Some 2" "find (\<lambda>p. st family p = UNUSED) [0..<NPROC] = Some 2"
  by (auto simp: find_Some_iff family_slots NPROC_def intro!: exI [of _ 2] split: if_splits)

theorem kill_zero_marks_free_slot_witness:
  "\<exists>m1 m2. kill family 0 = (0, m1) \<and> allocproc \<lparr> s_data = 0, s_trapret = 0, s_forkret = 0 \<rparr> m1 = (Some 2, m2) \<and> p_killed (procs m2 ! 2)"
proof -
  let ?sy = "\<lparr> s_data = 0, s_trapret = 0, s_forkret = 0 \<rparr>"
  obtain r m1 where m1: "kill family 0 = (r, m1)" by (cases "kill family 0")
  have e: "m1 = set_proc family 2 (\<lambda>x. x\<lparr>p_killed := True, p_state := UNUSED\<rparr>)"
    using m1 family_slots(1) [of 2] unfolding kill_def family_kill by (auto simp: set_proc_def NPROC_def)
  have "st m1 p = st family p" for p using family_sel(1) family_slots(1) [of 2] unfolding e by (cases "p = 2") (simp_all add: NPROC_def)
  then have f: "find (\<lambda>p. st m1 p = UNUSED) [0..<NPROC] = Some 2" using family_kill(2) by simp
  obtain m2 where m2: "allocproc ?sy m1 = (Some 2, m2)"
    unfolding allocproc_def f by (auto simp: Let_def e set_proc_def set_kmem_def m_kmem_def family_def kalloc_def)
  show ?thesis using kill_zero_marks_free_slot [OF family_sel(1) family_kill m1 m2] m1 m2 by auto
qed


text \<open>The only free page becomes the stack of the child, and is freed again when there is none for its directory.\<close>

lemma family_forks: "\<exists>m'. fork \<lparr> s_data = 0, s_trapret = 0, s_forkret = 0 \<rparr> family 0 = Ok (-1, m')"
proof -
  let ?sy = "\<lparr> s_data = 0, s_trapret = 0, s_forkret = 0 \<rparr>"
  obtain m1 where m1: "allocproc ?sy family = (Some 2, m1)" "freelist (m_kmem m1) = 0" "p_kstack (procs m1 ! 2) = 0x80400000" "m_end m1 = 0x80400000"
    unfolding allocproc_def family_kill
    by (simp add: Let_def set_proc_def set_kmem_def m_kmem_def m_end_def family_def kalloc_def load32_def)
  have c: "copyuvm e d (m_kmem m1) g z = Ok (0, m_kmem m1)" for e d g z
    using m1(2) by (simp add: copyuvm_def setupkvm_def kalloc_def)
  let ?m2 = "set_proc (set_kmem m1 (m_kmem m1)) 2 (\<lambda>y. y\<lparr>p_pgdir := 0\<rparr>)"
  have l: "2 < length (procs m1)" using allocproc_slots [OF m1(1) family_sel(1)] by (auto simp: NPROC_def)
  have k: "p_kstack (procs ?m2 ! 2) = 0x80400000" "m_end ?m2 = 0x80400000" using m1(3,4) l by (simp_all add: m_end_def set_kmem_def)
  have "\<exists>km. kfree 0x80400000 (m_kmem ?m2) 0x80400000 = Ok km" by (simp add: kfree_def PGSIZE_def PHYSTOP_def V2P_def KERNBASE_def Let_def)
  then have "\<exists>m'. fork_fail ?m2 2 = Ok (-1, m')" unfolding fork_fail_def k by auto
  then show ?thesis by (simp add: fork_def m1(1) c Let_def del: set_proc_sel set_kmem_sel)
qed


end
