(* ===== verification/Spec2Isabelle.thy ===== *)
theory Spec2Isabelle
  imports ParallelSort_Interleavings Ufs_Client Xv6_Pipe Xv6_Kalloc Xv6_String Xv6_Blocks Xv6_Icache Xv6_Paging Xv6_ProcTable
begin

text \<open>
  A verification development for the operating-systems projects under \<^verbatim>\<open>src\<close>: a parallel sorting
  program, a network file server with its client library, and the xv6 kernel.

  \<^bold>\<open>Conventions.\<close> A definition has the name of the C function, type or constant it translates; helpers for
  a loop or an exit of a function have names of their own and stand before it. Memory that the code
  changes is passed explicitly. A machine integer is a word of its width, so that additions wrap
  around as in C; sizes that cannot reach the width are natural numbers. A pointer to an element of
  a fixed table is its index. Theory \<open>Prelude\<close> holds the shared parts: runs of bytes inside a list
  (\<open>get_at\<close>, \<open>put_at\<close>), little-endian encodings, and the type \<open>outcome\<close> of a C function: \<open>Ok\<close> with a
  value, \<open>Panic\<close> for a call of \<^verbatim>\<open>panic\<close>, \<open>Fault\<close> for undefined behaviour, and \<open>Sleep\<close> where the caller
  would have to wait for another process. \<open>andThen\<close> composes such functions. Every loop is a total
  function with a termination proof, except that the client's retry loop has the value \<open>None\<close> when it
  does not end and that the recursive thread programs of the sort take a depth of nesting, which their
  callers choose as the length of the range and which is shown to be enough.

  \<^bold>\<open>Parallel sort\<close> (\<^verbatim>\<open>src/parallel-sort\<close>).
  \<^item> \<open>ParallelSort\<close>: elements, comparison, copying, insertion and bubble sort, serial and threaded merge
    sort, the parallel merge, and \<^verbatim>\<open>main\<close>, as functions on whole arrays. Here a thread runs as a whole, and
    which of two threads runs first is the parameter \<open>schedule\<close>.
  \<^item> \<open>ParallelSort_Quadratic\<close>: the contracts of a sorter as locales, interpreted for the bubble sort and
    the serial merge sort, and the layout of the files.
  \<^item> \<open>ParallelSort_Threads\<close>: the serial sort is the stable sort; the threaded sort sorts up to 32 elements;
    above that the parallel merge can leave the array unsorted, which is proved of a whole class of inputs.
  \<^item> \<open>ParallelSort_Steps\<close>: programs of single reads and writes of a shared memory, the creation and joining of threads,
    and a step relation that interleaves them; threads that do not access what the other one writes
    give one result in every interleaving.
  \<^item> \<open>ParallelSort_Interleavings\<close>: the threaded sort as such a program, with the buffers and the argument structures
    that the threads share; every interleaving ends with the array that the functions of \<open>ParallelSort\<close> compute.

  \<^bold>\<open>File server\<close> (\<^verbatim>\<open>src/filesystem\<close>).
  \<^item> \<open>Ufs\<close>: the disk format, the server's operations and request loop, and \<^verbatim>\<open>mkfs\<close>. Packets are a list.
  \<^item> \<open>Ufs_Disk\<close>, \<open>Ufs_Files\<close>, \<open>Ufs_Dirs\<close>: accesses stay inside their region of the image; what is written is
    read back; a created name is found; what removing a name does to the directory.
  \<^item> \<open>Ufs_Mkfs\<close>: the image that \<^verbatim>\<open>mkfs\<close> writes satisfies the hypotheses of these theorems, the bitmap
    changes by one bit, and the two places where the allocation state is misread.
  \<^item> \<open>Ufs_Client\<close>: the client library; sockets are a function from the state of the network to an event.
    A creation over a network that loses finitely many packets takes effect exactly once.

  \<^bold>\<open>xv6\<close> (\<^verbatim>\<open>src/xv6/base\<close>), from the bottom up.
  \<^item> \<open>Xv6_Kalloc\<close> (\<^verbatim>\<open>kalloc.c\<close>): the free list in memory; a page is never handed out twice.
  \<^item> \<open>Xv6_String\<close> (\<^verbatim>\<open>string.c\<close>, \<^verbatim>\<open>ulib.c\<close>): \<^verbatim>\<open>memset\<close> with its fast path, overlapping \<^verbatim>\<open>memmove\<close>.
  \<^item> \<open>Xv6_Pipe\<close> (\<^verbatim>\<open>pipe.c\<close>): a ring with wrapping counters implements a bounded queue (locale
    \<open>bounded_queue\<close>) under every interleaving of readers and writers.
  \<^item> \<open>Xv6_Bio\<close> (\<^verbatim>\<open>bio.c\<close>, \<^verbatim>\<open>sleeplock.c\<close>, \<^verbatim>\<open>memide.c\<close>): the buffer cache implements an array of blocks
    (locale \<open>block_cache\<close>).
  \<^item> \<open>Xv6_Log\<close>, \<open>Xv6_Tx\<close> (\<^verbatim>\<open>log.c\<close>): a crash after any prefix of the disk writes of a commit leaves all or
    nothing of the transaction after recovery; a finished transaction is on the disk; the space that
    \<^verbatim>\<open>begin_op\<close> reserves is enough, but not with the log that \<^verbatim>\<open>mkfs.c\<close> writes.
  \<^item> \<open>Xv6_Fs\<close> (\<^verbatim>\<open>fs.c\<close>): block and inode allocation, file contents, directories and paths.
  \<^item> \<open>Xv6_Blocks\<close>: the allocator takes exactly a free block; \<^verbatim>\<open>readi\<close> returns what \<^verbatim>\<open>writei\<close> wrote. The proofs
    use the locale \<open>block_cache\<close> and the lemmas on transactions only.
  \<^item> \<open>Xv6_Icache\<close>: an inode has at most one entry in the cache and the right reference count; \<^verbatim>\<open>skipelem\<close>
    splits paths at slashes.
  \<^item> \<open>Xv6_File\<close> (\<^verbatim>\<open>file.c\<close>, \<^verbatim>\<open>pipealloc\<close>, the argument functions of \<^verbatim>\<open>syscall.c\<close>), \<open>Xv6_Sysfile\<close> (\<^verbatim>\<open>sysfile.c\<close>): open
    files and the system calls on them, on top of the file system, the pipes and the page allocator.
  \<^item> \<open>Xv6_Descriptors\<close>: after every sequence of such calls the reference counts of open files are right
    and the memory of the process is well-formed; \<^verbatim>\<open>read\<close> stays inside the caller's buffer; the results
    of \<^verbatim>\<open>open\<close> and \<^verbatim>\<open>write\<close>.
  \<^item> \<open>Xv6_Vm\<close> (\<^verbatim>\<open>vm.c\<close>): page directories and tables as words of the allocator's memory, with all the functions
    that build, copy and free them.
  \<^item> \<open>Xv6_Paging\<close>: what \<^verbatim>\<open>mappages\<close> does to the translation of addresses.
  \<^item> \<open>Xv6_Proc\<close> (\<^verbatim>\<open>proc.c\<close>): the process table and the calls on it, each up to the point where it gives the
    processor up.
  \<^item> \<open>Xv6_ProcTable\<close>: process numbers, parents and zombies after every sequence of such calls, the result of
    \<^verbatim>\<open>fork\<close>, and the number 0 in \<^verbatim>\<open>kill\<close>.

  \<^bold>\<open>Bounds and hypotheses.\<close> Table sizes and limits are those of \<^verbatim>\<open>param.h\<close> and of the headers. Device drivers
  are the parameter \<open>devsw\<close>; where a theorem needs that a driver returns no more bytes than asked for,
  it is the hypothesis \<open>devs_bounded\<close>. Theorems on files assume a well-formed image, which the
  witnesses show for concrete ones.

  \<^bold>\<open>Not modelled.\<close> A call under a lock is one atomic step, so spin locks do not occur and a wait is an
  outcome or the end of a step and not a switch of registers. Traps, hardware drivers, assembly code, segment descriptors
  and the printing of messages need models of the processor and of devices. \<^verbatim>\<open>exec\<close>, the
  shells, \<^verbatim>\<open>mkfs\<close> and the library and programs of user space, and the patches are within reach of the
  same methods and are not covered yet.
\<close>

end
